(* ===== verification/Prelude.thy ===== *)
theory Prelude
  imports Main "HOL-Library.Word" "HOL-Library.Sublist"
begin

text \<open>
  Shared vocabulary of the development: the machine integers of the Rust source, byte strings,
  the big-endian integer codec (\<open>to_be_bytes\<close>, \<open>from_be_bytes\<close>), the list notions the components
  share (common prefixes, retaining, first matching index) and their lemmas.

  Rust integers are words of their width. Arithmetic on words wraps around, which is what the
  release profile of the crate does; where the source uses checked or saturating operations the
  model writes them out. Signed \<open>i32\<close> values are kept as the 32-bit pattern.
\<close>

unbundle bit_operations_syntax

named_theorems wire_simps \<open>evaluation of the wire readers on well-formed input\<close>
named_theorems codec_simps \<open>round trips of codecs\<close>
named_theorems inv_intros \<open>introduction rules of invariants\<close>

type_synonym u8 = "8 word"
type_synonym u16 = "16 word"
type_synonym u32 = "32 word"
type_synonym u64 = "64 word"
type_synonym i32 = "32 word"
type_synonym bytes = "u8 list"

section \<open>Machine integers\<close>

definition u64_max :: u64 where
  "u64_max = - 1"

definition u16_max :: u16 where
  "u16_max = - 1"

text \<open>\<open>saturating_sub\<close> on \<open>u64\<close>.\<close>

definition sat_sub :: "'a::len word \<Rightarrow> 'a word \<Rightarrow> 'a word" where
  "sat_sub a b = (if a < b then 0 else a - b)"

lemma unat_sat_sub [simp]: "unat (sat_sub a b) = unat a - unat b"
  by (auto simp: sat_sub_def unat_sub word_le_nat_alt word_less_nat_alt not_less)

lemma unat_u64_max: "unat u64_max = 2 ^ 64 - 1"
  by (simp add: u64_max_def unsigned_minus_1_eq_mask mask_eq_exp_minus_1)

lemma unat_succ: "x \<noteq> u64_max \<Longrightarrow> unat (x + 1) = Suc (unat x)"
  using unat_u64_max unsigned_less [where 'a = nat, of x] by (auto simp: unat_word_ariths word_unat_eq_iff)

lemma u64_max_top [simp]: "(x :: u64) \<le> u64_max"
  unfolding u64_max_def by (rule word_order.extremum)

text \<open>Single-bit masks, in the form to which the simplifier brings a bit of a word numeral.\<close>

lemma bit_int_power: "bit (2 ^ k :: int) n \<longleftrightarrow> n = k"
  by (auto simp: bit_exp_iff)

lemma bit_int_masks [simp]:
  "bit (0x80 :: int) n \<longleftrightarrow> n = 7" "bit (0x8000 :: int) n \<longleftrightarrow> n = 15"
  using bit_int_power [of 7 n] bit_int_power [of 15 n] by simp_all

section \<open>Big-endian integers\<close>

text \<open>
  \<open>to_be n w\<close> lists the \<open>n\<close> bytes of \<open>w\<close>, most significant first; \<open>from_be\<close> reads them back.
  They model \<open>u64::to_be_bytes\<close>, \<open>u16::to_be_bytes\<close> and their inverses.
\<close>

primrec to_be :: "nat \<Rightarrow> 'a::len word \<Rightarrow> bytes" where
  "to_be 0 w = []"
| "to_be (Suc n) w = to_be n (drop_bit 8 w) @ [ucast w]"

definition from_be :: "bytes \<Rightarrow> 'a::len word" where
  "from_be bs = foldl (\<lambda>acc b. push_bit 8 acc OR ucast b) 0 bs"

lemma length_to_be [simp]: "length (to_be n w) = n"
  by (induction n arbitrary: w) auto

lemma from_be_Nil [simp]: "from_be [] = 0"
  by (simp add: from_be_def)

lemma from_be_snoc [simp]: "from_be (bs @ [b]) = push_bit 8 (from_be bs) OR ucast b"
  by (simp add: from_be_def)

lemma bit_ucast_u8: "bit (ucast (b :: u8) :: 'a::len word) k \<longleftrightarrow> k < LENGTH('a) \<and> k < 8 \<and> bit b k"
  by (auto simp: bit_ucast_iff dest: bit_imp_le_length)

lemma from_be_to_be: "from_be (to_be n w) = (take_bit (8 * n) w :: 'a::len word)"
proof (induction n arbitrary: w)
  case 0
  then show ?case by simp
next
  case (Suc n)
  show ?case
  proof (rule bit_word_eqI)
    fix k assume "k < LENGTH('a)"
    then show "bit (from_be (to_be (Suc n) w) :: 'a word) k = bit (take_bit (8 * Suc n) w) k"
      by (auto simp: Suc.IH bit_or_iff bit_push_bit_iff bit_take_bit_iff bit_drop_bit_eq
          bit_ucast_u8 bit_ucast_iff not_less)
  qed
qed

lemma ucast_push_or: "LENGTH('a) \<ge> 8 \<Longrightarrow> (ucast (push_bit 8 (x :: 'a::len word) OR ucast (b :: u8)) :: u8) = b"
  by (rule bit_word_eqI) (auto simp: bit_ucast_iff bit_or_iff bit_push_bit_iff)

lemma drop_push_or:
  assumes "LENGTH('a) \<ge> 8 * Suc n"
  shows "drop_bit 8 (push_bit 8 (take_bit (8 * n) x :: 'a::len word) OR ucast (b :: u8)) = take_bit (8 * n) x"
  using assms
  by (intro bit_word_eqI)
    (auto simp: bit_simps bit_ucast_u8 dest: bit_imp_le_length)

lemma from_be_small: "8 * length bs \<le> LENGTH('a) \<Longrightarrow> take_bit (8 * length bs) (from_be bs :: 'a::len word) = from_be bs"
proof (induction bs rule: rev_induct)
  case Nil
  then show ?case by simp
next
  case (snoc b bs)
  then have IH: "take_bit (8 * length bs) (from_be bs :: 'a word) = from_be bs" by simp
  show ?case
  proof (rule bit_word_eqI)
    fix k assume k: "k < LENGTH('a)"
    have low: "bit (from_be bs :: 'a word) j \<Longrightarrow> j < 8 * length bs" for j
      using arg_cong [OF IH, of "\<lambda>w. bit w j"] by (simp add: bit_take_bit_iff)
    show "bit (take_bit (8 * length (bs @ [b])) (from_be (bs @ [b]) :: 'a word)) k
        = bit (from_be (bs @ [b]) :: 'a word) k"
      using k low [of "k - 8"]
      by (auto simp: bit_take_bit_iff bit_or_iff bit_push_bit_iff bit_ucast_u8)
  qed
qed

lemma to_be_from_be:
  "8 * length bs \<le> LENGTH('a) \<Longrightarrow> to_be (length bs) (from_be bs :: 'a::len word) = bs"
proof (induction bs rule: rev_induct)
  case Nil
  then show ?case by simp
next
  case (snoc b bs)
  then have IH: "to_be (length bs) (from_be bs :: 'a word) = bs"
    and small: "take_bit (8 * length bs) (from_be bs :: 'a word) = from_be bs"
    by (auto intro: from_be_small)
  have "drop_bit 8 (from_be (bs @ [b]) :: 'a word) = from_be bs"
    using drop_push_or [of "length bs" "from_be bs :: 'a word" b] snoc.prems by (simp add: small)
  moreover have "(ucast (from_be (bs @ [b]) :: 'a word) :: u8) = b"
    using snoc.prems by (simp add: ucast_push_or)
  ultimately show ?case
    by (simp add: IH)
qed

text \<open>
  The fixed-width contract a record layout relies on: a value takes exactly \<open>w\<close> bytes, and reading
  those bytes gives it back.
\<close>

locale fixed_codec =
  fixes put :: "'v \<Rightarrow> bytes" and get :: "bytes \<Rightarrow> 'v" and width :: nat
  assumes put_width: "length (put v) = width"
    and get_put: "get (put v) = v"
    and put_get: "length bs = width \<Longrightarrow> put (get bs) = bs"
begin

lemma put_inj: "put v = put v' \<Longrightarrow> v = v'"
  by (metis get_put)

lemma get_take_put: "get (take width (put v @ rest)) = v"
  by (simp add: put_width get_put)

lemma drop_put: "drop width (put v @ rest) = rest"
  by (simp add: put_width)

lemma put_get_take: "width \<le> length bs \<Longrightarrow> put (get (take width bs)) @ drop width bs = bs"
  by (simp add: put_get)

end

definition be64 :: "u64 \<Rightarrow> bytes" where
  "be64 w = to_be 8 w"

definition rd64 :: "bytes \<Rightarrow> u64" where
  "rd64 bs = from_be bs"

definition be16 :: "u16 \<Rightarrow> bytes" where
  "be16 w = to_be 2 w"

definition rd16 :: "bytes \<Rightarrow> u16" where
  "rd16 bs = from_be bs"

interpretation be64: fixed_codec be64 rd64 8
proof
  show "length (be64 v) = 8" for v by (simp add: be64_def)
  show "rd64 (be64 v) = v" for v
    by (simp add: be64_def rd64_def from_be_to_be take_bit_word_eq_self)
  show "be64 (rd64 bs) = bs" if "length bs = 8" for bs
    using to_be_from_be [where 'a = 64, of bs] that by (simp add: be64_def rd64_def)
qed

interpretation be16: fixed_codec be16 rd16 2
proof
  show "length (be16 v) = 2" for v by (simp add: be16_def)
  show "rd16 (be16 v) = v" for v
    by (simp add: be16_def rd16_def from_be_to_be take_bit_word_eq_self)
  show "be16 (rd16 bs) = bs" if "length bs = 2" for bs
    using to_be_from_be [where 'a = 16, of bs] that by (simp add: be16_def rd16_def)
qed

lemmas be_widths [simp] = be64.put_width be16.put_width
lemmas be_round_trips [codec_simps] = be64.get_put be16.get_put be64.put_get be16.put_get

section \<open>Decimal rendering\<close>

text \<open>\<open>to_string\<close> on unsigned integers.\<close>

definition digit_char :: "nat \<Rightarrow> char" where
  "digit_char d = char_of (48 + d)"

fun show_nat :: "nat \<Rightarrow> string" where
  "show_nat n = (if n < 10 then [digit_char n] else show_nat (n div 10) @ [digit_char (n mod 10)])"

declare show_nat.simps [simp del]

end
