(* ===== verification/Bootstrap.thy ===== *)
theory Bootstrap
  imports Prelude
begin

text \<open>
  \<^verbatim>\<open>src/bootstrap.rs\<close>: the command that starts the server over SSH, and the parser of its output.

  A Rust string is the list of its Unicode scalar values (\<open>ustr\<close>), so that whitespace, line breaks and
  the 400-character tail count characters as the source does. The key check of the source looks at
  UTF-8 bytes; it accepts only ASCII, where bytes and characters agree. The lemmas show that the
  remote shell splits the command back into the intended arguments, whatever they contain, and that
  the parser finds the first connect line and the probe among any banner output.
\<close>

type_synonym ustr = "u32 list"

definition lit :: "string \<Rightarrow> ustr" where
  "lit s = map (\<lambda>c. of_nat (of_char c)) s"

definition QUOTE :: u32 where "QUOTE = 0x27"
definition BACKSLASH :: u32 where "BACKSLASH = 0x5C"
definition SPACE :: u32 where "SPACE = 0x20"
definition NEWLINE :: u32 where "NEWLINE = 0x0A"
definition RETURN :: u32 where "RETURN = 0x0D"

section \<open>The command\<close>

fun shell_escape :: "ustr \<Rightarrow> ustr" where
  "shell_escape [] = []"
| "shell_escape (c # cs) =
     (if c = QUOTE then [QUOTE, BACKSLASH, QUOTE, QUOTE] else [c]) @ shell_escape cs"

definition shell_quote :: "ustr \<Rightarrow> ustr" where
  "shell_quote arg = [QUOTE] @ shell_escape arg @ [QUOTE]"

definition mosh_tmux_payload_args :: "ustr list" where
  "mosh_tmux_payload_args =
     map lit [''env'', ''COLORTERM=truecolor'', ''tmux'', ''new-session'', ''-A'', ''-s'', ''conch'']"

definition probe :: ustr where
  "probe = lit (''sh -c '' @ [CHR 0x27] @ ''[ -n '' @ [CHR 0x22] @ ''$SSH_CONNECTION'' @ [CHR 0x22]
     @ '' ] && printf '' @ [CHR 0x22, CHR 0x5C] @ ''nMOSH SSH_CONNECTION %s'' @ [CHR 0x5C] @ ''n''
     @ [CHR 0x22] @ '' '' @ [CHR 0x22] @ ''$SSH_CONNECTION'' @ [CHR 0x22, CHR 0x27])"

definition mosh_server_args :: "ustr \<Rightarrow> ustr list option \<Rightarrow> u16 option \<Rightarrow> ustr list" where
  "mosh_server_args loc payload port =
     [lit ''new'', lit ''-c'', lit ''256'', lit ''-s'', lit ''-l'', lit ''LANG='' @ loc]
     @ (case port of None \<Rightarrow> [] | Some p \<Rightarrow> [lit ''-p'', lit (show_nat (unat p))])
     @ (case payload of None \<Rightarrow> [] | Some args \<Rightarrow> lit ''--'' # args)"

fun join :: "ustr \<Rightarrow> ustr list \<Rightarrow> ustr" where
  "join sep [] = []"
| "join sep [x] = x"
| "join sep (x # y # ys) = x @ sep @ join sep (y # ys)"

definition mosh_server_command_inner :: "ustr \<Rightarrow> ustr list option \<Rightarrow> u16 option \<Rightarrow> ustr" where
  "mosh_server_command_inner loc payload port =
     probe @ lit '' ; mosh-server '' @ join [SPACE] (map shell_quote (mosh_server_args loc payload port))"

definition mosh_server_command :: "ustr \<Rightarrow> ustr list option \<Rightarrow> u16 option \<Rightarrow> ustr" where
  "mosh_server_command loc payload port = mosh_server_command_inner loc payload port"

section \<open>The parser\<close>

lemma dropWhile_shorter: "xs \<noteq> [] \<Longrightarrow> P (hd xs) \<Longrightarrow> length (dropWhile P xs) < length xs"
  by (cases xs) (auto simp: less_Suc_eq_le length_dropWhile_le)

record mosh_bootstrap =
  server_ip :: "ustr option"
  server_port :: u16
  server_key :: ustr

datatype bootstrap_error =
    NoConnect ustr
  | BadConnect ustr
  | BadConnection ustr

text \<open>The characters with the Unicode property \<open>White_Space\<close>.\<close>

definition is_whitespace :: "u32 \<Rightarrow> bool" where
  "is_whitespace c \<longleftrightarrow> 9 \<le> c \<and> c \<le> 13 \<or> c = 0x20 \<or> c = 0x85 \<or> c = 0xA0 \<or> c = 0x1680 \<or>
     0x2000 \<le> c \<and> c \<le> 0x200A \<or> c = 0x2028 \<or> c = 0x2029 \<or> c = 0x202F \<or> c = 0x205F \<or> c = 0x3000"

text \<open>\<open>str::lines\<close>: split after each newline, dropping it and a carriage return before it.\<close>

definition strip_return :: "ustr \<Rightarrow> ustr" where
  "strip_return l = (if l \<noteq> [] \<and> last l = RETURN then butlast l else l)"

function str_lines :: "ustr \<Rightarrow> ustr list" where
  "str_lines s =
     (if s = [] then []
      else case dropWhile (\<lambda>c. c \<noteq> NEWLINE) s of
             [] \<Rightarrow> [s]
           | _ # rest \<Rightarrow> strip_return (takeWhile (\<lambda>c. c \<noteq> NEWLINE) s) # str_lines rest)"
  by pat_completeness auto
termination
  by (relation "measure length") (auto, metis Suc_le_eq length_Cons length_dropWhile_le)

declare str_lines.simps [simp del]

definition trim_end_matches :: "u32 \<Rightarrow> ustr \<Rightarrow> ustr" where
  "trim_end_matches c l = rev (dropWhile (\<lambda>x. x = c) (rev l))"

definition strip_prefix_text :: "ustr \<Rightarrow> ustr \<Rightarrow> ustr option" where
  "strip_prefix_text p l = (if take (length p) l = p then Some (drop (length p) l) else None)"

function split_whitespace :: "ustr \<Rightarrow> ustr list" where
  "split_whitespace s =
     (let t = dropWhile is_whitespace s
      in if t = [] then []
         else takeWhile (\<lambda>c. \<not> is_whitespace c) t # split_whitespace (dropWhile (\<lambda>c. \<not> is_whitespace c) t))"
  by pat_completeness auto
termination
proof (relation "measure length")
  fix s t :: ustr
  assume t: "t = dropWhile is_whitespace s" "t \<noteq> []"
  then have "\<not> is_whitespace (hd t)" by (metis hd_dropWhile)
  then have "length (dropWhile (\<lambda>c. \<not> is_whitespace c) t) < length t"
    by (rule dropWhile_shorter [OF t(2)])
  also have "length t \<le> length s" using t by (simp add: length_dropWhile_le)
  finally show "(dropWhile (\<lambda>c. \<not> is_whitespace c) t, s) \<in> measure length" by simp
qed simp

declare split_whitespace.simps [simp del]

definition is_digit :: "u32 \<Rightarrow> bool" where
  "is_digit c \<longleftrightarrow> 0x30 \<le> c \<and> c \<le> 0x39"

text \<open>\<open>u16::from_str\<close>: an optional plus sign, then digits; empty, signs alone and overflow are errors.\<close>

definition digits_value :: "ustr \<Rightarrow> nat" where
  "digits_value ds = foldl (\<lambda>n d. 10 * n + (unat d - 48)) 0 ds"

definition parse_u16 :: "ustr \<Rightarrow> u16 option" where
  "parse_u16 s =
     (let ds = (case s of [] \<Rightarrow> [] | c # cs \<Rightarrow> if c = 0x2B then cs else s)
      in if ds = [] \<or> \<not> list_all is_digit ds \<or> digits_value ds > 65535 then None
         else Some (of_nat (digits_value ds)))"

definition is_ascii_alphanumeric :: "u32 \<Rightarrow> bool" where
  "is_ascii_alphanumeric c \<longleftrightarrow> is_digit c \<or> 0x41 \<le> c \<and> c \<le> 0x5A \<or> 0x61 \<le> c \<and> c \<le> 0x7A"

definition key_char :: "u32 \<Rightarrow> bool" where
  "key_char c \<longleftrightarrow> is_ascii_alphanumeric c \<or> c = 0x2F \<or> c = 0x2B"

definition parse_connect :: "ustr \<Rightarrow> bootstrap_error + (u16 \<times> ustr)" where
  "parse_connect line =
     (let words = split_whitespace line in
      if length words \<noteq> 4 then Inl (BadConnect line)
      else case parse_u16 (words ! 2) of
             None \<Rightarrow> Inl (BadConnect line)
           | Some port \<Rightarrow>
               let key = words ! 3
               in if length key \<noteq> 22 \<or> \<not> list_all key_char key then Inl (BadConnect line)
                  else Inr (port, key))"

fun scan_lines ::
  "ustr option \<Rightarrow> (u16 \<times> ustr) option \<Rightarrow> ustr list \<Rightarrow> ustr list
     \<Rightarrow> bootstrap_error + (ustr option \<times> (u16 \<times> ustr) option \<times> ustr list)" where
  "scan_lines ip boot info [] = Inr (ip, boot, info)"
| "scan_lines ip boot info (raw # rest) =
     (let line = trim_end_matches RETURN raw in
      case strip_prefix_text (lit ''MOSH SSH_CONNECTION '') line of
        Some tail \<Rightarrow>
          (let words = split_whitespace tail in
           if length words \<noteq> 4 then Inl (BadConnection line)
           else if ip \<noteq> None then Inl (BadConnection (lit ''attempt to redefine MOSH SSH_CONNECTION''))
           else scan_lines (Some (words ! 2)) boot info rest)
      | None \<Rightarrow>
          if strip_prefix_text (lit ''MOSH CONNECT '') line \<noteq> None then
            (if boot = None then
               (case parse_connect line of
                  Inl e \<Rightarrow> Inl e
                | Inr pk \<Rightarrow> scan_lines ip (Some pk) info rest)
             else scan_lines ip boot info rest)
          else scan_lines ip boot (info @ [line]) rest)"

definition error_tail :: "ustr list \<Rightarrow> ustr" where
  "error_tail info =
     (let output = join [NEWLINE] info
      in if length output > 400 then 0x2026 # rev (take 400 (rev output)) else output)"

definition parse_mosh_bootstrap :: "ustr \<Rightarrow> bootstrap_error + mosh_bootstrap" where
  "parse_mosh_bootstrap output =
     (case scan_lines None None [] (str_lines output) of
        Inl e \<Rightarrow> Inl e
      | Inr (ip, Some (port, key), _) \<Rightarrow> Inr \<lparr>server_ip = ip, server_port = port, server_key = key\<rparr>
      | Inr (_, None, info) \<Rightarrow> Inl (NoConnect (error_tail info)))"

section \<open>What the remote shell makes of the command\<close>

text \<open>
  POSIX word splitting on the characters a single-quoting client relies on: blanks separate words,
  single quotes make everything up to the next one literal, a backslash outside quotes makes the next
  character literal. A character that is special to the shell outside quotes has no place in the
  model (\<open>None\<close>): the theorem below then also says that no such character is ever exposed.
\<close>

definition plain :: "u32 \<Rightarrow> bool" where
  "plain c \<longleftrightarrow> is_ascii_alphanumeric c \<or> c \<in> {0x2D, 0x5F, 0x2E, 0x2F, 0x3D, 0x3A}"

fun sh_scan :: "bool \<Rightarrow> bool \<Rightarrow> ustr \<Rightarrow> ustr list \<Rightarrow> ustr \<Rightarrow> ustr list option" where
  "sh_scan True started word words [] = None"
| "sh_scan False started word words [] = Some (if started then words @ [word] else words)"
| "sh_scan True started word words (c # cs) =
     (if c = QUOTE then sh_scan False True word words cs else sh_scan True True (word @ [c]) words cs)"
| "sh_scan False started word words (c # cs) =
     (if c = SPACE then sh_scan False False [] (if started then words @ [word] else words) cs
      else if c = QUOTE then sh_scan True True word words cs
      else if c = BACKSLASH then
        (case cs of [] \<Rightarrow> None | d # ds \<Rightarrow> sh_scan False True (word @ [d]) words ds)
      else if plain c then sh_scan False True (word @ [c]) words cs
      else None)"

definition sh_words :: "ustr \<Rightarrow> ustr list option" where
  "sh_words s = sh_scan False False [] [] s"

lemma chars_distinct [simp]: "QUOTE \<noteq> SPACE" "BACKSLASH \<noteq> SPACE" "BACKSLASH \<noteq> QUOTE" "SPACE \<noteq> QUOTE"
  by (simp_all add: QUOTE_def SPACE_def BACKSLASH_def)

lemma sh_scan_escape:
  "sh_scan True True word words (shell_escape arg @ QUOTE # rest) = sh_scan False True (word @ arg) words rest"
  by (induction arg arbitrary: word) auto

lemma sh_scan_quote:
  "sh_scan False started word words (shell_quote arg @ rest) = sh_scan False True (word @ arg) words rest"
  using sh_scan_escape [of word words arg rest] by (simp add: shell_quote_def)

lemma sh_scan_join:
  "args \<noteq> [] \<Longrightarrow> sh_scan False False [] words (join [SPACE] (map shell_quote args)) = Some (words @ args)"
proof (induction args arbitrary: words rule: induct_list012)
  case (2 x)
  then show ?case using sh_scan_quote [of False "[]" words x "[]"] by simp
next
  case (3 x y zs)
  have "sh_scan False False [] words (join [SPACE] (map shell_quote (x # y # zs)))
      = sh_scan False False [] (words @ [x]) (join [SPACE] (map shell_quote (y # zs)))"
    using sh_scan_quote [of False "[]" words x "SPACE # join [SPACE] (map shell_quote (y # zs))"] by simp
  also have "\<dots> = Some (words @ x # y # zs)"
    using "3.IH"(2) [of "words @ [x]"] by simp
  finally show ?case .
qed simp

text \<open>C30: The server's argument vector survives the remote shell: after the fixed probe, the command is
  a line that word splitting turns back into exactly the intended arguments, for every locale and
  payload, including ones full of quotes, blanks and shell metacharacters.\<close>

theorem server_arguments_intact:
  "\<exists>line. mosh_server_command loc payload port = probe @ lit '' ; mosh-server '' @ line
        \<and> sh_words line = Some (mosh_server_args loc payload port)"
  unfolding mosh_server_command_def mosh_server_command_inner_def sh_words_def
  by (intro exI conjI, rule refl, subst sh_scan_join) (simp_all add: mosh_server_args_def)

lemma parse_connect_key:
  "parse_connect line = Inr (port, key) \<Longrightarrow> length key = 22 \<and> list_all key_char key"
  by (auto simp: parse_connect_def Let_def split: if_splits option.splits)

lemma scan_lines_key:
  "scan_lines ip boot info ls = Inr (ip', Some (port, key), info') \<Longrightarrow>
   (\<And>p k. boot = Some (p, k) \<Longrightarrow> length k = 22 \<and> list_all key_char k) \<Longrightarrow>
   length key = 22 \<and> list_all key_char key"
proof (induction ip boot info ls rule: scan_lines.induct)
  case (1 ip boot info)
  then show ?case by simp
next
  case (2 ip boot info raw rest)
  then show ?case
    by (auto simp: Let_def parse_connect_key split: option.splits if_splits sum.splits prod.splits)
qed

text \<open>Whatever the channel printed, an accepted bootstrap carries a key of 22 characters of the
  base64 alphabet, so the key parser never rejects its length.\<close>

theorem accepted_key_shape:
  assumes "parse_mosh_bootstrap output = Inr b"
  shows "length (server_key b) = 22 \<and> list_all key_char (server_key b)"
proof -
  from assms obtain ip port key info where
    "scan_lines None None [] (str_lines output) = Inr (ip, Some (port, key), info)" "server_key b = key"
    by (auto simp: parse_mosh_bootstrap_def split: sum.splits option.splits prod.splits)
  with scan_lines_key show ?thesis by fastforce
qed

section \<open>The parser finds what the server printed\<close>

abbreviation terminated :: "ustr list \<Rightarrow> ustr" where
  "terminated ls \<equiv> concat (map (\<lambda>l. l @ [NEWLINE]) ls)"

definition word_ok :: "ustr \<Rightarrow> bool" where
  "word_ok w \<longleftrightarrow> w \<noteq> [] \<and> list_all (\<lambda>c. \<not> is_whitespace c) w"

text \<open>A line of other output: whatever the login shell, the message of the day or the server prints.\<close>

definition banner :: "ustr \<Rightarrow> bool" where
  "banner l \<longleftrightarrow> NEWLINE \<notin> set l \<and>
     strip_prefix_text (lit ''MOSH SSH_CONNECTION '') (trim_end_matches RETURN l) = None \<and>
     strip_prefix_text (lit ''MOSH CONNECT '') (trim_end_matches RETURN l) = None"

definition connection_line :: "ustr list \<Rightarrow> ustr" where
  "connection_line ws = lit ''MOSH SSH_CONNECTION '' @ join [SPACE] ws"

definition connect_line :: "ustr \<Rightarrow> ustr \<Rightarrow> ustr" where
  "connect_line port key = lit ''MOSH CONNECT '' @ join [SPACE] [port, key]"

lemma newline_not_space [simp]: "NEWLINE \<noteq> SPACE" "RETURN \<noteq> SPACE"
  by (simp_all add: SPACE_def NEWLINE_def RETURN_def)

lemma blanks [simp]: "is_whitespace SPACE" "is_whitespace NEWLINE" "is_whitespace RETURN"
  by (simp_all add: is_whitespace_def SPACE_def NEWLINE_def RETURN_def)

lemma str_lines_terminated:
  "list_all (\<lambda>l. NEWLINE \<notin> set l) ls \<Longrightarrow> str_lines (terminated ls) = map strip_return ls"
proof (induction ls)
  case Nil
  then show ?case by (simp add: str_lines.simps)
next
  case (Cons l ls)
  then have no: "\<forall>c \<in> set l. c \<noteq> NEWLINE" by auto
  have "dropWhile (\<lambda>c. c \<noteq> NEWLINE) (l @ NEWLINE # terminated ls) = NEWLINE # terminated ls"
    and "takeWhile (\<lambda>c. c \<noteq> NEWLINE) (l @ NEWLINE # terminated ls) = l"
    using no by (simp_all add: dropWhile_append2 takeWhile_append2)
  with Cons show ?case by (subst str_lines.simps) simp
qed

lemma trim_strip [simp]: "trim_end_matches RETURN (strip_return l) = trim_end_matches RETURN l"
  by (cases l rule: rev_cases) (auto simp: strip_return_def trim_end_matches_def)

lemma trim_id: "l \<noteq> [] \<Longrightarrow> last l \<noteq> c \<Longrightarrow> trim_end_matches c l = l"
  by (cases l rule: rev_cases) (auto simp: trim_end_matches_def)

lemma strip_prefix_self [simp]: "strip_prefix_text p (p @ l) = Some l"
  by (simp add: strip_prefix_text_def)

lemma split_word:
  assumes "word_ok w"
  shows "split_whitespace (w @ SPACE # rest) = w # split_whitespace rest" and "split_whitespace w = [w]"
proof -
  from assms obtain c cs where w: "w = c # cs" "\<not> is_whitespace c" and all: "\<forall>x \<in> set w. \<not> is_whitespace x"
    by (cases w) (auto simp: word_ok_def list_all_iff)
  have "split_whitespace (SPACE # rest) = split_whitespace rest"
    by (subst (1 2) split_whitespace.simps) simp
  then show "split_whitespace (w @ SPACE # rest) = w # split_whitespace rest"
    using w(2) all
    by (subst split_whitespace.simps) (simp add: w(1) takeWhile_append2 dropWhile_append2)
  have "split_whitespace [] = []" by (simp add: split_whitespace.simps)
  moreover have "takeWhile (\<lambda>c. \<not> is_whitespace c) w = w" "dropWhile (\<lambda>c. \<not> is_whitespace c) w = []"
    "dropWhile is_whitespace w = w" "w \<noteq> []"
    using w all by (simp_all add: takeWhile_eq_all_conv)
  ultimately show "split_whitespace w = [w]"
    by (subst split_whitespace.simps) (simp only: Let_def if_False if_True)
qed

lemma split_join: "list_all word_ok ws \<Longrightarrow> split_whitespace (join [SPACE] ws) = ws"
  by (induction ws rule: induct_list012) (simp_all add: split_word split_whitespace.simps [of "[]"])

lemma join_last: "ws \<noteq> [] \<Longrightarrow> last ws \<noteq> [] \<Longrightarrow> join sep ws \<noteq> [] \<and> last (join sep ws) = last (last ws)"
proof (induction ws rule: induct_list012)
  case (3 x y zs)
  then show ?case by (cases zs) auto
qed auto

lemma word_ok_last: "word_ok w \<Longrightarrow> last w \<noteq> RETURN"
  by (metis blanks(3) last_in_set list_all_iff word_ok_def)

lemma word_ok_no_newline: "word_ok w \<Longrightarrow> NEWLINE \<notin> set w"
  by (metis blanks(2) list_all_iff word_ok_def)

lemma line_trimmed:
  assumes "ws \<noteq> []" and "list_all word_ok ws"
  shows "trim_end_matches RETURN (p @ join [SPACE] ws) = p @ join [SPACE] ws"
proof -
  from assms have "word_ok (last ws)" by (simp add: list_all_iff)
  with join_last [OF assms(1), of "[SPACE]"] word_ok_last [of "last ws"]
  have "join [SPACE] ws \<noteq> []" "last (join [SPACE] ws) \<noteq> RETURN" by (auto simp: word_ok_def)
  then show ?thesis by (intro trim_id) simp_all
qed

lemma join_no_newline: "list_all word_ok ws \<Longrightarrow> NEWLINE \<notin> set (join [SPACE] ws)"
  by (induction ws rule: induct_list012) (auto dest: word_ok_no_newline)

lemma digit_word: "d < 10 \<Longrightarrow> (of_nat (of_char (digit_char d)) :: u32) = of_nat (48 + d)"
  by (simp add: digit_char_def of_char_of)

lemma digit_is_digit: "d < 10 \<Longrightarrow> is_digit (of_nat (48 + d))" "d < 10 \<Longrightarrow> unat (of_nat (48 + d) :: u32) = 48 + d"
  by (simp_all add: is_digit_def word_le_nat_alt unsigned_of_nat take_bit_nat_eq_self del: of_nat_add)

lemma show_nat_digits:
  "lit (show_nat n) \<noteq> [] \<and> list_all is_digit (lit (show_nat n)) \<and> digits_value (lit (show_nat n)) = n"
proof (induction n rule: show_nat.induct)
  case (1 n)
  show ?case
  proof (cases "n < 10")
    case True
    then have "lit (show_nat n) = [of_nat (48 + n)]"
      by (simp only: show_nat.simps [of n] if_True lit_def list.map digit_word)
    with True show ?thesis by (simp add: digit_is_digit digits_value_def del: of_nat_add)
  next
    case False
    have m: "n mod 10 < 10" by simp
    from False have "lit (show_nat n) = lit (show_nat (n div 10)) @ [of_nat (48 + n mod 10)]"
      by (simp only: show_nat.simps [of n] if_False lit_def map_append list.map digit_word [OF m])
    with 1 [OF False] show ?thesis
      by (simp add: digit_is_digit [OF m] digits_value_def del: of_nat_add)
  qed
qed

lemma digit_not_plus: "is_digit c \<Longrightarrow> c \<noteq> 0x2B \<and> \<not> is_whitespace c"
  unfolding is_digit_def is_whitespace_def by (auto simp: word_le_nat_alt)

lemma parse_u16_show: "parse_u16 (lit (show_nat (unat p))) = Some p"
proof -
  obtain c cs where s: "lit (show_nat (unat p)) = c # cs" using show_nat_digits [of "unat p"] by (cases "lit (show_nat (unat p))") auto
  then have "c \<noteq> 0x2B" using show_nat_digits [of "unat p"] digit_not_plus [of c] by simp
  moreover have "unat p \<le> 65535" using unsigned_less [of p, where 'a = nat] by simp
  ultimately show ?thesis
    using show_nat_digits [of "unat p"] by (simp add: parse_u16_def s Let_def)
qed

lemma show_nat_word: "word_ok (lit (show_nat n))"
  using show_nat_digits [of n] digit_not_plus by (auto simp: word_ok_def list_all_iff)

lemma key_word: "length key = 22 \<Longrightarrow> list_all key_char key \<Longrightarrow> word_ok key"
  unfolding word_ok_def list_all_iff
  by (auto simp: key_char_def is_ascii_alphanumeric_def is_digit_def is_whitespace_def word_le_nat_alt)

lemma parse_connect_line:
  assumes "length key = 22" and "list_all key_char key"
  shows "parse_connect (connect_line (lit (show_nat (unat p))) key) = Inr (p, key)"
proof -
  have "word_ok (lit ''MOSH'')" "word_ok (lit ''CONNECT'')"
    by (simp_all add: lit_def word_ok_def is_whitespace_def)
  moreover have "connect_line (lit (show_nat (unat p))) key
      = join [SPACE] [lit ''MOSH'', lit ''CONNECT'', lit (show_nat (unat p)), key]"
    by (simp add: connect_line_def lit_def SPACE_def)
  ultimately have "split_whitespace (connect_line (lit (show_nat (unat p))) key)
      = [lit ''MOSH'', lit ''CONNECT'', lit (show_nat (unat p)), key]"
    using split_join [of "[lit ''MOSH'', lit ''CONNECT'', lit (show_nat (unat p)), key]"]
    by (simp add: show_nat_word key_word [OF assms])
  then show ?thesis by (simp add: parse_connect_def parse_u16_show assms)
qed

lemma scan_banner:
  "list_all banner bs \<Longrightarrow>
   scan_lines ip boot info (map strip_return bs @ rest) = scan_lines ip boot (info @ map (trim_end_matches RETURN) bs) rest"
  by (induction bs arbitrary: info) (simp_all add: banner_def Let_def)

definition later_line :: "ustr \<Rightarrow> bool" where
  "later_line l \<longleftrightarrow> NEWLINE \<notin> set l \<and>
     strip_prefix_text (lit ''MOSH SSH_CONNECTION '') (trim_end_matches RETURN l) = None"

lemma scan_later:
  "list_all later_line bs \<Longrightarrow> \<exists>info'. scan_lines ip (Some pk) info (map strip_return bs) = Inr (ip, Some pk, info')"
  by (induction bs arbitrary: info) (auto simp: later_line_def Let_def)

lemma scan_connection:
  assumes "list_all word_ok [cip, cport, sip, sport]"
  shows "scan_lines None boot info (strip_return (connection_line [cip, cport, sip, sport]) # rest)
       = scan_lines (Some sip) boot info rest"
proof -
  have "trim_end_matches RETURN (connection_line [cip, cport, sip, sport]) = connection_line [cip, cport, sip, sport]"
    unfolding connection_line_def by (rule line_trimmed) (use assms in simp_all)
  then show ?thesis
    using split_join [OF assms] by (simp add: connection_line_def Let_def)
qed

lemma scan_connect:
  assumes "length key = 22" and "list_all key_char key"
  shows "scan_lines ip None info (strip_return (connect_line (lit (show_nat (unat port))) key) # rest)
       = scan_lines ip (Some (port, key)) info rest"
proof -
  let ?l = "connect_line (lit (show_nat (unat port))) key"
  have "trim_end_matches RETURN ?l = ?l"
    unfolding connect_line_def by (rule line_trimmed) (simp_all add: show_nat_word key_word [OF assms])
  moreover have "strip_prefix_text (lit ''MOSH SSH_CONNECTION '') ?l = None"
    by (simp add: strip_prefix_text_def connect_line_def lit_def)
  moreover have "strip_prefix_text (lit ''MOSH CONNECT '') ?l \<noteq> None"
    by (simp add: connect_line_def)
  ultimately show ?thesis by (simp add: Let_def parse_connect_line [OF assms])
qed

text \<open>C31: The parser finds what the server printed: whatever other output comes before, between and after,
  the probe line and the first connect line give the server's address, port and key, and a later
  connect line changes nothing.\<close>

theorem bootstrap_found:
  assumes "list_all banner pre" and "list_all banner mid" and "list_all later_line post"
    and words: "list_all word_ok [cip, cport, sip, sport]"
    and key: "length key = 22" "list_all key_char key"
  shows "parse_mosh_bootstrap (terminated (pre @ connection_line [cip, cport, sip, sport] # mid
            @ connect_line (lit (show_nat (unat port))) key # post))
       = Inr \<lparr>server_ip = Some sip, server_port = port, server_key = key\<rparr>"
proof -
  let ?probe = "connection_line [cip, cport, sip, sport]" and ?conn = "connect_line (lit (show_nat (unat port))) key"
  have no: "NEWLINE \<notin> set (lit ''MOSH SSH_CONNECTION '')" "NEWLINE \<notin> set (lit ''MOSH CONNECT '')"
    by (simp_all add: lit_def NEWLINE_def)
  have "NEWLINE \<notin> set ?probe" using no join_no_newline [OF words] by (simp add: connection_line_def)
  moreover have "NEWLINE \<notin> set ?conn"
    using no join_no_newline [of "[lit (show_nat (unat port)), key]"]
    by (simp add: connect_line_def show_nat_word key_word [OF key])
  ultimately have "str_lines (terminated (pre @ ?probe # mid @ ?conn # post))
      = map strip_return (pre @ ?probe # mid @ ?conn # post)"
    using assms by (intro str_lines_terminated) (auto simp: list_all_iff banner_def later_line_def)
  then have "scan_lines None None [] (str_lines (terminated (pre @ ?probe # mid @ ?conn # post)))
      = scan_lines (Some sip) (Some (port, key)) (map (trim_end_matches RETURN) pre @ map (trim_end_matches RETURN) mid)
          (map strip_return post)"
    by (simp only: map_append list.map scan_banner [OF assms(1)] scan_connection [OF words]
        scan_banner [OF assms(2)] scan_connect [OF key] append_Nil)
  with scan_later [OF assms(3)] show ?thesis
    unfolding parse_mosh_bootstrap_def by (metis (no_types, lifting) old.prod.case option.simps(5) sum.simps(6))
qed

definition sample_key :: ustr where
  "sample_key = lit ''4NeCCgvZFe2RnPgrcU1PQw''"

lemma sample_key_ok: "length sample_key = 22" "list_all key_char sample_key"
  by (simp_all add: sample_key_def lit_def key_char_def is_ascii_alphanumeric_def is_digit_def)

lemma banner_welcome: "list_all banner [lit ''Welcome'']"
  by (simp add: banner_def lit_def NEWLINE_def trim_end_matches_def RETURN_def strip_prefix_text_def)

theorem bootstrap_found_witness:
  "parse_mosh_bootstrap (terminated ([lit ''Welcome''] @ connection_line [lit ''1.2.3.4'', lit ''5'', lit ''6.7.8.9'', lit ''22'']
       # [] @ connect_line (lit (show_nat (unat (60001 :: u16)))) sample_key # []))
     = Inr \<lparr>server_ip = Some (lit ''6.7.8.9''), server_port = 60001, server_key = sample_key\<rparr>"
  by (rule bootstrap_found [OF banner_welcome])
    (simp_all add: sample_key_ok word_ok_def lit_def is_whitespace_def)

lemma sample_accepted:
  "parse_mosh_bootstrap (terminated [connect_line (lit (show_nat (unat (60001 :: u16)))) sample_key])
     = Inr \<lparr>server_ip = None, server_port = 60001, server_key = sample_key\<rparr>"
proof -
  have "NEWLINE \<notin> set (connect_line (lit (show_nat (unat (60001 :: u16)))) sample_key)"
    using join_no_newline [of "[lit (show_nat (unat (60001 :: u16))), sample_key]"]
    by (simp add: connect_line_def show_nat_word key_word sample_key_ok) (simp add: lit_def NEWLINE_def)
  then have "str_lines (terminated [connect_line (lit (show_nat (unat (60001 :: u16)))) sample_key])
      = [strip_return (connect_line (lit (show_nat (unat (60001 :: u16)))) sample_key)]"
    using str_lines_terminated [of "[connect_line (lit (show_nat (unat (60001 :: u16)))) sample_key]"] by simp
  then show ?thesis
    unfolding parse_mosh_bootstrap_def
    by (simp only: scan_connect [OF sample_key_ok, of None "[]" 60001 "[]"] scan_lines.simps(1)) simp
qed

theorem accepted_key_shape_witness: "length sample_key = 22 \<and> list_all key_char sample_key"
  using accepted_key_shape [OF sample_accepted] by simp

text \<open>
  The scan stops at the first line that announces a connection and is not well formed: the error
  names that line, and a well-formed connect line after it is not looked at. The comment at
  \<^verbatim>\<open>src/bootstrap.rs\<close> line 105 and section 1 of \<^verbatim>\<open>SPEC.md\<close> say otherwise: there the first well-formed line
  wins and every line that does not match is informational.
\<close>

theorem malformed_connect_stops:
  assumes "list_all banner pre" and "strip_prefix_text (lit ''MOSH CONNECT '') (trim_end_matches RETURN l) \<noteq> None"
    and "later_line l" and "parse_connect (trim_end_matches RETURN l) = Inl e"
    and "list_all (\<lambda>l. NEWLINE \<notin> set l) post"
  shows "parse_mosh_bootstrap (terminated (pre @ l # post)) = Inl e"
proof -
  have "str_lines (terminated (pre @ l # post)) = map strip_return (pre @ l # post)"
    using assms by (intro str_lines_terminated) (auto simp: list_all_iff banner_def later_line_def)
  then have "scan_lines None None [] (str_lines (terminated (pre @ l # post)))
      = scan_lines None None (map (trim_end_matches RETURN) pre) (strip_return l # map strip_return post)"
    by (simp only: map_append list.map scan_banner [OF assms(1)] append_Nil)
  also have "\<dots> = Inl e" using assms(2,3,4) by (auto simp: Let_def later_line_def)
  finally show ?thesis by (simp add: parse_mosh_bootstrap_def)
qed

lemma short_key_rejected:
  "parse_connect (lit ''MOSH CONNECT 1 k'') = Inl (BadConnect (lit ''MOSH CONNECT 1 k''))"
proof -
  have j: "lit ''MOSH CONNECT 1 k'' = join [SPACE] [lit ''MOSH'', lit ''CONNECT'', lit ''1'', lit ''k'']"
    by (simp add: lit_def SPACE_def)
  have "split_whitespace (lit ''MOSH CONNECT 1 k'') = [lit ''MOSH'', lit ''CONNECT'', lit ''1'', lit ''k'']"
    unfolding j by (rule split_join) (simp add: word_ok_def lit_def is_whitespace_def)
  moreover have "length (lit ''k'') \<noteq> 22" by (simp add: lit_def)
  ultimately show ?thesis
    unfolding parse_connect_def Let_def by (simp split: option.split)
qed

theorem malformed_connect_stops_witness:
  "parse_mosh_bootstrap (terminated ([] @ lit ''MOSH CONNECT 1 k''
       # [connect_line (lit (show_nat (unat (60001 :: u16)))) sample_key]))
     = Inl (BadConnect (lit ''MOSH CONNECT 1 k''))"
proof (rule malformed_connect_stops)
  have t: "trim_end_matches RETURN (lit ''MOSH CONNECT 1 k'') = lit ''MOSH CONNECT 1 k''"
    by (rule trim_id) (simp_all add: lit_def RETURN_def)
  show "strip_prefix_text (lit ''MOSH CONNECT '') (trim_end_matches RETURN (lit ''MOSH CONNECT 1 k'')) \<noteq> None"
    unfolding t by (simp add: strip_prefix_text_def lit_def)
  show "later_line (lit ''MOSH CONNECT 1 k'')"
    unfolding later_line_def t by (simp add: strip_prefix_text_def lit_def NEWLINE_def)
  show "parse_connect (trim_end_matches RETURN (lit ''MOSH CONNECT 1 k'')) = Inl (BadConnect (lit ''MOSH CONNECT 1 k''))"
    unfolding t by (rule short_key_rejected)
  show "list_all (\<lambda>l. NEWLINE \<notin> set l) [connect_line (lit (show_nat (unat (60001 :: u16)))) sample_key]"
    using join_no_newline [of "[lit (show_nat (unat (60001 :: u16))), sample_key]"]
    by (simp add: connect_line_def show_nat_word key_word sample_key_ok) (simp add: lit_def NEWLINE_def)
qed simp

end
