(* ===== verification/Wire.thy ===== *)
theory Wire
  imports Prelude
begin

text \<open>
  \<^verbatim>\<open>src/wire.rs\<close>: the proto2 subset codec of the three message schemas.

  A reader takes the buffer and the position and returns its result together with the position it
  left behind. The position is part of the result in the error case too, because the tolerant
  instruction decoders (\<open>decode_user_instruction\<close>, \<open>decode_host_instruction\<close>) go on reading from
  wherever a failed reader stopped. Positions are \<open>usize\<close> indices into a slice, hence naturals
  bounded by the length; a length prefix is a full \<open>u64\<close> and its addition is checked, as in
  \<^verbatim>\<open>read_length_delimited\<close>.

  The group of lemmas after the definitions shows that every reader moves forward and never past
  the end of the buffer (which is what makes every decoder terminate on arbitrary bytes), that
  each reader inverts its writer, and that each message decoder inverts its encoder. Unknown fields are
  skipped at the price of one stack frame per level of nested groups, which nothing bounds.
\<close>

section \<open>Messages\<close>

record transport_instruction =
  protocol_version :: u32
  old_num :: u64
  new_num :: u64
  ack_num :: u64
  throwaway_num :: u64
  diff :: bytes
  chaff :: bytes

datatype user_instruction =
    Keystroke bytes
  | UResize i32 i32

datatype host_instruction =
    HostBytes bytes
  | HResize i32 i32
  | EchoAck u64

record user_message =
  user_instructions :: "user_instruction list"

record host_message =
  host_instructions :: "host_instruction list"

definition MOSH_PROTOCOL_VERSION :: u32 where
  "MOSH_PROTOCOL_VERSION = 2"

definition SHUTDOWN_NUM :: u64 where
  "SHUTDOWN_NUM = u64_max"

datatype wire_error =
    Truncated
  | BadVarint
  | BadLength
  | UnmatchedGroup u8

text \<open>The \<open>Display\<close> rendering that \<open>thiserror\<close> derives from the error attributes.\<close>

fun wire_error_string :: "wire_error \<Rightarrow> string" where
  "wire_error_string Truncated = ''truncated protobuf''"
| "wire_error_string BadVarint = ''malformed varint (more than 10 bytes)''"
| "wire_error_string BadLength = ''length-delimited field longer than the buffer''"
| "wire_error_string (UnmatchedGroup wt) = ''unsupported wire type '' @ show_nat (unat wt) @ '' in a group''"

type_synonym 'a reader = "bytes \<Rightarrow> nat \<Rightarrow> (wire_error + 'a) \<times> nat"

section \<open>Encoder primitives\<close>

function write_varint :: "u64 \<Rightarrow> bytes" where
  "write_varint value =
     (let byte = ucast (value AND 0x7f) :: u8; value' = drop_bit 7 value
      in if value' = 0 then [byte] else (byte OR 0x80) # write_varint value')"
  by pat_completeness auto
termination
proof (relation "measure unat")
  fix v v' :: u64 and byte :: u8
  assume "v' = drop_bit 7 v" and "v' \<noteq> 0"
  then have "v \<noteq> 0" and "unat v' = unat v div 128"
    by (auto simp: drop_bit_eq_div unat_div)
  then show "(v', v) \<in> measure unat"
    by (simp add: unat_gt_0)
qed simp

declare write_varint.simps [simp del]

definition write_tag :: "u32 \<Rightarrow> u8 \<Rightarrow> bytes" where
  "write_tag field wire_type = write_varint (push_bit 3 (ucast field) OR ucast wire_type)"

definition write_bytes_field :: "u32 \<Rightarrow> bytes \<Rightarrow> bytes" where
  "write_bytes_field field bs =
     write_tag field 2 @ write_varint (of_nat (length bs)) @ bs"

definition write_varint_field :: "u32 \<Rightarrow> u64 \<Rightarrow> bytes" where
  "write_varint_field field value = write_tag field 0 @ write_varint value"

text \<open>The source passes a closure that fills the inner buffer; here that is the buffer itself.\<close>

definition write_message_field :: "u32 \<Rightarrow> bytes \<Rightarrow> bytes" where
  "write_message_field field inner = write_bytes_field field inner"

section \<open>Decoder primitives\<close>

text \<open>The loop of \<open>read_varint\<close>: \<open>k\<close> rounds are left, \<open>i\<close> is the loop index.\<close>

fun read_varint_loop :: "nat \<Rightarrow> nat \<Rightarrow> u64 \<Rightarrow> bytes \<Rightarrow> nat \<Rightarrow> (wire_error + u64) \<times> nat" where
  "read_varint_loop 0 i value buf pos = (Inl BadVarint, pos)"
| "read_varint_loop (Suc k) i value buf pos =
     (if length buf \<le> pos then (Inl Truncated, pos)
      else
        let byte = buf ! pos; pos' = pos + 1;
            value' = value OR push_bit (7 * i) (ucast (byte AND 0x7f))
        in if byte AND 0x80 = 0 then (Inr value', pos')
           else read_varint_loop k (Suc i) value' buf pos')"

definition read_varint :: "u64 reader" where
  "read_varint buf pos = read_varint_loop 10 0 0 buf pos"

definition read_tag :: "(u32 \<times> u8) reader" where
  "read_tag buf pos =
     (case read_varint buf pos of
        (Inl e, p) \<Rightarrow> (Inl e, p)
      | (Inr key, p) \<Rightarrow> (Inr (ucast (drop_bit 3 key), ucast (key AND 0x7)), p))"

definition read_length_delimited :: "bytes reader" where
  "read_length_delimited buf pos =
     (case read_varint buf pos of
        (Inl e, p) \<Rightarrow> (Inl e, p)
      | (Inr len, p) \<Rightarrow>
          if p + unat len \<ge> 2 ^ 64 then (Inl BadLength, p)
          else let stop = p + unat len
               in if stop > length buf then (Inl BadLength, p)
                  else (Inr (take (stop - p) (drop p buf)), stop))"

text \<open>
  \<open>skip_field\<close>: re-entering the loop of the group case is the same as calling the function again
  with wire type 3, so one recursive function models both the loop and the recursive call. The
  recursion is nested; it terminates because a tag takes at least one byte. A function has no stack:
  what the recursion needs of one is \<open>skip_frames\<close> below.
\<close>

function skip_field :: "bytes \<Rightarrow> nat \<Rightarrow> u8 \<Rightarrow> (wire_error + unit) \<times> nat" where
  "skip_field buf pos wire_type =
     (if wire_type = 0 then
        (case read_varint buf pos of (Inl e, p) \<Rightarrow> (Inl e, p) | (Inr _, p) \<Rightarrow> (Inr (), p))
      else if wire_type = 1 then
        (if length buf < pos + 8 then (Inl Truncated, pos) else (Inr (), pos + 8))
      else if wire_type = 2 then
        (case read_length_delimited buf pos of (Inl e, p) \<Rightarrow> (Inl e, p) | (Inr _, p) \<Rightarrow> (Inr (), p))
      else if wire_type = 5 then
        (if length buf < pos + 4 then (Inl Truncated, pos) else (Inr (), pos + 4))
      else if wire_type = 3 then
        (case read_tag buf pos of
           (Inl e, p) \<Rightarrow> (Inl e, p)
         | (Inr (_, wt), p) \<Rightarrow>
             if wt = 4 then (Inr (), p)
             else (case skip_field buf p wt of
                     (Inl e, p') \<Rightarrow> (Inl e, p')
                   | (Inr _, p') \<Rightarrow> skip_field buf p' 3))
      else (Inl (UnmatchedGroup wire_type), pos))"
  by pat_completeness auto

section \<open>Readers move forward and stay inside the buffer\<close>

lemma read_varint_loop_pos:
  "read_varint_loop k i v buf pos = (r, p) \<Longrightarrow>
     pos \<le> p \<and> (pos \<le> length buf \<longrightarrow> p \<le> length buf) \<and> (\<forall>x. r = Inr x \<longrightarrow> pos < p)"
proof (induction k i v buf pos rule: read_varint_loop.induct)
  case (1 i v buf pos)
  then show ?case by auto
next
  case (2 k i v buf pos)
  show ?case
  proof (cases "length buf \<le> pos \<or> buf ! pos AND 0x80 = 0")
    case True
    with "2.prems" show ?thesis by (auto simp: Let_def split: if_splits)
  next
    case False
    then have inside: "pos < length buf" by simp
    with False "2.prems" "2.IH" [OF _ refl refl refl]
    have "pos + 1 \<le> p \<and> (pos + 1 \<le> length buf \<longrightarrow> p \<le> length buf) \<and> (\<forall>x. r = Inr x \<longrightarrow> pos + 1 < p)"
      by (auto simp: Let_def)
    with inside show ?thesis by auto
  qed
qed

lemma read_varint_pos:
  "read_varint buf pos = (r, p) \<Longrightarrow> pos \<le> p \<and> (pos \<le> length buf \<longrightarrow> p \<le> length buf)"
  "read_varint buf pos = (Inr x, p) \<Longrightarrow> pos < p"
  using read_varint_loop_pos unfolding read_varint_def by blast+

lemma read_varint_inside: "read_varint buf pos = (Inr x, p) \<Longrightarrow> pos < length buf"
  by (auto simp: read_varint_def numeral_eq_Suc split: if_splits)

lemma read_tag_pos:
  "read_tag buf pos = (r, p) \<Longrightarrow> pos \<le> p \<and> (pos \<le> length buf \<longrightarrow> p \<le> length buf)"
  "read_tag buf pos = (Inr x, p) \<Longrightarrow> pos < p"
  by (auto simp: read_tag_def dest: read_varint_pos split: prod.splits sum.splits)

lemma read_tag_inside: "read_tag buf pos = (Inr x, p) \<Longrightarrow> pos < length buf"
  by (auto simp: read_tag_def dest: read_varint_inside split: prod.splits sum.splits)

lemma read_length_delimited_pos:
  "read_length_delimited buf pos = (r, p) \<Longrightarrow> pos \<le> p \<and> (pos \<le> length buf \<longrightarrow> p \<le> length buf)"
  by (auto simp: read_length_delimited_def Let_def dest: read_varint_pos
      split: prod.splits sum.splits if_splits)

lemma skip_field_dom_pos:
  "skip_field_dom (buf, pos, wt) \<Longrightarrow> skip_field buf pos wt = (r, p) \<Longrightarrow>
     pos \<le> p \<and> (pos \<le> length buf \<longrightarrow> p \<le> length buf)"
proof (induction arbitrary: r p rule: skip_field.pinduct)
  case (1 buf pos wt)
  show ?case
  proof (cases "wt = 3")
    case False
    with "1.prems" show ?thesis
      by (subst (asm) skip_field.psimps [OF "1.hyps"])
        (auto dest: read_varint_pos read_length_delimited_pos split: if_splits prod.splits sum.splits)
  next
    case True
    note IH = "1.IH"
    show ?thesis
    proof (cases "read_tag buf pos")
      case (Pair rt q)
      note tag = read_tag_pos(1) [OF Pair]
      show ?thesis
      proof (cases rt)
        case (Inl e)
        with True Pair tag "1.prems" show ?thesis
          by (subst (asm) skip_field.psimps [OF "1.hyps"]) auto
      next
        case (Inr fw)
        then obtain f w where fw: "rt = Inr (f, w)" by (cases fw) auto
        show ?thesis
        proof (cases "w = 4")
          case True
          with \<open>wt = 3\<close> Pair fw tag "1.prems" show ?thesis
            by (subst (asm) skip_field.psimps [OF "1.hyps"]) auto
        next
          case False
          obtain r1 q1 where inner: "skip_field buf q w = (r1, q1)" by fastforce
          have i1: "q \<le> q1 \<and> (q \<le> length buf \<longrightarrow> q1 \<le> length buf)"
            using IH(1) [OF _ _ _ _ True Pair [symmetric] fw refl False inner] True by auto
          show ?thesis
          proof (cases r1)
            case (Inl e)
            with \<open>wt = 3\<close> False Pair fw inner i1 tag "1.prems" show ?thesis
              by (subst (asm) skip_field.psimps [OF "1.hyps"]) auto
          next
            case (Inr u)
            with \<open>wt = 3\<close> False Pair fw inner "1.prems" have "skip_field buf q1 3 = (r, p)"
              by (subst (asm) skip_field.psimps [OF "1.hyps"]) auto
            with IH(2) [OF _ _ _ _ True Pair [symmetric] fw refl False inner [symmetric] Inr] True i1 tag
            show ?thesis by auto
          qed
        qed
      qed
    qed
  qed
qed

lemma skip_field_total: "All skip_field_dom"
proof (relation "measure (\<lambda>(buf, pos, wt). length buf - pos)", goal_cases)
  case 1
  show ?case by simp
next
  case (2 buf pos wt rt q fw f w)
  then show ?case
    using read_tag_pos(2) [of buf pos fw q] read_tag_inside [of buf pos fw q] by auto
next
  case (3 buf pos wt rt q fw f w r1 q1 u)
  then have "skip_field buf q w = (Inr u, q1)" and "skip_field_dom (buf, q, w)"
    by auto
  from skip_field_dom_pos [OF this(2,1)] have "q \<le> q1" by simp
  with 3 show ?case
    using read_tag_pos(2) [of buf pos fw q] read_tag_inside [of buf pos fw q] by auto
qed

termination skip_field
  by (rule skip_field_total)

declare skip_field.simps [simp del]

lemma skip_field_pos:
  "skip_field buf pos wt = (r, p) \<Longrightarrow> pos \<le> p \<and> (pos \<le> length buf \<longrightarrow> p \<le> length buf)"
  using skip_field_dom_pos skip_field_total by blast

text \<open>
  The same facts with the equation turned round, the form in which the function package states the
  guards of a recursive call: a loop body that reads a tag and then anything else makes progress.
\<close>

lemma reader_progress:
  "(Inr x, p) = read_tag buf pos \<Longrightarrow> pos < p \<and> pos < length buf"
  "(r1, p) = read_varint buf pos \<Longrightarrow> pos \<le> p"
  "(r2, p) = read_length_delimited buf pos \<Longrightarrow> pos \<le> p"
  "(r3, p) = skip_field buf pos wt \<Longrightarrow> pos \<le> p"
  by (metis read_tag_inside read_tag_pos(2), metis read_varint_pos(1),
      metis read_length_delimited_pos, metis skip_field_pos)

text \<open>
  Each nested group is a recursive call of \<open>skip_field\<close>, so the stack it needs grows with the input.
  \<open>skip_field\<close> itself is the result on a stack that is deep enough; \<open>skip_frames\<close> counts the
  calls that are in progress at once, along the same reads. A new iteration of the loop reuses the frame.
\<close>

function skip_frames :: "bytes \<Rightarrow> nat \<Rightarrow> u8 \<Rightarrow> nat" where
  "skip_frames buf pos wire_type =
     (if wire_type = 3 then
        (case read_tag buf pos of
           (Inl e, p) \<Rightarrow> 1
         | (Inr (_, wt), p) \<Rightarrow>
             if wt = 4 then 1
             else max (1 + skip_frames buf p wt)
                    (case skip_field buf p wt of
                       (Inl e, p') \<Rightarrow> 0
                     | (Inr _, p') \<Rightarrow> skip_frames buf p' 3))
      else 1)"
  by pat_completeness auto
termination
  by (relation "measure (\<lambda>(buf, pos, _). length buf - pos)")
    (auto dest!: reader_progress(1,4))

declare skip_frames.simps [simp del]

section \<open>TransportInstruction\<close>

definition transport_default :: transport_instruction where
  "transport_default =
     \<lparr>protocol_version = 0, old_num = 0, new_num = 0, ack_num = 0, throwaway_num = 0,
      diff = [], chaff = []\<rparr>"

definition transport_encode :: "transport_instruction \<Rightarrow> bytes" where
  "transport_encode self =
     write_varint_field 1 (ucast (protocol_version self)) @
     write_varint_field 2 (old_num self) @
     write_varint_field 3 (new_num self) @
     write_varint_field 4 (ack_num self) @
     write_varint_field 5 (throwaway_num self) @
     write_bytes_field 6 (diff self) @
     write_bytes_field 7 (chaff self)"

text \<open>One arm of the \<open>match (field, wire_type)\<close> in \<open>TransportInstruction::decode\<close>.\<close>

definition transport_field ::
  "bytes \<Rightarrow> nat \<Rightarrow> u32 \<Rightarrow> u8 \<Rightarrow> transport_instruction \<Rightarrow> (wire_error + transport_instruction) \<times> nat" where
  "transport_field buf pos field wire_type out =
     (if (field, wire_type) = (1, 0) then
        (case read_varint buf pos of
           (Inl e, p) \<Rightarrow> (Inl e, p) | (Inr v, p) \<Rightarrow> (Inr (out\<lparr>protocol_version := ucast v\<rparr>), p))
      else if (field, wire_type) = (2, 0) then
        (case read_varint buf pos of
           (Inl e, p) \<Rightarrow> (Inl e, p) | (Inr v, p) \<Rightarrow> (Inr (out\<lparr>old_num := v\<rparr>), p))
      else if (field, wire_type) = (3, 0) then
        (case read_varint buf pos of
           (Inl e, p) \<Rightarrow> (Inl e, p) | (Inr v, p) \<Rightarrow> (Inr (out\<lparr>new_num := v\<rparr>), p))
      else if (field, wire_type) = (4, 0) then
        (case read_varint buf pos of
           (Inl e, p) \<Rightarrow> (Inl e, p) | (Inr v, p) \<Rightarrow> (Inr (out\<lparr>ack_num := v\<rparr>), p))
      else if (field, wire_type) = (5, 0) then
        (case read_varint buf pos of
           (Inl e, p) \<Rightarrow> (Inl e, p) | (Inr v, p) \<Rightarrow> (Inr (out\<lparr>throwaway_num := v\<rparr>), p))
      else if (field, wire_type) = (6, 2) then
        (case read_length_delimited buf pos of
           (Inl e, p) \<Rightarrow> (Inl e, p) | (Inr bs, p) \<Rightarrow> (Inr (out\<lparr>diff := bs\<rparr>), p))
      else if (field, wire_type) = (7, 2) then
        (case read_length_delimited buf pos of
           (Inl e, p) \<Rightarrow> (Inl e, p) | (Inr bs, p) \<Rightarrow> (Inr (out\<lparr>chaff := bs\<rparr>), p))
      else
        (case skip_field buf pos wire_type of
           (Inl e, p) \<Rightarrow> (Inl e, p) | (Inr _, p) \<Rightarrow> (Inr out, p)))"

lemma transport_field_pos: "(r, p) = transport_field buf pos f w out \<Longrightarrow> pos \<le> p"
  by (auto simp: transport_field_def dest: read_varint_pos(1) read_length_delimited_pos skip_field_pos
      split: if_splits prod.splits sum.splits)

function transport_decode_loop ::
  "bytes \<Rightarrow> nat \<Rightarrow> transport_instruction \<Rightarrow> wire_error + transport_instruction" where
  "transport_decode_loop buf pos out =
     (if pos < length buf then
        (case read_tag buf pos of
           (Inl e, _) \<Rightarrow> Inl e
         | (Inr (field, wire_type), p) \<Rightarrow>
             (case transport_field buf p field wire_type out of
                (Inl e, _) \<Rightarrow> Inl e
              | (Inr out', p') \<Rightarrow> transport_decode_loop buf p' out'))
      else Inr out)"
  by pat_completeness auto
termination
  by (relation "measure (\<lambda>(buf, pos, _). length buf - pos)")
    (auto dest!: reader_progress(1) transport_field_pos)

declare transport_decode_loop.simps [simp del]

definition transport_decode :: "bytes \<Rightarrow> wire_error + transport_instruction" where
  "transport_decode buf = transport_decode_loop buf 0 transport_default"

text \<open>The arms of the match with a field of their own; every other field and wire type is skipped.\<close>

definition known_field :: "u32 \<Rightarrow> u8 \<Rightarrow> bool" where
  "known_field field wire_type \<longleftrightarrow> (field, wire_type) \<in> {(1, 0), (2, 0), (3, 0), (4, 0), (5, 0), (6, 2), (7, 2)}"

text \<open>How many frames of \<open>skip_field\<close> decoding an instruction from a position on needs at once.\<close>

function transport_frames :: "bytes \<Rightarrow> nat \<Rightarrow> nat" where
  "transport_frames buf pos =
     (if pos < length buf then
        (case read_tag buf pos of
           (Inl e, _) \<Rightarrow> 0
         | (Inr (field, wire_type), p) \<Rightarrow>
             max (if known_field field wire_type then 0 else skip_frames buf p wire_type)
               (case transport_field buf p field wire_type transport_default of
                  (Inl e, _) \<Rightarrow> 0
                | (Inr _, p') \<Rightarrow> transport_frames buf p'))
      else 0)"
  by pat_completeness auto
termination
  by (relation "measure (\<lambda>(buf, pos). length buf - pos)")
    (auto dest!: reader_progress(1) transport_field_pos)

declare transport_frames.simps [simp del]

section \<open>UserMessage\<close>

fun encode_user_instruction :: "user_instruction \<Rightarrow> bytes" where
  "encode_user_instruction (Keystroke keys) = write_message_field 2 (write_bytes_field 4 keys)"
| "encode_user_instruction (UResize width height) =
     write_message_field 3 (write_varint_field 5 (scast width) @ write_varint_field 6 (scast height))"

definition user_encode :: "user_message \<Rightarrow> bytes" where
  "user_encode self =
     concat (map (\<lambda>i. write_message_field 1 (encode_user_instruction i)) (user_instructions self))"

function keys_loop :: "bytes \<Rightarrow> nat \<Rightarrow> user_instruction \<Rightarrow> user_instruction" where
  "keys_loop keys_block kpos result =
     (if kpos < length keys_block then
        (case read_tag keys_block kpos of
           (Inl _, _) \<Rightarrow> result
         | (Inr (kfield, kwt), p) \<Rightarrow>
             if (kfield, kwt) = (4, 2) then
               (case read_length_delimited keys_block p of
                  (Inl _, p') \<Rightarrow> keys_loop keys_block p' result
                | (Inr keys, p') \<Rightarrow> keys_loop keys_block p' (Keystroke keys))
             else
               (case skip_field keys_block p kwt of
                  (Inl _, _) \<Rightarrow> result
                | (Inr _, p') \<Rightarrow> keys_loop keys_block p' result))
      else result)"
  by pat_completeness auto
termination
  by (relation "measure (\<lambda>(buf, pos, _). length buf - pos)") (auto dest!: reader_progress)

declare keys_loop.simps [simp del]

text \<open>The resize loop is written twice in the source, once per schema, with the same body.\<close>

function resize_loop :: "bytes \<Rightarrow> nat \<Rightarrow> i32 \<Rightarrow> i32 \<Rightarrow> i32 \<times> i32" where
  "resize_loop resize_block rpos width height =
     (if rpos < length resize_block then
        (case read_tag resize_block rpos of
           (Inl _, _) \<Rightarrow> (width, height)
         | (Inr (rfield, rwt), p) \<Rightarrow>
             if (rfield, rwt) = (5, 0) then
               (case read_varint resize_block p of
                  (Inl _, p') \<Rightarrow> resize_loop resize_block p' width height
                | (Inr v, p') \<Rightarrow> resize_loop resize_block p' (ucast v) height)
             else if (rfield, rwt) = (6, 0) then
               (case read_varint resize_block p of
                  (Inl _, p') \<Rightarrow> resize_loop resize_block p' width height
                | (Inr v, p') \<Rightarrow> resize_loop resize_block p' width (ucast v))
             else
               (case skip_field resize_block p rwt of
                  (Inl _, _) \<Rightarrow> (width, height)
                | (Inr _, p') \<Rightarrow> resize_loop resize_block p' width height))
      else (width, height))"
  by pat_completeness auto
termination
  by (relation "measure (\<lambda>(buf, pos, _). length buf - pos)") (auto dest!: reader_progress)

declare resize_loop.simps [simp del]

function user_instruction_loop :: "bytes \<Rightarrow> nat \<Rightarrow> user_instruction \<Rightarrow> user_instruction" where
  "user_instruction_loop buf pos result =
     (if pos < length buf then
        (case read_tag buf pos of
           (Inl _, _) \<Rightarrow> result
         | (Inr (field, wire_type), p) \<Rightarrow>
             if (field, wire_type) = (2, 2) then
               (case read_length_delimited buf p of
                  (Inl _, p') \<Rightarrow> user_instruction_loop buf p' result
                | (Inr keys_block, p') \<Rightarrow>
                    user_instruction_loop buf p' (keys_loop keys_block 0 result))
             else if (field, wire_type) = (3, 2) then
               (case read_length_delimited buf p of
                  (Inl _, p') \<Rightarrow> user_instruction_loop buf p' result
                | (Inr resize_block, p') \<Rightarrow>
                    user_instruction_loop buf p'
                      (case resize_loop resize_block 0 0 0 of (width, height) \<Rightarrow> UResize width height))
             else
               (case skip_field buf p wire_type of
                  (Inl _, _) \<Rightarrow> result
                | (Inr _, p') \<Rightarrow> user_instruction_loop buf p' result))
      else result)"
  by pat_completeness auto
termination
  by (relation "measure (\<lambda>(buf, pos, _). length buf - pos)") (auto dest!: reader_progress)

declare user_instruction_loop.simps [simp del]

definition decode_user_instruction :: "bytes \<Rightarrow> user_instruction" where
  "decode_user_instruction buf = user_instruction_loop buf 0 (Keystroke [])"

function user_decode_loop :: "bytes \<Rightarrow> nat \<Rightarrow> user_instruction list \<Rightarrow> wire_error + user_instruction list" where
  "user_decode_loop buf pos instructions =
     (if pos < length buf then
        (case read_tag buf pos of
           (Inl e, _) \<Rightarrow> Inl e
         | (Inr (field, wire_type), p) \<Rightarrow>
             if field = 1 \<and> wire_type = 2 then
               (case read_length_delimited buf p of
                  (Inl e, _) \<Rightarrow> Inl e
                | (Inr inner, p') \<Rightarrow>
                    user_decode_loop buf p' (instructions @ [decode_user_instruction inner]))
             else
               (case skip_field buf p wire_type of
                  (Inl e, _) \<Rightarrow> Inl e
                | (Inr _, p') \<Rightarrow> user_decode_loop buf p' instructions))
      else Inr instructions)"
  by pat_completeness auto
termination
  by (relation "measure (\<lambda>(buf, pos, _). length buf - pos)") (auto dest!: reader_progress)

declare user_decode_loop.simps [simp del]

definition user_decode :: "bytes \<Rightarrow> wire_error + user_message" where
  "user_decode buf =
     (case user_decode_loop buf 0 [] of
        Inl e \<Rightarrow> Inl e
      | Inr instructions \<Rightarrow> Inr \<lparr>user_instructions = instructions\<rparr>)"

section \<open>HostMessage\<close>

fun encode_host_instruction :: "host_instruction \<Rightarrow> bytes" where
  "encode_host_instruction (HostBytes hoststring) = write_message_field 2 (write_bytes_field 4 hoststring)"
| "encode_host_instruction (HResize width height) =
     write_message_field 3 (write_varint_field 5 (scast width) @ write_varint_field 6 (scast height))"
| "encode_host_instruction (EchoAck num) = write_message_field 7 (write_varint_field 8 num)"

definition host_encode :: "host_message \<Rightarrow> bytes" where
  "host_encode self =
     concat (map (\<lambda>i. write_message_field 1 (encode_host_instruction i)) (host_instructions self))"

function hostbytes_loop :: "bytes \<Rightarrow> nat \<Rightarrow> host_instruction \<Rightarrow> host_instruction" where
  "hostbytes_loop block bpos result =
     (if bpos < length block then
        (case read_tag block bpos of
           (Inl _, _) \<Rightarrow> result
         | (Inr (bfield, bwt), p) \<Rightarrow>
             if (bfield, bwt) = (4, 2) then
               (case read_length_delimited block p of
                  (Inl _, p') \<Rightarrow> hostbytes_loop block p' result
                | (Inr bs, p') \<Rightarrow> hostbytes_loop block p' (HostBytes bs))
             else
               (case skip_field block p bwt of
                  (Inl _, _) \<Rightarrow> result
                | (Inr _, p') \<Rightarrow> hostbytes_loop block p' result))
      else result)"
  by pat_completeness auto
termination
  by (relation "measure (\<lambda>(buf, pos, _). length buf - pos)") (auto dest!: reader_progress)

declare hostbytes_loop.simps [simp del]

function echoack_loop :: "bytes \<Rightarrow> nat \<Rightarrow> host_instruction \<Rightarrow> host_instruction" where
  "echoack_loop echoack_block epos result =
     (if epos < length echoack_block then
        (case read_tag echoack_block epos of
           (Inl _, _) \<Rightarrow> result
         | (Inr (efield, ewt), p) \<Rightarrow>
             if (efield, ewt) = (8, 0) then
               (case read_varint echoack_block p of
                  (Inl _, p') \<Rightarrow> echoack_loop echoack_block p' result
                | (Inr v, p') \<Rightarrow> echoack_loop echoack_block p' (EchoAck v))
             else
               (case skip_field echoack_block p ewt of
                  (Inl _, _) \<Rightarrow> result
                | (Inr _, p') \<Rightarrow> echoack_loop echoack_block p' result))
      else result)"
  by pat_completeness auto
termination
  by (relation "measure (\<lambda>(buf, pos, _). length buf - pos)") (auto dest!: reader_progress)

declare echoack_loop.simps [simp del]

function host_instruction_loop :: "bytes \<Rightarrow> nat \<Rightarrow> host_instruction \<Rightarrow> host_instruction" where
  "host_instruction_loop buf pos result =
     (if pos < length buf then
        (case read_tag buf pos of
           (Inl _, _) \<Rightarrow> result
         | (Inr (field, wire_type), p) \<Rightarrow>
             if (field, wire_type) = (2, 2) then
               (case read_length_delimited buf p of
                  (Inl _, p') \<Rightarrow> host_instruction_loop buf p' result
                | (Inr block, p') \<Rightarrow> host_instruction_loop buf p' (hostbytes_loop block 0 result))
             else if (field, wire_type) = (3, 2) then
               (case read_length_delimited buf p of
                  (Inl _, p') \<Rightarrow> host_instruction_loop buf p' result
                | (Inr resize_block, p') \<Rightarrow>
                    host_instruction_loop buf p'
                      (case resize_loop resize_block 0 0 0 of (width, height) \<Rightarrow> HResize width height))
             else if (field, wire_type) = (7, 2) then
               (case read_length_delimited buf p of
                  (Inl _, p') \<Rightarrow> host_instruction_loop buf p' result
                | (Inr echoack_block, p') \<Rightarrow>
                    host_instruction_loop buf p' (echoack_loop echoack_block 0 result))
             else
               (case skip_field buf p wire_type of
                  (Inl _, _) \<Rightarrow> result
                | (Inr _, p') \<Rightarrow> host_instruction_loop buf p' result))
      else result)"
  by pat_completeness auto
termination
  by (relation "measure (\<lambda>(buf, pos, _). length buf - pos)") (auto dest!: reader_progress)

declare host_instruction_loop.simps [simp del]

definition decode_host_instruction :: "bytes \<Rightarrow> host_instruction" where
  "decode_host_instruction buf = host_instruction_loop buf 0 (HostBytes [])"

function host_decode_loop :: "bytes \<Rightarrow> nat \<Rightarrow> host_instruction list \<Rightarrow> wire_error + host_instruction list" where
  "host_decode_loop buf pos instructions =
     (if pos < length buf then
        (case read_tag buf pos of
           (Inl e, _) \<Rightarrow> Inl e
         | (Inr (field, wire_type), p) \<Rightarrow>
             if field = 1 \<and> wire_type = 2 then
               (case read_length_delimited buf p of
                  (Inl e, _) \<Rightarrow> Inl e
                | (Inr inner, p') \<Rightarrow>
                    host_decode_loop buf p' (instructions @ [decode_host_instruction inner]))
             else
               (case skip_field buf p wire_type of
                  (Inl e, _) \<Rightarrow> Inl e
                | (Inr _, p') \<Rightarrow> host_decode_loop buf p' instructions))
      else Inr instructions)"
  by pat_completeness auto
termination
  by (relation "measure (\<lambda>(buf, pos, _). length buf - pos)") (auto dest!: reader_progress)

declare host_decode_loop.simps [simp del]

definition host_decode :: "bytes \<Rightarrow> wire_error + host_message" where
  "host_decode buf =
     (case host_decode_loop buf 0 [] of
        Inl e \<Rightarrow> Inl e
      | Inr instructions \<Rightarrow> Inr \<lparr>host_instructions = instructions\<rparr>)"

section \<open>Readers invert writers\<close>

text \<open>
  The lemmas below are stated at a position: if the buffer from \<open>pos\<close> on starts with what a writer
  produces, the matching reader returns the value and the position just after it.
\<close>

lemma drop_advance: "drop pos buf = xs @ rest \<Longrightarrow> drop (pos + length xs) buf = rest"
  by (metis add.commute append_eq_conv_conj drop_drop)

lemma drop_inside: "drop pos buf = xs @ rest \<Longrightarrow> xs \<noteq> [] \<Longrightarrow> pos < length buf"
  by (metis append_is_Nil_conv drop_eq_Nil not_less)

lemma drop_length: "drop pos buf = xs @ rest \<Longrightarrow> xs \<noteq> [] \<Longrightarrow> pos + length xs \<le> length buf"
  by (metis (no_types, lifting) add_diff_cancel_left' diff_le_mono drop_advance drop_inside
      le_add1 le_add_diff_inverse length_append length_drop less_imp_le nat_add_left_cancel_le)

lemma nth_drop_Cons: "drop pos buf = x # rest \<Longrightarrow> buf ! pos = x \<and> drop (Suc pos) buf = rest \<and> pos < length buf"
  by (metis Cons_nth_drop_Suc drop_all linorder_not_le list.distinct(1) list.inject)

lemma write_varint_nonempty [simp]: "write_varint v \<noteq> []"
  by (subst write_varint.simps) (simp add: Let_def)

lemma varint_byte_bits:
  fixes w :: u64
  shows "(ucast (w AND 0x7f) :: u8) AND 0x80 = 0"
    and "((ucast (w AND 0x7f) :: u8) OR 0x80) AND 0x80 \<noteq> 0"
    and "ucast ((ucast (w AND 0x7f) :: u8) AND 0x7f) = take_bit 7 w"
    and "ucast (((ucast (w AND 0x7f) :: u8) OR 0x80) AND 0x7f) = take_bit 7 w"
proof -
  have m7: "(0x7f :: 'a::len word) = mask 7" by (simp add: mask_eq_exp_minus_1)
  have m8: "(0x80 :: 'a::len word) = push_bit 7 1" by simp
  have b7: "bit (0x80 :: 'a::len word) n \<longleftrightarrow> n = 7 \<and> 7 < LENGTH('a)" for n
    unfolding m8 bit_push_bit_iff bit_1_iff by auto
  show "(ucast (w AND 0x7f) :: u8) AND 0x80 = 0"
  proof (rule bit_word_eqI)
    fix n
    show "bit ((ucast (w AND 0x7f) :: u8) AND 0x80) n = bit (0 :: u8) n"
      unfolding bit_and_iff bit_ucast_iff m7 b7 bit_mask_iff by simp
  qed
  have "bit (((ucast (w AND 0x7f) :: u8) OR 0x80) AND 0x80) 7"
    by (simp add: bit_and_iff bit_or_iff b7)
  then show "((ucast (w AND 0x7f) :: u8) OR 0x80) AND 0x80 \<noteq> 0"
    by (metis bit_0_eq bot_apply bot_bool_def)
  show "ucast ((ucast (w AND 0x7f) :: u8) AND 0x7f) = take_bit 7 w"
    by (rule bit_word_eqI) (auto simp: m7 bit_simps)
  show "ucast (((ucast (w AND 0x7f) :: u8) OR 0x80) AND 0x7f) = take_bit 7 w"
  proof (rule bit_word_eqI)
    fix n
    show "bit (ucast (((ucast (w AND 0x7f) :: u8) OR 0x80) AND 0x7f) :: u64) n = bit (take_bit 7 w) n"
      unfolding bit_and_iff bit_or_iff bit_ucast_iff m7 b7 bit_mask_iff bit_take_bit_iff
      by (auto dest: bit_imp_le_length)
  qed
qed

lemma take_bit_extend:
  "take_bit n v OR push_bit n (take_bit m (drop_bit n v)) = (take_bit (n + m) v :: 'a::len word)"
  by (rule bit_word_eqI) (auto simp: bit_simps)

lemma drop_bit_zero_take: "drop_bit n v = 0 \<Longrightarrow> take_bit n v = (v :: 'a::len word)"
  by (metis bits_ident add.right_neutral add_0 push_bit_of_0)

lemma read_varint_loop_write:
  assumes "drop pos buf = write_varint (drop_bit (7 * i) v) @ rest"
    and "i = 0 \<or> drop_bit (7 * i) v \<noteq> 0" and "k + i = 10"
  shows "read_varint_loop k i (take_bit (7 * i) v) buf pos
       = (Inr v, pos + length (write_varint (drop_bit (7 * i) v)))"
  using assms
proof (induction k arbitrary: i pos)
  case 0
  then have "drop_bit (7 * i) v = 0"
    by (intro bit_word_eqI) (auto simp: bit_simps dest: bit_imp_le_length)
  with 0 show ?case by simp
next
  case (Suc k)
  let ?w = "drop_bit (7 * i) v"
  have next_w: "drop_bit 7 ?w = drop_bit (7 * Suc i) v"
    by (simp add: algebra_simps)
  have next_v: "take_bit (7 * i) v OR push_bit (7 * i) (take_bit 7 ?w) = take_bit (7 * Suc i) v"
    by (simp add: take_bit_extend algebra_simps)
  show ?case
  proof (cases "drop_bit (7 * Suc i) v = 0")
    case True
    then have one: "write_varint ?w = [ucast (?w AND 0x7f)]"
      by (subst write_varint.simps) (simp only: Let_def next_w if_True refl)
    with Suc.prems(1) nth_drop_Cons [of pos buf "ucast (?w AND 0x7f)" rest]
    show ?thesis
      by (simp add: one varint_byte_bits next_v [unfolded drop_bit_zero_take [OF True]])
  next
    case False
    then have more: "write_varint ?w = (ucast (?w AND 0x7f) OR 0x80) # write_varint (drop_bit (7 * Suc i) v)"
      by (subst write_varint.simps) (simp only: Let_def next_w if_False)
    note at = nth_drop_Cons [of pos buf "ucast (?w AND 0x7f) OR 0x80"
        "write_varint (drop_bit (7 * Suc i) v) @ rest"]
    have "drop (Suc pos) buf = write_varint (drop_bit (7 * Suc i) v) @ rest"
      using at Suc.prems(1) more by simp
    from Suc.IH [OF this] False Suc.prems(3)
    have "read_varint_loop k (Suc i) (take_bit (7 * Suc i) v) buf (Suc pos)
        = (Inr v, Suc pos + length (write_varint (drop_bit (7 * Suc i) v)))"
      by simp
    then show ?thesis
      using at Suc.prems(1) by (simp add: more varint_byte_bits next_v)
  qed
qed

lemma read_varint_write [wire_simps]:
  "drop pos buf = write_varint v @ rest \<Longrightarrow>
     read_varint buf pos = (Inr v, pos + length (write_varint v))"
  using read_varint_loop_write [of pos buf 0 v rest 10] by (simp add: read_varint_def)

lemma tag_bits:
  fixes f :: u32 and w :: u8
  assumes "w < 8"
  shows "ucast (drop_bit 3 (push_bit 3 (ucast f) OR ucast w :: u64)) = f"
    and "ucast ((push_bit 3 (ucast f) OR ucast w :: u64) AND 0x7) = w"
proof -
  have m3: "(0x7 :: u64) = mask 3" by (simp add: mask_eq_exp_minus_1)
  have "take_bit 3 w = w"
    using assms by (simp add: take_bit_eq_mod mod_word_less)
  then have low: "bit w n \<Longrightarrow> n < 3" for n
    by (metis bit_take_bit_iff)
  show "ucast (drop_bit 3 (push_bit 3 (ucast f) OR ucast w :: u64)) = f"
    by (rule bit_word_eqI) (auto simp: bit_simps dest: low)
  show "ucast ((push_bit 3 (ucast f) OR ucast w :: u64) AND 0x7) = w"
    by (rule bit_word_eqI) (auto simp: m3 bit_simps dest: low)
qed

lemma read_tag_write [wire_simps]:
  assumes "drop pos buf = write_tag f w @ rest" and "w < 8"
  shows "read_tag buf pos = (Inr (f, w), pos + length (write_tag f w))"
  using assms read_varint_write [of pos buf _ rest] tag_bits [of w f]
  by (simp add: read_tag_def write_tag_def)

lemma read_length_delimited_write [wire_simps]:
  assumes "drop pos buf = write_varint (of_nat (length bs)) @ bs @ rest" and "length buf < 2 ^ 64"
  shows "read_length_delimited buf pos
       = (Inr bs, pos + length (write_varint (of_nat (length bs))) + length bs)"
proof -
  let ?v = "of_nat (length bs) :: u64" and ?p = "pos + length (write_varint (of_nat (length bs)))"
  have rd: "read_varint buf pos = (Inr ?v, ?p)"
    by (rule read_varint_write [OF assms(1)])
  have bs_at: "drop ?p buf = bs @ rest"
    using drop_advance [OF assms(1)] .
  have "?p \<le> length buf"
    using drop_length [OF assms(1)] by simp
  with bs_at have fits: "?p + length bs \<le> length buf"
    by (metis add.commute le_add1 le_diff_conv2 length_append length_drop)
  with assms(2) have "unat ?v = length bs"
    by (simp add: unat_of_nat)
  with rd bs_at fits assms(2) show ?thesis
    by (simp add: read_length_delimited_def Let_def)
qed

lemma write_tag_nonempty [simp]: "write_tag f w \<noteq> []"
  by (simp add: write_tag_def)

lemma varint_field_at:
  assumes "drop pos buf = write_varint_field f v @ rest"
  obtains p where "pos < length buf" and "read_tag buf pos = (Inr (f, 0), p)"
    and "read_varint buf p = (Inr v, pos + length (write_varint_field f v))"
proof
  let ?p = "pos + length (write_tag f 0)"
  have at: "drop pos buf = write_tag f 0 @ write_varint v @ rest"
    using assms by (simp add: write_varint_field_def)
  then show "pos < length buf" by (rule drop_inside) simp
  show "read_tag buf pos = (Inr (f, 0), ?p)"
    by (rule read_tag_write [OF at]) simp
  show "read_varint buf ?p = (Inr v, pos + length (write_varint_field f v))"
    using read_varint_write [OF drop_advance [OF at]] by (simp add: write_varint_field_def)
qed

lemma bytes_field_at:
  assumes "drop pos buf = write_bytes_field f bs @ rest" and "length buf < 2 ^ 64"
  obtains p where "pos < length buf" and "read_tag buf pos = (Inr (f, 2), p)"
    and "read_length_delimited buf p = (Inr bs, pos + length (write_bytes_field f bs))"
proof
  let ?p = "pos + length (write_tag f 2)"
  have at: "drop pos buf = write_tag f 2 @ write_varint (of_nat (length bs)) @ bs @ rest"
    using assms by (simp add: write_bytes_field_def)
  then show "pos < length buf" by (rule drop_inside) simp
  show "read_tag buf pos = (Inr (f, 2), ?p)"
    by (rule read_tag_write [OF at]) simp
  show "read_length_delimited buf ?p = (Inr bs, pos + length (write_bytes_field f bs))"
    using read_length_delimited_write [OF drop_advance [OF at] assms(2)]
    by (simp add: write_bytes_field_def)
qed

section \<open>Decoders invert encoders\<close>

lemma u32_through_u64: "ucast (ucast (w :: u32) :: u64) = w"
  by (rule bit_word_eqI) (auto simp: bit_simps)

lemma i32_through_u64: "ucast (scast (w :: i32) :: u64) = w"
  by (rule bit_word_eqI) (auto simp: bit_simps)

lemma transport_loop_varint:
  "drop pos buf = write_varint_field 1 v @ rest \<Longrightarrow>
     transport_decode_loop buf pos out
       = transport_decode_loop buf (pos + length (write_varint_field 1 v)) (out\<lparr>protocol_version := ucast v\<rparr>)"
  "drop pos buf = write_varint_field 2 v @ rest \<Longrightarrow>
     transport_decode_loop buf pos out
       = transport_decode_loop buf (pos + length (write_varint_field 2 v)) (out\<lparr>old_num := v\<rparr>)"
  "drop pos buf = write_varint_field 3 v @ rest \<Longrightarrow>
     transport_decode_loop buf pos out
       = transport_decode_loop buf (pos + length (write_varint_field 3 v)) (out\<lparr>new_num := v\<rparr>)"
  "drop pos buf = write_varint_field 4 v @ rest \<Longrightarrow>
     transport_decode_loop buf pos out
       = transport_decode_loop buf (pos + length (write_varint_field 4 v)) (out\<lparr>ack_num := v\<rparr>)"
  "drop pos buf = write_varint_field 5 v @ rest \<Longrightarrow>
     transport_decode_loop buf pos out
       = transport_decode_loop buf (pos + length (write_varint_field 5 v)) (out\<lparr>throwaway_num := v\<rparr>)"
  by (erule varint_field_at; subst transport_decode_loop.simps; simp add: transport_field_def)+

lemma transport_loop_bytes:
  "drop pos buf = write_bytes_field 6 bs @ rest \<Longrightarrow> length buf < 2 ^ 64 \<Longrightarrow>
     transport_decode_loop buf pos out
       = transport_decode_loop buf (pos + length (write_bytes_field 6 bs)) (out\<lparr>diff := bs\<rparr>)"
  "drop pos buf = write_bytes_field 7 bs @ rest \<Longrightarrow> length buf < 2 ^ 64 \<Longrightarrow>
     transport_decode_loop buf pos out
       = transport_decode_loop buf (pos + length (write_bytes_field 7 bs)) (out\<lparr>chaff := bs\<rparr>)"
  by (erule (1) bytes_field_at; subst transport_decode_loop.simps; simp add: transport_field_def)+

lemma transport_loop_end: "drop pos buf = [] \<Longrightarrow> transport_decode_loop buf pos out = Inr out"
  by (subst transport_decode_loop.simps) simp

lemma transport_all_fields:
  "out\<lparr>protocol_version := protocol_version inst, old_num := old_num inst, new_num := new_num inst,
      ack_num := ack_num inst, throwaway_num := throwaway_num inst, diff := diff inst,
      chaff := chaff inst\<rparr> = (inst :: transport_instruction)"
  by (cases out; cases inst) simp

lemma transport_loop_encode:
  assumes "drop pos buf = transport_encode inst @ rest" and len: "length buf < 2 ^ 64"
  shows "transport_decode_loop buf pos out
       = transport_decode_loop buf (pos + length (transport_encode inst)) inst"
proof -
  let ?v = "write_varint_field" and ?b = "write_bytes_field"
  have d0: "drop pos buf = ?v 1 (ucast (protocol_version inst)) @ ?v 2 (old_num inst) @ ?v 3 (new_num inst)
      @ ?v 4 (ack_num inst) @ ?v 5 (throwaway_num inst) @ ?b 6 (diff inst) @ ?b 7 (chaff inst) @ rest"
    using assms(1) by (simp add: transport_encode_def)
  note d1 = drop_advance [OF d0]
  note d2 = drop_advance [OF d1]
  note d3 = drop_advance [OF d2]
  note d4 = drop_advance [OF d3]
  note d5 = drop_advance [OF d4]
  note d6 = drop_advance [OF d5]
  show ?thesis
    by (simp only: transport_loop_varint(1) [OF d0] transport_loop_varint(2) [OF d1]
        transport_loop_varint(3) [OF d2] transport_loop_varint(4) [OF d3]
        transport_loop_varint(5) [OF d4] transport_loop_bytes(1) [OF d5 len]
        transport_loop_bytes(2) [OF d6 len])
      (simp add: transport_encode_def u32_through_u64 add.assoc transport_all_fields)
qed

lemma transport_decode_encode_aux:
  assumes "length (transport_encode inst) < 2 ^ 64"
  shows "transport_decode (transport_encode inst) = Inr inst"
  using transport_loop_encode [of 0 "transport_encode inst" inst "[]"] assms
  by (simp add: transport_decode_def transport_loop_end)

lemma keys_loop_write:
  assumes "length (write_bytes_field 4 keys) < 2 ^ 64"
  shows "keys_loop (write_bytes_field 4 keys) 0 result = Keystroke keys"
proof -
  have d: "drop 0 (write_bytes_field 4 keys) = write_bytes_field 4 keys @ []" by simp
  show ?thesis
    by (rule bytes_field_at [OF d assms], subst keys_loop.simps, subst (2) keys_loop.simps) simp
qed

lemma hostbytes_loop_write:
  assumes "length (write_bytes_field 4 bs) < 2 ^ 64"
  shows "hostbytes_loop (write_bytes_field 4 bs) 0 result = HostBytes bs"
proof -
  have d: "drop 0 (write_bytes_field 4 bs) = write_bytes_field 4 bs @ []" by simp
  show ?thesis
    by (rule bytes_field_at [OF d assms], subst hostbytes_loop.simps, subst (2) hostbytes_loop.simps) simp
qed

lemma echoack_loop_write: "echoack_loop (write_varint_field 8 num) 0 result = EchoAck num"
proof -
  have d: "drop 0 (write_varint_field 8 num) = write_varint_field 8 num @ []" by simp
  show ?thesis
    by (rule varint_field_at [OF d], subst echoack_loop.simps, subst (2) echoack_loop.simps) simp
qed

lemma resize_loop_field:
  "drop pos buf = write_varint_field 5 v @ rest \<Longrightarrow>
     resize_loop buf pos w h = resize_loop buf (pos + length (write_varint_field 5 v)) (ucast v) h"
  "drop pos buf = write_varint_field 6 v @ rest \<Longrightarrow>
     resize_loop buf pos w h = resize_loop buf (pos + length (write_varint_field 6 v)) w (ucast v)"
  by (erule varint_field_at; subst resize_loop.simps; simp)+

lemma resize_loop_write:
  "resize_loop (write_varint_field 5 (scast width) @ write_varint_field 6 (scast height)) 0 0 0
     = (width, height)"
proof -
  let ?a = "write_varint_field 5 (scast width)" and ?b = "write_varint_field 6 (scast height)"
  have d0: "drop 0 (?a @ ?b) = ?a @ ?b" by simp
  have d1: "drop (0 + length ?a) (?a @ ?b) = ?b @ []" by simp
  have fin: "resize_loop (?a @ ?b) (0 + length ?a + length ?b) w h = (w, h)" for w h
    by (subst resize_loop.simps) simp
  show ?thesis
    by (simp only: resize_loop_field(1) [OF d0] resize_loop_field(2) [OF d1] fin i32_through_u64)
qed

lemma write_field_length:
  "length bs \<le> length (write_bytes_field f bs)" "length bs \<le> length (write_message_field f bs)"
  by (simp_all add: write_bytes_field_def write_message_field_def)

lemma user_loop_end: "user_instruction_loop buf (length buf) r = r"
  by (subst user_instruction_loop.simps) simp

lemma host_loop_end: "host_instruction_loop buf (length buf) r = r"
  by (subst host_instruction_loop.simps) simp

lemma decode_encode_user_instruction:
  assumes "length (encode_user_instruction i) < 2 ^ 64"
  shows "decode_user_instruction (encode_user_instruction i) = i"
proof (cases i)
  case (Keystroke keys)
  let ?in = "write_bytes_field 4 keys"
  have d: "drop 0 (write_bytes_field 2 ?in) = write_bytes_field 2 ?in @ []" by simp
  have len: "length (write_bytes_field 2 ?in) < 2 ^ 64" "length ?in < 2 ^ 64"
    using assms Keystroke write_field_length(1) [of ?in 2] by (auto simp: write_message_field_def)
  show ?thesis
    by (rule bytes_field_at [OF d len(1)])
      (simp add: Keystroke decode_user_instruction_def write_message_field_def user_loop_end
        user_instruction_loop.simps [of _ 0] keys_loop_write [OF len(2)])
next
  case (UResize w h)
  let ?in = "write_varint_field 5 (scast w) @ write_varint_field 6 (scast h)"
  have d: "drop 0 (write_bytes_field 3 ?in) = write_bytes_field 3 ?in @ []" by simp
  have len: "length (write_bytes_field 3 ?in) < 2 ^ 64"
    using assms UResize by (auto simp: write_message_field_def)
  show ?thesis
    by (rule bytes_field_at [OF d len])
      (simp add: UResize decode_user_instruction_def write_message_field_def user_loop_end
        user_instruction_loop.simps [of _ 0] resize_loop_write)
qed

lemma decode_encode_host_instruction:
  assumes "length (encode_host_instruction i) < 2 ^ 64"
  shows "decode_host_instruction (encode_host_instruction i) = i"
proof (cases i)
  case (HostBytes bs)
  let ?in = "write_bytes_field 4 bs"
  have d: "drop 0 (write_bytes_field 2 ?in) = write_bytes_field 2 ?in @ []" by simp
  have len: "length (write_bytes_field 2 ?in) < 2 ^ 64" "length ?in < 2 ^ 64"
    using assms HostBytes write_field_length(1) [of ?in 2] by (auto simp: write_message_field_def)
  show ?thesis
    by (rule bytes_field_at [OF d len(1)])
      (simp add: HostBytes decode_host_instruction_def write_message_field_def host_loop_end
        host_instruction_loop.simps [of _ 0] hostbytes_loop_write [OF len(2)])
next
  case (HResize w h)
  let ?in = "write_varint_field 5 (scast w) @ write_varint_field 6 (scast h)"
  have d: "drop 0 (write_bytes_field 3 ?in) = write_bytes_field 3 ?in @ []" by simp
  have len: "length (write_bytes_field 3 ?in) < 2 ^ 64"
    using assms HResize by (auto simp: write_message_field_def)
  show ?thesis
    by (rule bytes_field_at [OF d len])
      (simp add: HResize decode_host_instruction_def write_message_field_def host_loop_end
        host_instruction_loop.simps [of _ 0] resize_loop_write)
next
  case (EchoAck num)
  let ?in = "write_varint_field 8 num"
  have d: "drop 0 (write_bytes_field 7 ?in) = write_bytes_field 7 ?in @ []" by simp
  have len: "length (write_bytes_field 7 ?in) < 2 ^ 64"
    using assms EchoAck by (auto simp: write_message_field_def)
  show ?thesis
    by (rule bytes_field_at [OF d len])
      (simp add: EchoAck decode_host_instruction_def write_message_field_def host_loop_end
        host_instruction_loop.simps [of _ 0] echoack_loop_write)
qed

lemma user_decode_loop_concat:
  assumes "drop pos buf = concat (map (\<lambda>i. write_message_field 1 (encode_user_instruction i)) is)"
    and len: "length buf < 2 ^ 64"
  shows "user_decode_loop buf pos acc = Inr (acc @ is)"
  using assms(1)
proof (induction "is" arbitrary: pos acc)
  case Nil
  then show ?case by (subst user_decode_loop.simps) simp
next
  case (Cons i "is")
  let ?e = "encode_user_instruction i"
  have d: "drop pos buf = write_bytes_field 1 ?e
      @ concat (map (\<lambda>i. write_message_field 1 (encode_user_instruction i)) is)"
    using Cons.prems by (simp add: write_message_field_def)
  have "length ?e < 2 ^ 64"
    using arg_cong [OF d, of length] write_field_length(1) [of ?e 1] len by simp
  then have dec: "decode_user_instruction ?e = i"
    by (rule decode_encode_user_instruction)
  show ?case
    by (rule bytes_field_at [OF d len], subst user_decode_loop.simps)
      (simp add: dec Cons.IH [OF drop_advance [OF d]])
qed

lemma host_decode_loop_concat:
  assumes "drop pos buf = concat (map (\<lambda>i. write_message_field 1 (encode_host_instruction i)) is)"
    and len: "length buf < 2 ^ 64"
  shows "host_decode_loop buf pos acc = Inr (acc @ is)"
  using assms(1)
proof (induction "is" arbitrary: pos acc)
  case Nil
  then show ?case by (subst host_decode_loop.simps) simp
next
  case (Cons i "is")
  let ?e = "encode_host_instruction i"
  have d: "drop pos buf = write_bytes_field 1 ?e
      @ concat (map (\<lambda>i. write_message_field 1 (encode_host_instruction i)) is)"
    using Cons.prems by (simp add: write_message_field_def)
  have "length ?e < 2 ^ 64"
    using arg_cong [OF d, of length] write_field_length(1) [of ?e 1] len by simp
  then have dec: "decode_host_instruction ?e = i"
    by (rule decode_encode_host_instruction)
  show ?case
    by (rule bytes_field_at [OF d len], subst host_decode_loop.simps)
      (simp add: dec Cons.IH [OF drop_advance [OF d]])
qed

section \<open>The codec contract\<close>

text \<open>
  What the fragment layer and the synchronized states rely on: a decoder inverts its encoder on
  every message whose encoding fits a slice (\<open>usize\<close> lengths), so encodings are unambiguous.
\<close>

locale message_codec =
  fixes encode :: "'m \<Rightarrow> bytes" and decode :: "bytes \<Rightarrow> wire_error + 'm"
  assumes decode_encode: "length (encode m) < 2 ^ 64 \<Longrightarrow> decode (encode m) = Inr m"
begin

lemma encode_inj:
  "encode m = encode m' \<Longrightarrow> length (encode m) < 2 ^ 64 \<Longrightarrow> m = m'"
  by (metis decode_encode sum.inject(2))

lemma decode_complete: "length (encode m) < 2 ^ 64 \<Longrightarrow> \<exists>bs. decode bs = Inr m"
  using decode_encode by blast

end

interpretation transport_codec: message_codec transport_encode transport_decode
  by unfold_locales (rule transport_decode_encode_aux)

interpretation user_codec: message_codec user_encode user_decode
  by unfold_locales
    (simp add: user_decode_def user_encode_def user_decode_loop_concat [where acc = "[]"])

interpretation host_codec: message_codec host_encode host_decode
  by unfold_locales
    (simp add: host_decode_def host_encode_def host_decode_loop_concat [where acc = "[]"])

section \<open>Unknown fields\<close>

text \<open>
  Everything a newer peer may put where this decoder expects no field: values of the four plain
  wire types, and groups of such fields, nested to any depth.
\<close>

datatype unknown =
    UVarint u64
  | UFixed64 bytes
  | UBytes bytes
  | UFixed32 bytes
  | UGroup "(u32 \<times> unknown) list" u32

fun unknown_wire_type :: "unknown \<Rightarrow> u8" where
  "unknown_wire_type (UVarint v) = 0"
| "unknown_wire_type (UFixed64 bs) = 1"
| "unknown_wire_type (UBytes bs) = 2"
| "unknown_wire_type (UFixed32 bs) = 5"
| "unknown_wire_type (UGroup fs e) = 3"

fun unknown_payload :: "unknown \<Rightarrow> bytes" where
  "unknown_payload (UVarint v) = write_varint v"
| "unknown_payload (UFixed64 bs) = bs"
| "unknown_payload (UBytes bs) = write_varint (of_nat (length bs)) @ bs"
| "unknown_payload (UFixed32 bs) = bs"
| "unknown_payload (UGroup fs e) =
     concat (map (\<lambda>(f, u). write_tag f (unknown_wire_type u) @ unknown_payload u) fs) @ write_tag e 4"

fun unknown_ok :: "unknown \<Rightarrow> bool" where
  "unknown_ok (UVarint v) = True"
| "unknown_ok (UFixed64 bs) = (length bs = 8)"
| "unknown_ok (UBytes bs) = True"
| "unknown_ok (UFixed32 bs) = (length bs = 4)"
| "unknown_ok (UGroup fs e) = list_all (\<lambda>(f, u). unknown_ok u) fs"

definition write_unknown :: "u32 \<times> unknown \<Rightarrow> bytes" where
  "write_unknown fu = write_tag (fst fu) (unknown_wire_type (snd fu)) @ unknown_payload (snd fu)"

lemma unknown_wire_type_lt: "unknown_wire_type u < 8" "unknown_wire_type u \<noteq> 4"
  by (cases u; simp)+

lemma skip_group_member:
  assumes "drop pos buf = write_tag f w @ rest" and "w < 8" and "w \<noteq> 4"
    and "skip_field buf (pos + length (write_tag f w)) w = (Inr (), p)"
  shows "skip_field buf pos 3 = skip_field buf p 3"
  by (subst skip_field.simps) (simp add: read_tag_write [OF assms(1,2)] assms(3,4))

lemma skip_field_unknown:
  "drop pos buf = unknown_payload u @ rest \<Longrightarrow> unknown_ok u \<Longrightarrow> length buf < 2 ^ 64 \<Longrightarrow>
     skip_field buf pos (unknown_wire_type u) = (Inr (), pos + length (unknown_payload u))"
proof (induction u arbitrary: pos rest)
  case (UVarint v)
  then show ?case by (subst skip_field.simps) (simp add: read_varint_write)
next
  case (UFixed64 bs)
  then show ?case
    using drop_length [of pos buf bs rest] by (cases "bs = []"; subst skip_field.simps) auto
next
  case (UBytes bs)
  then show ?case
    by (subst skip_field.simps) (simp add: read_length_delimited_write [of pos buf bs rest])
next
  case (UFixed32 bs)
  then show ?case
    using drop_length [of pos buf bs rest] by (cases "bs = []"; subst skip_field.simps) auto
next
  case (UGroup fs e)
  have "drop pos buf = concat (map (\<lambda>(f, u). write_tag f (unknown_wire_type u) @ unknown_payload u) gs)
      @ write_tag e 4 @ rest \<Longrightarrow> set gs \<subseteq> set fs \<Longrightarrow>
      skip_field buf pos 3 = (Inr (), pos + length (unknown_payload (UGroup gs e)))" for gs pos
  proof (induction gs arbitrary: pos)
    case Nil
    then show ?case
      by (subst skip_field.simps) (simp add: read_tag_write [of pos buf e 4 rest])
  next
    case (Cons g gs)
    obtain f u where g: "g = (f, u)" by (cases g)
    let ?tail = "concat (map (\<lambda>(f, u). write_tag f (unknown_wire_type u) @ unknown_payload u) gs)
      @ write_tag e 4 @ rest"
    have d: "drop pos buf = write_tag f (unknown_wire_type u) @ unknown_payload u @ ?tail"
      using Cons.prems(1) g by simp
    note d1 = drop_advance [OF d]
    have mem: "g \<in> set fs" "u \<in> Basic_BNFs.snds g" using Cons.prems(2) g by (auto simp: snds.simps)
    have "unknown_ok u" using UGroup.prems(2) mem(1) g by (auto simp: list_all_iff)
    from UGroup.IH [OF mem d1 this UGroup.prems(3)]
    have "skip_field buf (pos + length (write_tag f (unknown_wire_type u))) (unknown_wire_type u)
        = (Inr (), pos + length (write_tag f (unknown_wire_type u)) + length (unknown_payload u))" .
    from skip_group_member [OF d unknown_wire_type_lt this] Cons.IH [OF drop_advance [OF d1]] Cons.prems(2)
    show ?case by (simp add: g add.assoc)
  qed
  from this [of pos fs] UGroup.prems(1) show ?case by simp
qed

text \<open>The frames a skipped field needs: one more than the deepest field inside a group.\<close>

definition deepest :: "nat list \<Rightarrow> nat" where
  "deepest ns = foldr max ns 0"

lemma deepest_simps [simp]:
  "deepest [] = 0" "deepest (n # ns) = max n (deepest ns)" "deepest (ms @ ns) = max (deepest ms) (deepest ns)"
  by (induction ms) (simp_all add: deepest_def max.assoc)

fun unknown_depth :: "unknown \<Rightarrow> nat" where
  "unknown_depth (UGroup fs e) = 1 + deepest (map (\<lambda>(f, u). unknown_depth u) fs)"
| "unknown_depth _ = 1"

lemma skip_frames_unknown:
  "drop pos buf = unknown_payload u @ rest \<Longrightarrow> unknown_ok u \<Longrightarrow> length buf < 2 ^ 64 \<Longrightarrow>
     skip_frames buf pos (unknown_wire_type u) = unknown_depth u"
proof (induction u arbitrary: pos rest)
  case (UGroup fs e)
  have "drop pos buf = concat (map (\<lambda>(f, u). write_tag f (unknown_wire_type u) @ unknown_payload u) gs)
      @ write_tag e 4 @ rest \<Longrightarrow> set gs \<subseteq> set fs \<Longrightarrow>
      skip_frames buf pos 3 = unknown_depth (UGroup gs e)" for gs pos
  proof (induction gs arbitrary: pos)
    case Nil
    then show ?case
      by (subst skip_frames.simps) (simp add: read_tag_write [of pos buf e 4 rest])
  next
    case (Cons g gs)
    obtain f u where g: "g = (f, u)" by (cases g)
    let ?tail = "concat (map (\<lambda>(f, u). write_tag f (unknown_wire_type u) @ unknown_payload u) gs)
      @ write_tag e 4 @ rest"
    have d: "drop pos buf = write_tag f (unknown_wire_type u) @ unknown_payload u @ ?tail"
      using Cons.prems(1) g by simp
    note d1 = drop_advance [OF d]
    have mem: "g \<in> set fs" "u \<in> Basic_BNFs.snds g" using Cons.prems(2) g by (auto simp: snds.simps)
    have ok: "unknown_ok u" using UGroup.prems(2) mem(1) g by (auto simp: list_all_iff)
    show ?case
      by (subst skip_frames.simps)
        (use UGroup.IH [OF mem d1 ok UGroup.prems(3)] skip_field_unknown [OF d1 ok UGroup.prems(3)]
          Cons.IH [OF drop_advance [OF d1]] Cons.prems(2)
         in \<open>simp add: g read_tag_write [OF d unknown_wire_type_lt(1)] unknown_wire_type_lt(2)\<close>)
  qed
  from this [of pos fs] UGroup.prems(1) show ?case by simp
qed (simp_all add: skip_frames.simps)

text \<open>
  A chunk of input acts on the instruction that is being decoded, with so many frames, wherever it
  stands; chunks compose.
\<close>

definition chunk_acts :: "bytes \<Rightarrow> (transport_instruction \<Rightarrow> transport_instruction) \<Rightarrow> nat \<Rightarrow> bool" where
  "chunk_acts bs f k \<longleftrightarrow> (\<forall>buf pos rest out. drop pos buf = bs @ rest \<longrightarrow> length buf < 2 ^ 64 \<longrightarrow>
     transport_decode_loop buf pos out = transport_decode_loop buf (pos + length bs) (f out) \<and>
     transport_frames buf pos = max k (transport_frames buf (pos + length bs)))"

lemma chunkD:
  assumes "chunk_acts bs f k" and "drop pos buf = bs @ rest" and "length buf < 2 ^ 64"
  shows "transport_decode_loop buf pos out = transport_decode_loop buf (pos + length bs) (f out)"
    and "transport_frames buf pos = max k (transport_frames buf (pos + length bs))"
  using assms unfolding chunk_acts_def by blast+

lemma chunk_Nil: "chunk_acts [] (\<lambda>out. out) 0"
  by (simp add: chunk_acts_def)

lemma chunk_append:
  assumes "chunk_acts as f j" and "chunk_acts bs g k"
  shows "chunk_acts (as @ bs) (\<lambda>out. g (f out)) (max j k)"
  unfolding chunk_acts_def
proof (intro allI impI, goal_cases)
  case (1 buf pos rest out)
  then have d: "drop pos buf = as @ bs @ rest" by simp
  show ?case
    using chunkD [OF assms(1) d 1(2)] chunkD [OF assms(2) drop_advance [OF d] 1(2)]
    by (simp add: add.assoc max.assoc)
qed

lemma chunk_whole:
  assumes "chunk_acts bs f k" and "length bs < 2 ^ 64"
  shows "transport_decode bs = Inr (f transport_default)" and "transport_frames bs 0 = k"
  using chunkD(1) [OF assms(1), of 0 bs "[]" transport_default] chunkD(2) [OF assms(1), of 0 bs "[]"] assms(2)
  by (simp_all add: transport_decode_def transport_loop_end transport_frames.simps [of bs "length bs"])

lemma chunk_unknown:
  assumes "\<not> known_field f (unknown_wire_type u)" and "unknown_ok u"
  shows "chunk_acts (write_unknown (f, u)) (\<lambda>out. out) (unknown_depth u)"
  unfolding chunk_acts_def
proof (intro allI impI, goal_cases)
  case (1 buf pos rest out)
  let ?t = "write_tag f (unknown_wire_type u)"
  have d: "drop pos buf = ?t @ unknown_payload u @ rest" using 1(1) by (simp add: write_unknown_def)
  note d1 = drop_advance [OF d]
  have field: "transport_field buf (pos + length ?t) f (unknown_wire_type u) out'
      = (Inr out', pos + length ?t + length (unknown_payload u))" for out'
    using skip_field_unknown [OF d1 assms(2) 1(2)] assms(1) by (auto simp: transport_field_def known_field_def)
  have "pos < length buf" using d by (rule drop_inside) simp
  then show ?case
    by (subst transport_decode_loop.simps, subst transport_frames.simps)
      (simp add: read_tag_write [OF d unknown_wire_type_lt(1)] field assms(1) write_unknown_def add.assoc
        skip_frames_unknown [OF d1 assms(2) 1(2)])
qed

definition write_unknowns :: "(u32 \<times> unknown) list \<Rightarrow> bytes" where
  "write_unknowns us = concat (map write_unknown us)"

definition skippable :: "(u32 \<times> unknown) list \<Rightarrow> bool" where
  "skippable us \<longleftrightarrow> list_all (\<lambda>(f, u). \<not> known_field f (unknown_wire_type u) \<and> unknown_ok u) us"

definition unknowns_depth :: "(u32 \<times> unknown) list \<Rightarrow> nat" where
  "unknowns_depth us = deepest (map (\<lambda>(f, u). unknown_depth u) us)"

lemma chunk_unknowns: "skippable us \<Longrightarrow> chunk_acts (write_unknowns us) (\<lambda>out. out) (unknowns_depth us)"
proof (induction us)
  case Nil
  then show ?case by (simp add: write_unknowns_def unknowns_depth_def chunk_Nil)
next
  case (Cons x us)
  obtain f u where x: "x = (f, u)" by (cases x)
  have "chunk_acts (write_unknown (f, u)) (\<lambda>out. out) (unknown_depth u)"
    and "chunk_acts (write_unknowns us) (\<lambda>out. out) (unknowns_depth us)"
    using Cons by (auto simp: x skippable_def intro: chunk_unknown)
  from chunk_append [OF this] show ?case by (simp add: x write_unknowns_def unknowns_depth_def)
qed

text \<open>The fields of an instruction in the order of the encoder, and the same with unknown fields before each.\<close>

definition transport_fields :: "transport_instruction \<Rightarrow> bytes list" where
  "transport_fields self =
     [write_varint_field 1 (ucast (protocol_version self)), write_varint_field 2 (old_num self),
      write_varint_field 3 (new_num self), write_varint_field 4 (ack_num self),
      write_varint_field 5 (throwaway_num self), write_bytes_field 6 (diff self),
      write_bytes_field 7 (chaff self)]"

fun spread :: "bytes list \<Rightarrow> (u32 \<times> unknown) list list \<Rightarrow> bytes" where
  "spread [] gaps = write_unknowns (concat gaps)"
| "spread (f # fs) [] = f @ spread fs []"
| "spread (f # fs) (g # gs) = write_unknowns g @ f @ spread fs gs"

lemma spread_plain: "spread (transport_fields m) [] = transport_encode m"
  by (simp add: transport_fields_def transport_encode_def write_unknowns_def)

lemma known_fields:
  "known_field 1 0" "known_field 2 0" "known_field 3 0" "known_field 4 0" "known_field 5 0"
  "known_field 6 2" "known_field 7 2"
  by (simp_all add: known_field_def)

lemma transport_frames_known:
  assumes "pos < length buf" and "read_tag buf pos = (Inr (f, w), p)" and "known_field f w"
    and "\<And>out. \<exists>out'. transport_field buf p f w out = (Inr out', q)"
  shows "transport_frames buf pos = transport_frames buf q"
  using assms(1-3) assms(4) [of transport_default] by (subst transport_frames.simps) auto

lemma transport_frames_varint:
  "known_field f 0 \<Longrightarrow> drop pos buf = write_varint_field f v @ rest \<Longrightarrow>
     transport_frames buf pos = transport_frames buf (pos + length (write_varint_field f v))"
  by (erule varint_field_at, erule (1) transport_frames_known) (auto simp: transport_field_def known_field_def)

lemma transport_frames_bytes:
  "known_field f 2 \<Longrightarrow> drop pos buf = write_bytes_field f bs @ rest \<Longrightarrow> length buf < 2 ^ 64 \<Longrightarrow>
     transport_frames buf pos = transport_frames buf (pos + length (write_bytes_field f bs))"
  by (erule (1) bytes_field_at, erule (1) transport_frames_known) (auto simp: transport_field_def known_field_def)

lemma chunk_fields:
  "chunk_acts (write_varint_field 1 v) (\<lambda>out. out\<lparr>protocol_version := ucast v\<rparr>) 0"
  "chunk_acts (write_varint_field 2 v) (\<lambda>out. out\<lparr>old_num := v\<rparr>) 0"
  "chunk_acts (write_varint_field 3 v) (\<lambda>out. out\<lparr>new_num := v\<rparr>) 0"
  "chunk_acts (write_varint_field 4 v) (\<lambda>out. out\<lparr>ack_num := v\<rparr>) 0"
  "chunk_acts (write_varint_field 5 v) (\<lambda>out. out\<lparr>throwaway_num := v\<rparr>) 0"
  "chunk_acts (write_bytes_field 6 bs) (\<lambda>out. out\<lparr>diff := bs\<rparr>) 0"
  "chunk_acts (write_bytes_field 7 bs) (\<lambda>out. out\<lparr>chaff := bs\<rparr>) 0"
  by (simp_all add: chunk_acts_def transport_loop_varint transport_loop_bytes transport_frames_varint transport_frames_bytes known_fields
      del: max_def)

lemma chunk_spread:
  assumes "list_all2 (\<lambda>b f. chunk_acts b f 0) fs ups" and "list_all skippable gaps"
  shows "chunk_acts (spread fs gaps) (\<lambda>out. foldl (\<lambda>out up. up out) out ups) (unknowns_depth (concat gaps))"
  using assms
proof (induction fs arbitrary: ups gaps)
  case Nil
  then have "skippable (concat gaps)" by (auto simp: skippable_def list_all_iff)
  with Nil show ?case by (simp add: chunk_unknowns)
next
  case (Cons f fs)
  then obtain up ups' where ups: "ups = up # ups'" and f: "chunk_acts f up 0"
    and fs: "list_all2 (\<lambda>b f. chunk_acts b f 0) fs ups'" by (auto simp: list_all2_Cons1)
  show ?case
  proof (cases gaps)
    case Nil
    from chunk_append [OF f Cons.IH [OF fs, of "[]"]] show ?thesis by (simp add: Nil ups)
  next
    case (Cons g gs)
    with Cons.prems(2) have "chunk_acts (write_unknowns g) (\<lambda>out. out) (unknowns_depth g)"
      and "list_all skippable gs" by (simp_all add: chunk_unknowns)
    from chunk_append [OF this(1) chunk_append [OF f Cons.IH [OF fs this(2)]]] show ?thesis
      by (simp add: \<open>gaps = g # gs\<close> ups unknowns_depth_def)
  qed
qed

section \<open>Varint errors\<close>

definition continued :: "u8 \<Rightarrow> bool" where
  "continued b \<longleftrightarrow> b AND 0x80 \<noteq> 0"

lemma read_varint_loop_result:
  "case fst (read_varint_loop k i v buf pos) of
     Inl BadVarint \<Rightarrow> k \<le> length (takeWhile continued (drop pos buf))
   | Inl Truncated \<Rightarrow> length (takeWhile continued (drop pos buf)) < k \<and> list_all continued (drop pos buf)
   | Inl _ \<Rightarrow> False
   | Inr _ \<Rightarrow> length (takeWhile continued (drop pos buf)) < k \<and> \<not> list_all continued (drop pos buf)"
proof (induction k i v buf pos rule: read_varint_loop.induct)
  case (1 i v buf pos)
  then show ?case by simp
next
  case (2 k i v buf pos)
  show ?case
  proof (cases "length buf \<le> pos")
    case True
    then show ?thesis by simp
  next
    case False
    then have d: "drop pos buf = buf ! pos # drop (Suc pos) buf" by (simp add: Cons_nth_drop_Suc)
    have c: "buf ! pos AND 0x80 = 0 \<longleftrightarrow> \<not> continued (buf ! pos)" by (simp add: continued_def)
    show ?thesis
    proof (cases "continued (buf ! pos)")
      case True
      with 2 [OF False refl refl refl] c False show ?thesis
        by (simp add: d Let_def split: sum.splits wire_error.splits)
    next
      case nc: False
      with False c show ?thesis by (simp add: d Let_def)
    qed
  qed
qed

section \<open>Properties\<close>

text \<open>C27: Transport instructions survive the wire: decoding an encoded instruction gives it back, all
  seven fields included, for every instruction whose encoding is a possible Rust slice.\<close>

theorem transport_round_trip:
  assumes "length (transport_encode m) < 2 ^ 64"
  shows "transport_decode (transport_encode m) = Inr m"
  using assms by (rule transport_codec.decode_encode)

theorem transport_round_trip_witness:
  "transport_decode (transport_encode \<lparr>protocol_version = 2, old_num = 300, new_num = SHUTDOWN_NUM, ack_num = 7,
      throwaway_num = 0, diff = [1, 2, 255], chaff = []\<rparr>)
   = Inr \<lparr>protocol_version = 2, old_num = 300, new_num = SHUTDOWN_NUM, ack_num = 7,
      throwaway_num = 0, diff = [1, 2, 255], chaff = []\<rparr>"
proof (rule transport_round_trip)
  have "length (transport_encode \<lparr>protocol_version = 2, old_num = 300, new_num = SHUTDOWN_NUM, ack_num = 7,
      throwaway_num = 0, diff = [1, 2, 255], chaff = []\<rparr>) = 27" by code_simp
  then show "length (transport_encode \<lparr>protocol_version = 2, old_num = 300, new_num = SHUTDOWN_NUM, ack_num = 7,
      throwaway_num = 0, diff = [1, 2, 255], chaff = []\<rparr>) < 2 ^ 64" by simp
qed

text \<open>User messages survive the wire: every list of keystroke and resize instructions, with
  negative window sizes too, is decoded to itself.\<close>

theorem user_round_trip:
  assumes "length (user_encode m) < 2 ^ 64"
  shows "user_decode (user_encode m) = Inr m"
  using assms by (rule user_codec.decode_encode)

theorem user_round_trip_witness:
  "user_decode (user_encode \<lparr>user_instructions = [Keystroke [104, 105], UResize 80 (- 1), Keystroke []]\<rparr>)
   = Inr \<lparr>user_instructions = [Keystroke [104, 105], UResize 80 (- 1), Keystroke []]\<rparr>"
proof (rule user_round_trip)
  have "length (user_encode \<lparr>user_instructions = [Keystroke [104, 105], UResize 80 (- 1), Keystroke []]\<rparr>) = 31"
    by code_simp
  then show "length (user_encode \<lparr>user_instructions = [Keystroke [104, 105], UResize 80 (- 1), Keystroke []]\<rparr>) < 2 ^ 64"
    by simp
qed

text \<open>Host messages survive the wire: every list of host bytes, resizes and echo acks is decoded
  to itself.\<close>

theorem host_round_trip:
  assumes "length (host_encode m) < 2 ^ 64"
  shows "host_decode (host_encode m) = Inr m"
  using assms by (rule host_codec.decode_encode)

theorem host_round_trip_witness:
  "host_decode (host_encode \<lparr>host_instructions = [HostBytes [27, 91], EchoAck 400, HResize 132 43]\<rparr>)
   = Inr \<lparr>host_instructions = [HostBytes [27, 91], EchoAck 400, HResize 132 43]\<rparr>"
proof (rule host_round_trip)
  have "length (host_encode \<lparr>host_instructions = [HostBytes [27, 91], EchoAck 400, HResize 132 43]\<rparr>) = 24"
    by code_simp
  then show "length (host_encode \<lparr>host_instructions = [HostBytes [27, 91], EchoAck 400, HResize 132 43]\<rparr>) < 2 ^ 64"
    by simp
qed

text \<open>C28: Forward compatibility, and what it costs: with any unknown fields before, between and after the
  known ones, of any wire type and with groups in groups, the decoder returns the known fields
  unchanged, on a stack with room for as many frames of \<open>skip_field\<close> as the deepest of the
  unknown groups has levels, and needs exactly that many.\<close>

theorem unknown_fields_skipped:
  assumes "list_all skippable gaps" and "length (spread (transport_fields m) gaps) < 2 ^ 64"
  shows "transport_decode (spread (transport_fields m) gaps) = Inr m
       \<and> transport_frames (spread (transport_fields m) gaps) 0 = unknowns_depth (concat gaps)"
proof -
  let ?ups = "[\<lambda>out. out\<lparr>protocol_version := ucast (ucast (protocol_version m) :: u64)\<rparr>, \<lambda>out. out\<lparr>old_num := old_num m\<rparr>,
      \<lambda>out. out\<lparr>new_num := new_num m\<rparr>, \<lambda>out. out\<lparr>ack_num := ack_num m\<rparr>, \<lambda>out. out\<lparr>throwaway_num := throwaway_num m\<rparr>,
      \<lambda>out. out\<lparr>diff := diff m\<rparr>, \<lambda>out. out\<lparr>chaff := chaff m\<rparr>]"
  have "list_all2 (\<lambda>b f. chunk_acts b f 0) (transport_fields m) ?ups"
    by (simp add: transport_fields_def chunk_fields)
  from chunk_whole [OF chunk_spread [OF this assms(1)] assms(2)] show ?thesis
    by (simp add: u32_through_u64 transport_all_fields)
qed

theorem unknown_fields_skipped_witness:
  "transport_decode (spread (transport_fields transport_default)
     [[(9, UGroup [(1, UVarint 300), (2, UGroup [] 2)] 9)], [(1, UBytes [1, 2])], [], [(100, UFixed32 [1, 2, 3, 4])]])
   = Inr transport_default
   \<and> transport_frames (spread (transport_fields transport_default)
     [[(9, UGroup [(1, UVarint 300), (2, UGroup [] 2)] 9)], [(1, UBytes [1, 2])], [], [(100, UFixed32 [1, 2, 3, 4])]]) 0 = 2"
proof -
  let ?gaps = "[[(9, UGroup [(1, UVarint 300), (2, UGroup [] 2)] 9)], [(1, UBytes [1, 2])], [],
    [(100 :: u32, UFixed32 [1, 2, 3, 4])]]"
  have ok: "list_all skippable ?gaps" by (simp add: skippable_def known_field_def)
  have "length (spread (transport_fields transport_default) ?gaps) = 31" by code_simp
  then have "length (spread (transport_fields transport_default) ?gaps) < 2 ^ 64" by simp
  from unknown_fields_skipped [OF ok this] show ?thesis by (simp add: unknowns_depth_def)
qed

lemma start_group_byte:
  "pos < n \<Longrightarrow> read_varint_loop (Suc k) 0 0 (replicate n 0x0b) pos = (Inr 11, Suc pos)"
  "read_varint_loop (Suc k) 0 0 (replicate n 0x0b) n = (Inl Truncated, n)"
  by (simp_all add: Let_def)

lemma start_group_tag:
  "pos < n \<Longrightarrow> read_tag (replicate n 0x0b) pos = (Inr (1, 3), Suc pos)"
  "read_tag (replicate n 0x0b) n = (Inl Truncated, n)"
  using start_group_byte [where k = 9] by (simp_all add: read_tag_def read_varint_def)

lemma start_groups_frames:
  "pos \<le> n \<Longrightarrow> skip_frames (replicate n 0x0b) pos 3 = Suc (n - pos)
     \<and> (\<exists>p. skip_field (replicate n 0x0b) pos 3 = (Inl Truncated, p))"
proof (induction "n - pos" arbitrary: pos)
  case 0
  then show ?case
    using start_group_tag(2) [of n] by (subst skip_frames.simps, subst skip_field.simps) simp
next
  case (Suc k)
  then have "pos < n" by simp
  have "k = n - Suc pos" using Suc(2) by simp
  from Suc(1) [OF this] \<open>pos < n\<close> obtain p where "skip_frames (replicate n 0x0b) (Suc pos) 3 = Suc (n - Suc pos)"
      "skip_field (replicate n 0x0b) (Suc pos) 3 = (Inl Truncated, p)"
    by auto
  with \<open>pos < n\<close> start_group_tag(1) [OF \<open>pos < n\<close>] show ?case
    by (simp add: skip_frames.simps [of _ pos] skip_field.simps [of _ pos])
qed

text \<open>C29: Nothing bounds that stack: \<open>n\<close> start-group tags keep \<open>n\<close> calls of \<open>skip_field\<close> in progress
  at once, before the decoder can report the truncated input. A real stack is smaller than the 4 MiB
  that a decompressed instruction may have, so this input aborts the process.\<close>

theorem nested_groups_unbounded:
  "transport_frames (replicate n 0x0b) 0 = n
   \<and> transport_decode (replicate n 0x0b) = (if n = 0 then Inr transport_default else Inl Truncated)"
proof (cases n)
  case 0
  then show ?thesis by (simp add: transport_decode_def transport_frames.simps transport_loop_end)
next
  case (Suc k)
  then obtain p where f: "skip_frames (replicate n 0x0b) 1 3 = n"
    and g: "skip_field (replicate n 0x0b) 1 3 = (Inl Truncated, p)"
    using start_groups_frames [of 1 n] by auto
  show ?thesis
    unfolding transport_decode_def
    by (subst transport_frames.simps, subst transport_decode_loop.simps)
      (use Suc f(1) g start_group_tag(1) [of 0 n] in \<open>simp add: transport_field_def known_field_def\<close>)
qed

text \<open>No reader runs past its buffer: from a position inside the buffer, reading a varint, a tag
  or a length-delimited value and skipping a field of any wire type all stop inside it, and a
  returned slice is the part of the buffer that ends at the new position.\<close>

theorem readers_stay_in_bounds:
  assumes "pos \<le> length buf"
  shows "snd (read_varint buf pos) \<in> {pos..length buf} \<and> snd (read_tag buf pos) \<in> {pos..length buf}
       \<and> snd (skip_field buf pos wt) \<in> {pos..length buf}
       \<and> (case read_length_delimited buf pos of
            (Inl _, p) \<Rightarrow> p \<in> {pos..length buf}
          | (Inr bs, p) \<Rightarrow> p \<in> {pos..length buf} \<and> pos + length bs < p
              \<and> bs = take (length bs) (drop (p - length bs) buf))"
proof -
  obtain rv pv where v: "read_varint buf pos = (rv, pv)" by fastforce
  obtain rt pt where t: "read_tag buf pos = (rt, pt)" by fastforce
  obtain rs ps where k: "skip_field buf pos wt = (rs, ps)" by fastforce
  have "pv \<in> {pos..length buf}" "pt \<in> {pos..length buf}" "ps \<in> {pos..length buf}"
    using read_varint_pos(1) [OF v] read_tag_pos(1) [OF t] skip_field_pos [OF k] assms by auto
  moreover have "case read_length_delimited buf pos of
            (Inl _, p) \<Rightarrow> p \<in> {pos..length buf}
          | (Inr bs, p) \<Rightarrow> p \<in> {pos..length buf} \<and> pos + length bs < p
              \<and> bs = take (length bs) (drop (p - length bs) buf)"
  proof (cases rv)
    case (Inl e)
    with v \<open>pv \<in> {pos..length buf}\<close> show ?thesis by (simp add: read_length_delimited_def)
  next
    case (Inr len)
    with read_varint_pos [of buf pos] v assms have "pos < pv" "pv \<le> length buf" by auto
    with v Inr show ?thesis by (auto simp: read_length_delimited_def Let_def)
  qed
  ultimately show ?thesis using v t k by simp
qed

theorem readers_stay_in_bounds_witness:
  "snd (skip_field [0x0b, 0x0b, 0x0c] 0 3) \<in> {0..3}"
  using readers_stay_in_bounds [where pos = 0 and buf = "[0x0b, 0x0b, 0x0c]" and wt = 3] by simp

text \<open>Varint errors are exact: \<open>BadVarint\<close> means ten continuation bytes in a row, \<open>Truncated\<close>
  means fewer than ten bytes are left and all of them are continuation bytes, and everything else is
  a value.\<close>

theorem read_varint_errors:
  "(fst (read_varint buf pos) = Inl BadVarint \<longleftrightarrow> 10 \<le> length (takeWhile continued (drop pos buf)))
   \<and> (fst (read_varint buf pos) = Inl Truncated \<longleftrightarrow>
        length (takeWhile continued (drop pos buf)) < 10 \<and> list_all continued (drop pos buf))
   \<and> ((\<exists>v. fst (read_varint buf pos) = Inr v) \<longleftrightarrow>
        length (takeWhile continued (drop pos buf)) < 10 \<and> list_ex (\<lambda>b. \<not> continued b) (drop pos buf))"
  using read_varint_loop_result [where k = 10 and i = 0 and v = 0 and buf = buf and pos = pos]
  by (auto simp: read_varint_def list_all_iff list_ex_iff split: sum.splits wire_error.splits)

end
