(* ===== verification/Sync_State.thy ===== *)
theory Sync_State
  imports Wire
begin

text \<open>
  \<^verbatim>\<open>src/ssp.rs\<close> lines 51-69: the two traits of synchronized states, and the contract they come
  with.

  The engine is generic over a state we send (\<open>SspSentState\<close>: \<open>diff_from\<close>, \<open>subtract\<close>, equality)
  and a state we receive (\<open>SspReceivedState\<close>: \<open>apply_string\<close>). Generic code takes the operations as
  arguments. What the engine relies on is stated here as locales over the event list a state stands
  for: \<open>subtract\<close> drops a known prefix, \<open>diff_from\<close> encodes what comes after a known prefix, and
  \<open>apply_string\<close> appends what was encoded. The user stream interprets them.
\<close>

record 's timestamped_state =
  ts_timestamp :: u64
  ts_num :: u64
  ts_state :: 's

locale sent_state =
  fixes view :: "'s \<Rightarrow> 'e list"
    and encode_events :: "'e list \<Rightarrow> bytes"
    and diff_from :: "'s \<Rightarrow> 's \<Rightarrow> bytes"
    and subtract :: "'s \<Rightarrow> 's \<Rightarrow> 's"
  assumes view_inj: "view s = view t \<Longrightarrow> s = t"
    and subtract_view: "prefix (view k) (view s) \<Longrightarrow> view s = view k @ view (subtract s k)"
    and diff_view: "view s = view t @ es \<Longrightarrow> diff_from s t = encode_events es"
    and encode_nil: "encode_events es = [] \<longleftrightarrow> es = []"
begin

lemma diff_empty_iff: "prefix (view t) (view s) \<Longrightarrow> diff_from s t = [] \<longleftrightarrow> s = t"
  by (metis append_Nil2 diff_view encode_nil prefixE view_inj)

lemma diff_self [simp]: "diff_from s s = []"
  using diff_view [of s s "[]"] encode_nil [of "[]"] by simp

lemma subtract_prefix_mono:
  "prefix (view k) (view s) \<Longrightarrow> prefix (view s) (view t) \<Longrightarrow> prefix (view (subtract s k)) (view (subtract t k))"
  by (metis prefix_order.trans same_prefix_prefix subtract_view)

lemma subtract_inj:
  "prefix (view k) (view s) \<Longrightarrow> prefix (view k) (view t) \<Longrightarrow> subtract s k = subtract t k \<longleftrightarrow> s = t"
  by (metis subtract_view view_inj)

end

locale sync_state = sent_state view encode_events diff_from subtract
  for view :: "'s \<Rightarrow> 'e list" and encode_events :: "'e list \<Rightarrow> bytes"
    and diff_from :: "'s \<Rightarrow> 's \<Rightarrow> bytes" and subtract :: "'s \<Rightarrow> 's \<Rightarrow> 's" +
  fixes apply_string :: "'s \<Rightarrow> bytes \<Rightarrow> wire_error + 's"
  assumes apply_encoded:
    "length (encode_events es) < 2 ^ 64 \<Longrightarrow>
       \<exists>r'. apply_string r (encode_events es) = Inr r' \<and> view r' = view r @ es"
begin

lemma apply_diff:
  assumes "prefix (view t) (view s)" and "length (diff_from s t) < 2 ^ 64"
  shows "apply_string t (diff_from s t) = Inr s"
proof -
  from assms(1) obtain es where es: "view s = view t @ es" by (auto elim: prefixE)
  with assms(2) apply_encoded [of es t] show ?thesis
    by (auto simp: diff_view [OF es]) (metis es view_inj)
qed

end

end
