(* ===== verification/User_Stream.thy ===== *)
theory User_Stream
  imports Sync_State
begin

text \<open>
  \<^verbatim>\<open>src/ssp.rs\<close> lines 71-168: the user stream, the append-only keystroke and resize log the client
  sends. The lemmas show that coalescing bytes into keystroke instructions loses nothing, and that
  the stream satisfies the contract of a synchronized state.
\<close>

datatype user_event =
    Byte u8
  | Resize i32 i32

record user_stream =
  events :: "user_event list"

definition user_stream_new :: user_stream where
  "user_stream_new = \<lparr>events = []\<rparr>"

definition push_bytes :: "user_stream \<Rightarrow> bytes \<Rightarrow> user_stream" where
  "push_bytes self bs = self\<lparr>events := events self @ map Byte bs\<rparr>"

definition push_resize :: "user_stream \<Rightarrow> i32 \<Rightarrow> i32 \<Rightarrow> user_stream" where
  "push_resize self width height = self\<lparr>events := events self @ [Resize width height]\<rparr>"

definition user_stream_len :: "user_stream \<Rightarrow> nat" where
  "user_stream_len self = length (events self)"

definition user_stream_is_empty :: "user_stream \<Rightarrow> bool" where
  "user_stream_is_empty self = (events self = [])"

text \<open>One round of the loop of \<open>encode_suffix\<close>: consecutive bytes join the last keystroke.\<close>

fun coalesce :: "user_instruction list \<Rightarrow> user_event \<Rightarrow> user_instruction list" where
  "coalesce instructions (Byte b) =
     (case rev instructions of
        Keystroke keys # earlier \<Rightarrow> rev earlier @ [Keystroke (keys @ [b])]
      | _ \<Rightarrow> instructions @ [Keystroke [b]])"
| "coalesce instructions (Resize width height) = instructions @ [UResize width height]"

definition encode_suffix :: "user_stream \<Rightarrow> nat \<Rightarrow> bytes" where
  "encode_suffix self from =
     user_encode \<lparr>user_instructions = foldl coalesce [] (drop from (events self))\<rparr>"

definition common_prefix_len :: "user_stream \<Rightarrow> user_stream \<Rightarrow> nat" where
  "common_prefix_len self other =
     length (takeWhile (\<lambda>(a, b). a = b) (zip (events self) (events other)))"

definition user_diff_from :: "user_stream \<Rightarrow> user_stream \<Rightarrow> bytes" where
  "user_diff_from self existing = encode_suffix self (common_prefix_len self existing)"

definition user_subtract :: "user_stream \<Rightarrow> user_stream \<Rightarrow> user_stream" where
  "user_subtract self known_receiver =
     (if self = known_receiver then self\<lparr>events := []\<rparr>
      else self\<lparr>events := drop (common_prefix_len self known_receiver) (events self)\<rparr>)"

fun apply_user_instruction :: "user_stream \<Rightarrow> user_instruction \<Rightarrow> user_stream" where
  "apply_user_instruction self (Keystroke keys) = push_bytes self keys"
| "apply_user_instruction self (UResize width height) = push_resize self width height"

definition user_apply_string :: "user_stream \<Rightarrow> bytes \<Rightarrow> wire_error + user_stream" where
  "user_apply_string self d =
     (case user_decode d of
        Inl e \<Rightarrow> Inl e
      | Inr message \<Rightarrow> Inr (foldl apply_user_instruction self (user_instructions message)))"

section \<open>Coalescing\<close>

fun instruction_events :: "user_instruction \<Rightarrow> user_event list" where
  "instruction_events (Keystroke keys) = map Byte keys"
| "instruction_events (UResize width height) = [Resize width height]"

lemma coalesce_events:
  "concat (map instruction_events (coalesce is e)) = concat (map instruction_events is) @ [e]"
proof (cases e)
  case (Byte b)
  show ?thesis
  proof (cases "rev is")
    case Nil
    with Byte show ?thesis by simp
  next
    case (Cons i earlier)
    then have "is = rev earlier @ [i]" by (metis rev_rev_ident rev.simps(2))
    with Byte Cons show ?thesis by (cases i) simp_all
  qed
qed simp

lemma foldl_coalesce_events:
  "concat (map instruction_events (foldl coalesce is es)) = concat (map instruction_events is) @ es"
  by (induction es arbitrary: "is") (simp_all add: coalesce_events del: coalesce.simps)

lemma apply_instruction_events:
  "events (foldl apply_user_instruction s is) = events s @ concat (map instruction_events is)"
proof (induction "is" arbitrary: s)
  case Nil
  then show ?case by simp
next
  case (Cons i "is")
  then show ?case by (cases i) (simp_all add: push_bytes_def push_resize_def)
qed

lemma user_stream_eqI: "events s = events t \<Longrightarrow> s = (t :: user_stream)"
  by simp

section \<open>The contract\<close>

definition user_encode_events :: "user_event list \<Rightarrow> bytes" where
  "user_encode_events es = encode_suffix \<lparr>events = es\<rparr> 0"

lemma common_prefix_len_prefix:
  "events s = events t @ es \<Longrightarrow> common_prefix_len s t = length (events t)"
  unfolding common_prefix_len_def
  by (subst takeWhile_eq_all_conv [THEN iffD2]) (auto simp: zip_append1 set_zip)

lemma user_diff_suffix: "events s = events t @ es \<Longrightarrow> user_diff_from s t = user_encode_events es"
  by (simp add: user_diff_from_def common_prefix_len_prefix encode_suffix_def user_encode_events_def)

lemma write_message_field_nonempty: "write_message_field f bs \<noteq> []"
  by (simp add: write_message_field_def write_bytes_field_def)

lemma foldl_coalesce_nil: "foldl coalesce [] es = [] \<longleftrightarrow> es = []"
  using foldl_coalesce_events [of "[]" es] by auto

lemma user_encode_nil: "user_encode m = [] \<longleftrightarrow> user_instructions m = []"
  by (auto simp: user_encode_def write_message_field_nonempty)

interpretation us: sync_state events user_encode_events user_diff_from user_subtract user_apply_string
proof
  show "s = t" if "events s = events t" for s t :: user_stream
    using that by (rule user_stream_eqI)
  show "events s = events k @ events (user_subtract s k)" if "prefix (events k) (events s)" for k s
  proof -
    from that obtain es where es: "events s = events k @ es" by (auto elim: prefixE)
    then show ?thesis
      by (auto simp: user_subtract_def common_prefix_len_prefix)
  qed
  show "user_diff_from s t = user_encode_events es" if "events s = events t @ es" for s t es
    using that by (rule user_diff_suffix)
  show "user_encode_events es = [] \<longleftrightarrow> es = []" for es
    by (simp add: user_encode_events_def encode_suffix_def user_encode_nil foldl_coalesce_nil)
  show "\<exists>r'. user_apply_string r (user_encode_events es) = Inr r' \<and> events r' = events r @ es"
    if "length (user_encode_events es) < 2 ^ 64" for r es
    using that
    by (simp add: user_encode_events_def encode_suffix_def user_apply_string_def
        user_codec.decode_encode apply_instruction_events foldl_coalesce_events)
qed

section \<open>Coalescing is maximal\<close>

fun is_keystroke :: "user_instruction \<Rightarrow> bool" where
  "is_keystroke (Keystroke keys) = True"
| "is_keystroke (UResize width height) = False"

text \<open>No two neighbours are keystrokes and no keystroke is empty.\<close>

definition run_length_coded :: "user_instruction list \<Rightarrow> bool" where
  "run_length_coded is \<longleftrightarrow>
     successively (\<lambda>i j. \<not> (is_keystroke i \<and> is_keystroke j)) is \<and> Keystroke [] \<notin> set is"

lemma coalesce_run_length: "run_length_coded is \<Longrightarrow> run_length_coded (coalesce is e)"
proof (cases e)
  case (Byte b)
  assume ok: "run_length_coded is"
  show ?thesis
  proof (cases "rev is")
    case Nil
    with Byte show ?thesis by (simp add: run_length_coded_def)
  next
    case (Cons i earlier)
    then have "is = rev earlier @ [i]" by (metis rev_rev_ident rev.simps(2))
    with ok Byte Cons show ?thesis
      by (cases i) (auto simp: run_length_coded_def successively_append_iff)
  qed
next
  case (Resize w h)
  assume "run_length_coded is"
  with Resize show ?thesis by (auto simp: run_length_coded_def successively_append_iff)
qed

lemma foldl_coalesce_run_length: "run_length_coded is \<Longrightarrow> run_length_coded (foldl coalesce is es)"
  by (induction es arbitrary: "is") (simp_all add: coalesce_run_length del: coalesce.simps)

section \<open>Properties\<close>

text \<open>C36: The diff between a stream and an earlier version of it, applied to that earlier version,
  reproduces the stream exactly: the same bytes and resizes in the same order.\<close>

theorem user_diff_apply:
  assumes "prefix (events t) (events s)" and "length (user_diff_from s t) < 2 ^ 64"
  shows "user_apply_string t (user_diff_from s t) = Inr s"
  using assms by (rule us.apply_diff)

theorem user_diff_apply_witness:
  "user_apply_string \<lparr>events = [Byte 97]\<rparr> (user_diff_from \<lparr>events = [Byte 97, Byte 98, Resize 80 24, Byte 99]\<rparr> \<lparr>events = [Byte 97]\<rparr>)
   = Inr \<lparr>events = [Byte 97, Byte 98, Resize 80 24, Byte 99]\<rparr>"
proof (rule user_diff_apply)
  show "prefix (events \<lparr>events = [Byte 97]\<rparr>) (events \<lparr>events = [Byte 97, Byte 98, Resize 80 24, Byte 99]\<rparr>)" by simp
  have "length (user_diff_from \<lparr>events = [Byte 97, Byte 98, Resize 80 24, Byte 99]\<rparr> \<lparr>events = [Byte 97]\<rparr>) = 22" by code_simp
  then show "length (user_diff_from \<lparr>events = [Byte 97, Byte 98, Resize 80 24, Byte 99]\<rparr> \<lparr>events = [Byte 97]\<rparr>) < 2 ^ 64"
    by simp
qed

text \<open>Rationalization is invisible: dropping the acknowledged prefix from both ends of a diff
  leaves its bytes unchanged, and never makes two different streams equal.\<close>

theorem user_subtract_invisible:
  assumes "prefix (events k) (events t)" and "prefix (events t) (events s)"
  shows "user_diff_from (user_subtract s k) (user_subtract t k) = user_diff_from s t
       \<and> (user_subtract s k = user_subtract t k \<longleftrightarrow> s = t)"
proof -
  from assms obtain es where es: "events s = events t @ es" by (auto elim: prefixE)
  from assms have k: "prefix (events k) (events s)" by (rule prefix_order.trans)
  have "events (user_subtract s k) = events (user_subtract t k) @ es"
    using us.subtract_view [OF k] us.subtract_view [OF assms(1)] es by simp
  then show ?thesis
    using us.subtract_inj [OF k assms(1)] by (simp only: user_diff_suffix [OF es] user_diff_suffix)
qed

theorem user_subtract_invisible_witness:
  "user_diff_from (user_subtract \<lparr>events = [Byte 1, Byte 2, Byte 3]\<rparr> \<lparr>events = [Byte 1]\<rparr>)
     (user_subtract \<lparr>events = [Byte 1, Byte 2]\<rparr> \<lparr>events = [Byte 1]\<rparr>)
   = user_diff_from \<lparr>events = [Byte 1, Byte 2, Byte 3]\<rparr> \<lparr>events = [Byte 1, Byte 2]\<rparr>"
  using user_subtract_invisible [of "\<lparr>events = [Byte 1]\<rparr>" "\<lparr>events = [Byte 1, Byte 2]\<rparr>" "\<lparr>events = [Byte 1, Byte 2, Byte 3]\<rparr>"]
  by simp

text \<open>The instructions a suffix is encoded as carry exactly its events in order, and are as few as
  possible: bytes typed without a resize between them share one keystroke instruction.\<close>

theorem coalescing_exact:
  "encode_suffix s from = user_encode \<lparr>user_instructions = foldl coalesce [] (drop from (events s))\<rparr>
   \<and> concat (map instruction_events (foldl coalesce [] (drop from (events s)))) = drop from (events s)
   \<and> run_length_coded (foldl coalesce [] (drop from (events s)))"
  using foldl_coalesce_run_length [of "[]"]
  by (simp add: encode_suffix_def foldl_coalesce_events run_length_coded_def)

end
