(* ===== verification/Fragments.thy ===== *)
theory Fragments
  imports Wire
begin

text \<open>
  \<^verbatim>\<open>src/fragment.rs\<close>: fragment framing, the fragmenter with its id-bump rule, and reassembly.

  zlib (crate \<open>flate2\<close>) is not part of the repository. \<open>zc\<close> is the \<open>ZlibEncoder\<close> run over a whole
  input; \<open>zr n\<close> is reading a \<open>ZlibDecoder\<close> to its end through \<open>take(n)\<close>: an error message, or the
  first \<open>n\<close> bytes of the inflated stream. The code relies on \<open>zlib_ok\<close>: inflating what was
  deflated gives the input back. \<open>usize\<close> lengths and the fragment budget are naturals.

  The lemmas show the framing round trip, that slicing produces well-formed fragment sequences
  (one id, consecutive indices, one final fragment, every piece within the budget), the id-bump
  rule, the bookkeeping invariant of reassembly on arbitrary (hostile) fragments, and that any
  arrival order with duplicates completes exactly once with the instruction that was sent.
\<close>

definition FRAG_HEADER_LEN :: nat where "FRAG_HEADER_LEN = 10"
definition DECOMPRESS_LIMIT :: nat where "DECOMPRESS_LIMIT = 4 * 1024 * 1024"
definition ASSEMBLY_LIMIT :: nat where "ASSEMBLY_LIMIT = 8 * 1024 * 1024"
definition MAX_FRAGMENT_INDEX :: u16 where "MAX_FRAGMENT_INDEX = 0x7FFF"

datatype fragment_error =
    TooShort
  | AssemblyTooLarge
  | IndexTooLarge
  | MtuTooSmall
  | Inflate string
  | Parse string

record fragment =
  frag_id :: u64
  fragment_num :: u16
  final :: bool
  contents :: bytes

definition fragment_tostring :: "fragment \<Rightarrow> bytes" where
  "fragment_tostring self =
     (let flags = push_bit 15 (of_bool (final self)) OR fragment_num self
      in be64 (frag_id self) @ be16 flags @ contents self)"

definition fragment_parse :: "bytes \<Rightarrow> fragment_error + fragment" where
  "fragment_parse bs =
     (if length bs < FRAG_HEADER_LEN then Inl TooShort
      else
        let i = rd64 (take 8 bs); flags = rd16 (take 2 (drop 8 bs))
        in Inr \<lparr>frag_id = i, fragment_num = flags AND 0x7FFF, final = (flags AND 0x8000 \<noteq> 0),
                contents = drop FRAG_HEADER_LEN bs\<rparr>)"

type_synonym zlib_read = "nat \<Rightarrow> bytes \<Rightarrow> string + bytes"

definition zlib_decompress :: "zlib_read \<Rightarrow> bytes \<Rightarrow> fragment_error + bytes" where
  "zlib_decompress zr input =
     (case zr (DECOMPRESS_LIMIT + 1) input of
        Inl e \<Rightarrow> Inl (Inflate e)
      | Inr out \<Rightarrow> if length out > DECOMPRESS_LIMIT then Inl AssemblyTooLarge else Inr out)"

definition zlib_ok :: "(bytes \<Rightarrow> bytes) \<Rightarrow> zlib_read \<Rightarrow> bool" where
  "zlib_ok zc zr \<longleftrightarrow> (\<forall>n x. zr n (zc x) = Inr (take n x))"

section \<open>Fragmenter\<close>

type_synonym frag_header = "u32 \<times> u64 \<times> u64 \<times> u64 \<times> u64 \<times> bytes"

record fragmenter =
  next_instruction_id :: u64
  last_header :: "frag_header option"
  last_mtu :: nat

definition fragmenter_default :: fragmenter where
  "fragmenter_default =
     \<lparr>next_instruction_id = 0, last_header = None, last_mtu = 2 ^ 64 - 1\<rparr>"

definition header_of :: "transport_instruction \<Rightarrow> frag_header" where
  "header_of inst =
     (protocol_version inst, old_num inst, new_num inst, ack_num inst, throwaway_num inst, chaff inst)"

text \<open>The slicing loop of \<open>make_fragments\<close>; \<open>acc\<close> is the vector of fragments pushed so far.\<close>

function slice_loop :: "u64 \<Rightarrow> nat \<Rightarrow> bytes \<Rightarrow> u16 \<Rightarrow> fragment list \<Rightarrow> fragment_error + fragment list" where
  "slice_loop i mtu rest index acc =
     (if index > MAX_FRAGMENT_INDEX then Inl IndexTooLarge
      else
        let (chunk, fin) = (if length rest > mtu then (take mtu rest, False) else (rest, True));
            acc' = acc @ [\<lparr>frag_id = i, fragment_num = index, final = fin, contents = chunk\<rparr>]
        in if fin then Inr acc' else slice_loop i mtu (drop (length chunk) rest) (index + 1) acc')"
  by pat_completeness auto
termination
proof (relation "measure (\<lambda>(i, mtu, rest, index, acc). 0x8000 - unat index)", goal_cases)
  case 1
  show ?case by simp
next
  case (2 i mtu rest index acc)
  then have "unat index \<le> 0x7FFF"
    by (simp add: MAX_FRAGMENT_INDEX_def not_less word_le_nat_alt)
  then show ?case by (simp add: unat_word_ariths)
qed

declare slice_loop.simps [simp del]

definition make_fragments ::
  "(bytes \<Rightarrow> bytes) \<Rightarrow> fragmenter \<Rightarrow> transport_instruction \<Rightarrow> nat
     \<Rightarrow> (fragment_error + fragment list) \<times> fragmenter" where
  "make_fragments zc self inst mtu0 =
     (let mtu = mtu0 - FRAG_HEADER_LEN in
      if mtu = 0 then (Inl MtuTooSmall, self)
      else
        let header = header_of inst;
            self1 = (if last_header self \<noteq> Some header \<or> last_mtu self \<noteq> mtu
                     then self\<lparr>next_instruction_id := next_instruction_id self + 1\<rparr> else self);
            self2 = self1\<lparr>last_header := Some header, last_mtu := mtu\<rparr>;
            payload = zc (transport_encode inst)
        in (slice_loop (next_instruction_id self2) mtu payload 0 [], self2))"

definition last_ack_sent :: "fragmenter \<Rightarrow> u64 option" where
  "last_ack_sent self = map_option (\<lambda>(_, _, _, a, _, _). a) (last_header self)"

section \<open>FragmentAssembly\<close>

record fragment_assembly =
  fragments :: "fragment option list"
  current_id :: u64
  fragments_arrived :: nat
  fragments_total :: "nat option"
  assembled_bytes :: nat

definition assembly_new :: fragment_assembly where
  "assembly_new =
     \<lparr>fragments = [], current_id = 0, fragments_arrived = 0, fragments_total = None, assembled_bytes = 0\<rparr>"

definition assembly_reset :: "fragment_assembly \<Rightarrow> fragment_assembly" where
  "assembly_reset self =
     self\<lparr>fragments := [], fragments_arrived := 0, fragments_total := None, assembled_bytes := 0\<rparr>"

text \<open>
  The loop of \<open>take_assembly\<close> over the slots: a hole, an oversized assembly (both end the call),
  or the concatenated payload with the new byte count.
\<close>

datatype take_result = Hole nat | Oversized nat | Whole bytes nat

fun take_loop :: "fragment option list \<Rightarrow> bytes \<Rightarrow> nat \<Rightarrow> take_result" where
  "take_loop [] encoded n = Whole encoded n"
| "take_loop (None # slots) encoded n = Hole n"
| "take_loop (Some frag # slots) encoded n =
     (if n + length (contents frag) > ASSEMBLY_LIMIT then Oversized n
      else take_loop slots (encoded @ contents frag) (n + length (contents frag)))"

definition take_assembly ::
  "zlib_read \<Rightarrow> fragment_assembly \<Rightarrow> transport_instruction option \<times> fragment_assembly" where
  "take_assembly zr self =
     (case take_loop (fragments self) [] (assembled_bytes self) of
        Hole n \<Rightarrow> (None, assembly_reset (self\<lparr>assembled_bytes := n\<rparr>))
      | Oversized n \<Rightarrow> (None, assembly_reset (self\<lparr>assembled_bytes := n\<rparr>))
      | Whole encoded n \<Rightarrow>
          let self' = self\<lparr>assembled_bytes := n\<rparr> in
          (case zlib_decompress zr encoded of
             Inl _ \<Rightarrow> (None, self')
           | Inr inflated \<Rightarrow>
               (case transport_decode inflated of
                  Inl _ \<Rightarrow> (None, self')
                | Inr inst \<Rightarrow> (Some inst, assembly_reset self'))))"

text \<open>\<open>Vec::resize(n, None)\<close> where it only grows the vector.\<close>

definition grow :: "nat \<Rightarrow> 'a option list \<Rightarrow> 'a option list" where
  "grow n xs = xs @ replicate (n - length xs) None"

text \<open>
  The first half of \<open>add_fragment\<close>, storing the fragment in its slot: \<open>None\<close> is the early return
  for a conflicting retransmission.
\<close>

definition store_fragment :: "fragment_assembly \<Rightarrow> fragment \<Rightarrow> fragment_assembly option" where
  "store_fragment self frag =
     (let idx = unat (fragment_num frag) in
      if current_id self \<noteq> frag_id frag then
        Some (self\<lparr>fragments := (replicate (idx + 1) None)[idx := Some frag], fragments_arrived := 1,
                   fragments_total := None, assembled_bytes := 0, current_id := frag_id frag\<rparr>)
      else
        let slots = (if idx \<ge> length (fragments self) then grow (idx + 1) (fragments self)
                     else fragments self)
        in (case slots ! idx of
              Some existing \<Rightarrow>
                if existing \<noteq> frag then None else Some (self\<lparr>fragments := slots\<rparr>)
            | None \<Rightarrow>
                Some (self\<lparr>fragments := slots[idx := Some frag],
                           fragments_arrived := fragments_arrived self + 1\<rparr>)))"

text \<open>The final fragment fixes the total, truncating and recounting when fragments lie beyond it.\<close>

definition note_final :: "fragment_assembly \<Rightarrow> fragment \<Rightarrow> fragment_assembly" where
  "note_final self frag =
     (if final frag then
        let tot = unat (fragment_num frag) + 1;
            self1 = (if tot < length (fragments self) then
                       let kept = take tot (fragments self)
                       in self\<lparr>fragments := kept, fragments_arrived := length (filter (\<lambda>f. f \<noteq> None) kept)\<rparr>
                     else self)
        in self1\<lparr>fragments_total := Some tot\<rparr>
      else self)"

definition add_fragment ::
  "zlib_read \<Rightarrow> fragment_assembly \<Rightarrow> fragment \<Rightarrow> transport_instruction option \<times> fragment_assembly" where
  "add_fragment zr self frag =
     (case store_fragment self frag of
        None \<Rightarrow> (None, self)
      | Some self1 \<Rightarrow>
          let self2 = note_final self1 frag in
          (case fragments_total self2 of
             None \<Rightarrow> (None, self2)
           | Some tot \<Rightarrow>
               if fragments_arrived self2 = tot then take_assembly zr self2 else (None, self2)))"

section \<open>Framing round trip\<close>

lemma bit_8000: "bit (0x8000 :: u16) n \<longleftrightarrow> n = 15"
  by auto

lemma mask_7FFF: "(0x7FFF :: u16) = mask 15"
  by (simp add: mask_eq_exp_minus_1)

lemma low_num: "num \<le> 0x7FFF \<Longrightarrow> bit (num :: u16) n \<Longrightarrow> n < 15"
proof -
  assume "num \<le> 0x7FFF" and b: "bit num n"
  then have "num < 2 ^ 15" by (simp add: word_le_nat_alt word_less_nat_alt)
  then have "take_bit 15 num = num" by (simp only: take_bit_eq_mod mod_word_less)
  with b show "n < 15" by (metis bit_take_bit_iff)
qed

lemma bit_final_flag: "bit (push_bit 15 (of_bool b) :: u16) n \<longleftrightarrow> b \<and> n = 15"
  by (cases b) (auto simp: bit_8000)

lemma flag_bits:
  fixes num :: u16
  assumes "num \<le> 0x7FFF"
  shows "(push_bit 15 (of_bool b) OR num) AND 0x7FFF = num"
    and "(push_bit 15 (of_bool b) OR num) AND 0x8000 \<noteq> 0 \<longleftrightarrow> b"
proof -
  show "(push_bit 15 (of_bool b) OR num) AND 0x7FFF = num"
    using low_num [OF assms]
    by (intro bit_word_eqI) (auto simp: mask_7FFF bit_and_iff bit_or_iff bit_final_flag bit_mask_iff)
  have "(push_bit 15 (of_bool b) OR num) AND 0x8000 = (if b then 0x8000 else 0)"
  proof (rule bit_word_eqI)
    fix n
    show "bit ((push_bit 15 (of_bool b) OR num) AND 0x8000) n = bit (if b then 0x8000 else (0 :: u16)) n"
      unfolding bit_and_iff bit_or_iff bit_final_flag bit_8000
      using low_num [OF assms, of n] by (auto simp: bit_8000)
  qed
  then show "(push_bit 15 (of_bool b) OR num) AND 0x8000 \<noteq> 0 \<longleftrightarrow> b" by simp
qed

lemma flags_split: "push_bit 15 (of_bool (flags AND 0x8000 \<noteq> 0)) OR (flags AND 0x7FFF) = (flags :: u16)"
proof -
  have top: "flags AND 0x8000 \<noteq> 0 \<longleftrightarrow> bit flags 15"
  proof
    assume "flags AND 0x8000 \<noteq> 0"
    then obtain n where "bit (flags AND 0x8000) n" by (metis bit_0_eq bit_eqI bot_apply bot_bool_def)
    then show "bit flags 15" by (auto simp: bit_and_iff bit_8000)
  next
    assume "bit flags 15"
    then have "bit (flags AND 0x8000) 15" by (simp add: bit_and_iff bit_8000)
    then show "flags AND 0x8000 \<noteq> 0" by (metis bit_0_eq bot_apply bot_bool_def)
  qed
  show ?thesis
  proof (rule bit_word_eqI)
    fix n :: nat assume "n < LENGTH(16)"
    then have "n < 15 \<or> n = 15" by auto
    then show "bit (push_bit 15 (of_bool (flags AND 0x8000 \<noteq> 0)) OR (flags AND 0x7FFF)) n = bit flags n"
      unfolding bit_or_iff bit_and_iff bit_final_flag top mask_7FFF bit_mask_iff by auto
  qed
qed

lemma fragment_parse_tostring [codec_simps]:
  assumes "fragment_num f \<le> MAX_FRAGMENT_INDEX"
  shows "fragment_parse (fragment_tostring f) = Inr f"
  using assms
  by (simp add: fragment_parse_def fragment_tostring_def FRAG_HEADER_LEN_def MAX_FRAGMENT_INDEX_def
      codec_simps flag_bits Let_def)

lemma fragment_tostring_parse:
  assumes "fragment_parse bs = Inr f"
  shows "fragment_tostring f = bs \<and> fragment_num f \<le> MAX_FRAGMENT_INDEX"
proof -
  let ?flags = "rd16 (take 2 (drop 8 bs))"
  from assms have len: "10 \<le> length bs" and f: "f = \<lparr>frag_id = rd64 (take 8 bs),
      fragment_num = ?flags AND 0x7FFF, final = (?flags AND 0x8000 \<noteq> 0), contents = drop 10 bs\<rparr>"
    by (auto simp: fragment_parse_def FRAG_HEADER_LEN_def Let_def split: if_splits)
  have "be64 (rd64 (take 8 bs)) = take 8 bs" "be16 ?flags = take 2 (drop 8 bs)"
    using len by (simp_all add: codec_simps)
  moreover have "take 8 bs @ take 2 (drop 8 bs) @ drop 10 bs = bs"
  proof -
    have "drop 10 bs = drop 2 (drop 8 bs)" by simp
    then show ?thesis by (simp only: append_take_drop_id)
  qed
  ultimately show ?thesis
    by (simp add: f fragment_tostring_def flags_split [simplified] MAX_FRAGMENT_INDEX_def word_and_le1)
qed

section \<open>Slicing\<close>

text \<open>
  \<open>numbered i b frs\<close>: all fragments carry id \<open>i\<close>, the indices count up from \<open>b\<close>, and exactly the
  last one is final.
\<close>

definition numbered :: "u64 \<Rightarrow> nat \<Rightarrow> fragment list \<Rightarrow> bool" where
  "numbered i b frs \<longleftrightarrow> frs \<noteq> [] \<and>
     (\<forall>k < length frs. frag_id (frs ! k) = i \<and> unat (fragment_num (frs ! k)) = b + k \<and>
        (final (frs ! k) \<longleftrightarrow> Suc k = length frs))"

lemma numbered_single:
  "frag_id f = i \<Longrightarrow> unat (fragment_num f) = b \<Longrightarrow> final f \<Longrightarrow> numbered i b [f]"
  by (simp add: numbered_def)

lemma numbered_Cons:
  assumes "frag_id f = i" "unat (fragment_num f) = b" "\<not> final f" "numbered i (Suc b) frs"
  shows "numbered i b (f # frs)"
  using assms by (auto simp: numbered_def nth_Cons split: nat.splits)

lemma index_small: "\<not> index > MAX_FRAGMENT_INDEX \<Longrightarrow> unat index \<le> 0x7FFF \<and> unat (index + 1) = unat index + 1"
  by (simp add: MAX_FRAGMENT_INDEX_def not_less word_le_nat_alt unat_word_ariths)

lemma slice_loop_sound:
  assumes "slice_loop i mtu rest index acc = Inr frs"
  shows "\<exists>new. frs = acc @ new \<and> numbered i (unat index) new \<and> concat (map contents new) = rest \<and>
           (\<forall>f \<in> set new. length (contents f) \<le> mtu) \<and> unat index + length new \<le> 0x8000"
  using assms
proof (induction i mtu rest index acc rule: slice_loop.induct)
  case (1 i mtu rest index acc)
  let ?f = "\<lambda>fin c. \<lparr>frag_id = i, fragment_num = index, final = fin, contents = c\<rparr>"
  from "1.prems" have ok: "\<not> index > MAX_FRAGMENT_INDEX"
    by (subst (asm) slice_loop.simps) (auto split: if_splits)
  note small = index_small [OF ok]
  show ?case
  proof (cases "length rest > mtu")
    case False
    with "1.prems" ok have "frs = acc @ [?f True rest]"
      by (subst (asm) slice_loop.simps) (simp add: Let_def)
    with False small show ?thesis
      by (intro exI [of _ "[?f True rest]"]) (simp add: numbered_single)
  next
    case True
    have rec: "slice_loop i mtu (drop mtu rest) (index + 1) (acc @ [?f False (take mtu rest)]) = Inr frs"
      using "1.prems" ok True by (subst (asm) slice_loop.simps) (simp add: Let_def min_absorb2)
    have "\<exists>new. frs = (acc @ [?f False (take mtu rest)]) @ new \<and> numbered i (unat (index + 1)) new \<and>
        concat (map contents new) = drop mtu rest \<and>
        (\<forall>f \<in> set new. length (contents f) \<le> mtu) \<and> unat (index + 1) + length new \<le> 0x8000"
      using "1.IH" [OF ok, of "(take mtu rest, False)" "take mtu rest" False] True rec
      by (simp add: min_absorb2)
    then obtain new where new: "frs = (acc @ [?f False (take mtu rest)]) @ new"
        "numbered i (unat (index + 1)) new" "concat (map contents new) = drop mtu rest"
        "\<forall>f \<in> set new. length (contents f) \<le> mtu" "unat (index + 1) + length new \<le> 0x8000"
      by blast
    with small show ?thesis
      by (intro exI [of _ "?f False (take mtu rest) # new"]) (simp add: numbered_Cons)
  qed
qed

lemma slice_loop_total:
  assumes "0 < mtu" and "index \<le> MAX_FRAGMENT_INDEX" and "length rest \<le> mtu * (0x8000 - unat index)"
  shows "\<exists>frs. slice_loop i mtu rest index acc = Inr frs"
  using assms
proof (induction i mtu rest index acc rule: slice_loop.induct)
  case (1 i mtu rest index acc)
  then have ok: "\<not> index > MAX_FRAGMENT_INDEX" by simp
  note small = index_small [OF ok]
  show ?case
  proof (cases "length rest > mtu")
    case False
    with ok show ?thesis by (subst slice_loop.simps) (simp add: Let_def)
  next
    case True
    with "1.prems" small have "unat index < 0x7FFF"
      by (cases "unat index = 0x7FFF") auto
    then have idx: "index + 1 \<le> MAX_FRAGMENT_INDEX"
      using small by (simp add: MAX_FRAGMENT_INDEX_def word_le_nat_alt)
    have "length (drop mtu rest) \<le> mtu * (0x8000 - unat (index + 1))"
      using "1.prems"(3) small by (simp add: diff_mult_distrib2)
    with idx "1.prems"(1) True
      "1.IH" [OF ok, of "(take mtu rest, False)" "take mtu rest" False]
    show ?thesis
      by (subst slice_loop.simps) (simp add: Let_def min_absorb2 ok)
  qed
qed

section \<open>Reassembly of one instruction\<close>

lemma numbered_index:
  assumes "numbered i 0 frs" and "f \<in> set frs"
  shows "unat (fragment_num f) < length frs" and "frs ! unat (fragment_num f) = f"
    and "frag_id f = i" and "final f \<longleftrightarrow> Suc (unat (fragment_num f)) = length frs"
  using assms by (auto simp: numbered_def in_set_conv_nth)

lemma numbered_distinct: "numbered i 0 frs \<Longrightarrow> distinct frs"
  unfolding distinct_conv_nth numbered_def by (metis add_0)

text \<open>
  \<open>progress i frs S a\<close>: the assembly \<open>a\<close> is collecting the fragments \<open>frs\<close> of instruction id \<open>i\<close>
  and holds exactly those in \<open>S\<close>, each in its slot, with the counters to match.
\<close>

definition progress :: "u64 \<Rightarrow> fragment list \<Rightarrow> fragment set \<Rightarrow> fragment_assembly \<Rightarrow> bool" where
  "progress i frs S a \<longleftrightarrow>
     current_id a = i \<and> S \<subseteq> set frs \<and> length (fragments a) \<le> length frs \<and>
     (\<forall>k < length (fragments a). fragments a ! k = (if frs ! k \<in> S then Some (frs ! k) else None)) \<and>
     (\<forall>k < length frs. frs ! k \<in> S \<longrightarrow> k < length (fragments a)) \<and>
     fragments_arrived a = card S \<and>
     fragments_total a = (if last frs \<in> S then Some (length frs) else None) \<and>
     assembled_bytes a = 0"

definition clean :: "fragment_assembly \<Rightarrow> bool" where
  "clean a \<longleftrightarrow> fragments a = [] \<and> fragments_arrived a = 0 \<and> fragments_total a = None \<and> assembled_bytes a = 0"

lemma clean_reset [simp]: "clean (assembly_reset a)"
  by (simp add: clean_def assembly_reset_def)

lemma clean_new [simp]: "clean assembly_new"
  by (simp add: clean_def assembly_new_def)

lemma clean_progress: "clean a \<Longrightarrow> current_id a = i \<Longrightarrow> progress i frs {} a"
  by (simp add: clean_def progress_def)

text \<open>A fragment of another id starts over, as if the assembly had been reset for that id.\<close>

definition restart :: "u64 \<Rightarrow> fragment_assembly \<Rightarrow> fragment_assembly" where
  "restart i a = (assembly_reset a)\<lparr>current_id := i\<rparr>"

lemma fresh_slot: "(None # replicate n None) ! n = None"
  by (induction n) simp_all

lemma store_restart:
  assumes "current_id a \<noteq> frag_id f"
  shows "store_fragment a f = store_fragment (restart (frag_id f) a) f"
    and "store_fragment a f \<noteq> None"
  using assms
  by (simp_all add: store_fragment_def restart_def assembly_reset_def grow_def fresh_slot Let_def)

lemma add_fragment_restart:
  "current_id a \<noteq> frag_id f \<Longrightarrow> add_fragment zr a f = add_fragment zr (restart (frag_id f) a) f"
  using store_restart [of a f] by (auto simp: add_fragment_def)

lemma progress_restart: "progress i frs {} (restart i a)"
  by (rule clean_progress) (simp_all add: restart_def clean_def assembly_reset_def)

lemma last_numbered: "numbered i 0 frs \<Longrightarrow> f \<in> set frs \<Longrightarrow> f = last frs \<longleftrightarrow> final f"
proof -
  assume n: "numbered i 0 frs" and f: "f \<in> set frs"
  have ne: "frs \<noteq> []" using n by (simp add: numbered_def)
  from numbered_index [OF n f] have "final f \<longleftrightarrow> unat (fragment_num f) = length frs - 1" by auto
  with numbered_index(1,2) [OF n f] numbered_distinct [OF n] ne show ?thesis
    by (metis diff_less last_conv_nth length_greater_0_conv nth_eq_iff_index_eq zero_less_one)
qed

lemma store_progress:
  assumes n: "numbered i 0 frs" and p: "progress i frs S a" and f: "f \<in> set frs"
  obtains a1 where "store_fragment a f = Some a1" and "progress i frs (insert f S) (note_final a1 f)"
proof -
  let ?k = "unat (fragment_num f)"
  let ?slots = "if ?k \<ge> length (fragments a) then grow (?k + 1) (fragments a) else fragments a"
  note ix = numbered_index [OF n f]
  have fin: "finite S" using p by (auto simp: progress_def intro: finite_subset)
  have id: "current_id a = frag_id f" using p ix by (simp add: progress_def)
  have kin: "?k < length ?slots" and lens: "length ?slots \<le> length frs"
    using p ix(1) by (auto simp: grow_def progress_def)
  have slot: "?slots ! j = (if frs ! j \<in> S then Some (frs ! j) else None)" if "j < length ?slots" for j
    using p that lens by (auto simp: progress_def grow_def nth_append nth_replicate)
  have covers: "frs ! j \<in> insert f S \<Longrightarrow> j < length ?slots" if "j < length frs" for j
    using p that kin ix numbered_distinct [OF n]
    by (auto simp: progress_def grow_def nth_eq_iff_index_eq)
  have upd: "(?slots[?k := Some f]) ! j = (if frs ! j \<in> insert f S then Some (frs ! j) else None)"
    if "j < length ?slots" for j
    using slot [OF that] that lens ix numbered_distinct [OF n]
    by (cases "j = ?k") (auto simp: nth_eq_iff_index_eq dest: less_le_trans)
  have tot: "note_final b f = (if final f then b\<lparr>fragments_total := Some (length frs)\<rparr> else b)"
    if "length (fragments b) \<le> length frs" for b
    using that ix(4) by (simp add: note_final_def Let_def)
  show thesis
  proof (cases "f \<in> S")
    case True
    then have "?slots ! ?k = Some f" using slot [OF kin] ix by simp
    then have st: "store_fragment a f = Some (a\<lparr>fragments := ?slots\<rparr>)"
      using id by (simp add: store_fragment_def Let_def)
    show thesis
      by (rule that [OF st])
        (use True p slot covers lens tot last_numbered [OF n f] in
          \<open>auto simp: progress_def insert_absorb\<close>)
  next
    case False
    then have "?slots ! ?k = None" using slot [OF kin] ix by simp
    then have st: "store_fragment a f = Some (a\<lparr>fragments := ?slots[?k := Some f],
        fragments_arrived := fragments_arrived a + 1\<rparr>)"
      using id by (simp add: store_fragment_def Let_def)
    show thesis
      by (rule that [OF st])
        (use False p upd covers lens tot last_numbered [OF n f] f fin in
          \<open>auto simp: progress_def\<close>)
  qed
qed

lemma progress_complete_iff:
  assumes "numbered i 0 frs" and "progress i frs S a"
  shows "fragments_total a = Some (fragments_arrived a) \<longleftrightarrow> S = set frs"
proof -
  have sub: "S \<subseteq> set frs" and arr: "fragments_arrived a = card S"
    and tot: "fragments_total a = (if last frs \<in> S then Some (length frs) else None)"
    using assms(2) by (auto simp: progress_def)
  have len: "card (set frs) = length frs"
    by (rule distinct_card [OF numbered_distinct [OF assms(1)]])
  have "last frs \<in> set frs" using assms(1) by (simp add: numbered_def)
  with sub arr tot len show ?thesis
    using card_subset_eq [OF finite_set sub] by auto
qed

lemma progress_full:
  assumes "numbered i 0 frs" and "progress i frs (set frs) a"
  shows "fragments a = map Some frs"
proof (rule nth_equalityI)
  have "frs \<noteq> []" using assms(1) by (simp add: numbered_def)
  then have "length frs - 1 < length (fragments a)"
    using assms(2) by (simp add: progress_def)
  then show "length (fragments a) = length (map Some frs)"
    using assms(2) by (auto simp: progress_def)
  then show "\<And>k. k < length (fragments a) \<Longrightarrow> fragments a ! k = map Some frs ! k"
    using assms(2) by (auto simp: progress_def)
qed

lemma take_loop_whole:
  "n + length (concat (map contents frs)) \<le> ASSEMBLY_LIMIT \<Longrightarrow>
     take_loop (map Some frs) encoded n
       = Whole (encoded @ concat (map contents frs)) (n + length (concat (map contents frs)))"
  by (induction frs arbitrary: encoded n) simp_all

text \<open>An instruction as sent: its fragments, with the sizes within the receiver's caps.\<close>

definition sent_as :: "(bytes \<Rightarrow> bytes) \<Rightarrow> u64 \<Rightarrow> transport_instruction \<Rightarrow> fragment list \<Rightarrow> bool" where
  "sent_as zc i inst frs \<longleftrightarrow>
     numbered i 0 frs \<and> concat (map contents frs) = zc (transport_encode inst) \<and>
     length (zc (transport_encode inst)) \<le> ASSEMBLY_LIMIT \<and>
     length (transport_encode inst) \<le> DECOMPRESS_LIMIT"

lemma zlib_decompress_compress:
  "zlib_ok zc zr \<Longrightarrow> length x \<le> DECOMPRESS_LIMIT \<Longrightarrow> zlib_decompress zr (zc x) = Inr x"
  by (simp add: zlib_ok_def zlib_decompress_def)

lemma decode_within_limit:
  "length (transport_encode inst) \<le> DECOMPRESS_LIMIT \<Longrightarrow> transport_decode (transport_encode inst) = Inr inst"
  by (rule transport_codec.decode_encode) (simp add: DECOMPRESS_LIMIT_def)

lemma take_assembly_full:
  assumes "zlib_ok zc zr" and "sent_as zc i inst frs" and "progress i frs (set frs) a"
  shows "fst (take_assembly zr a) = Some inst \<and> clean (snd (take_assembly zr a)) \<and>
         current_id (snd (take_assembly zr a)) = i"
proof -
  have n: "numbered i 0 frs" and c: "concat (map contents frs) = zc (transport_encode inst)"
    and lz: "length (zc (transport_encode inst)) \<le> ASSEMBLY_LIMIT"
    and le: "length (transport_encode inst) \<le> DECOMPRESS_LIMIT"
    using assms(2) by (auto simp: sent_as_def)
  have z: "assembled_bytes a = 0" and cid: "current_id a = i"
    using assms(3) by (auto simp: progress_def)
  have "take_loop (fragments a) [] (assembled_bytes a)
      = Whole (zc (transport_encode inst)) (length (zc (transport_encode inst)))"
    using take_loop_whole [of 0 frs "[]"] c lz by (simp add: z progress_full [OF n assms(3)])
  then show ?thesis
    using zlib_decompress_compress [OF assms(1) le] decode_within_limit [OF le] cid
    by (simp add: take_assembly_def Let_def) (simp add: assembly_reset_def)
qed

text \<open>One fragment of an instruction in progress: either it completes the set, and the call returns
  the instruction and resets, or it is one step of progress and the call returns nothing.\<close>

lemma add_fragment_progress:
  assumes z: "zlib_ok zc zr" and s: "sent_as zc i inst frs"
    and p: "progress i frs S a" and f: "f \<in> set frs"
  shows "if insert f S = set frs
         then fst (add_fragment zr a f) = Some inst \<and> clean (snd (add_fragment zr a f)) \<and>
              current_id (snd (add_fragment zr a f)) = i
         else fst (add_fragment zr a f) = None \<and> progress i frs (insert f S) (snd (add_fragment zr a f))"
proof -
  have n: "numbered i 0 frs" using s by (simp add: sent_as_def)
  obtain a1 where a1: "store_fragment a f = Some a1"
    and p1: "progress i frs (insert f S) (note_final a1 f)"
    by (rule store_progress [OF n p f])
  note done_iff = progress_complete_iff [OF n p1]
  show ?thesis
  proof (cases "insert f S = set frs")
    case True
    with a1 done_iff have "add_fragment zr a f = take_assembly zr (note_final a1 f)"
      by (simp add: add_fragment_def Let_def)
    with True p1 take_assembly_full [OF z s] show ?thesis by simp
  next
    case False
    with a1 done_iff have "add_fragment zr a f = (None, note_final a1 f)"
      by (auto simp: add_fragment_def Let_def split: option.splits)
    with False p1 show ?thesis by simp
  qed
qed

text \<open>Feeding a sequence of fragments, collecting what each call returns.\<close>

fun feed :: "zlib_read \<Rightarrow> fragment_assembly \<Rightarrow> fragment list
    \<Rightarrow> transport_instruction option list \<times> fragment_assembly" where
  "feed zr a [] = ([], a)"
| "feed zr a (f # fs) =
     (case add_fragment zr a f of (r, a') \<Rightarrow> (case feed zr a' fs of (rs, a'') \<Rightarrow> (r # rs, a'')))"

lemma feed_progress:
  assumes "zlib_ok zc zr" and "sent_as zc i inst frs"
    and "progress i frs S a" and "set fs \<subseteq> set frs" and "S \<union> set fs \<subset> set frs"
  shows "fst (feed zr a fs) = replicate (length fs) None \<and> progress i frs (S \<union> set fs) (snd (feed zr a fs))"
  using assms(3-)
proof (induction fs arbitrary: S a)
  case Nil
  then show ?case by simp
next
  case (Cons f fs)
  have ne: "insert f S \<noteq> set frs" and sub: "insert f S \<union> set fs \<subset> set frs"
    using Cons.prems by auto
  obtain r a' where add: "add_fragment zr a f = (r, a')" by fastforce
  have "r = None" and p': "progress i frs (insert f S) a'"
    using add_fragment_progress [OF assms(1,2) Cons.prems(1), of f] Cons.prems(2) ne add by auto
  with Cons.IH [OF p' _ sub] Cons.prems(2) add show ?case
    by (auto split: prod.splits)
qed

lemma feed_append:
  "feed zr a (fs @ gs) =
     (case feed zr a fs of (rs, a') \<Rightarrow> (case feed zr a' gs of (ss, a'') \<Rightarrow> (rs @ ss, a'')))"
  by (induction fs arbitrary: a) (auto split: prod.splits)

lemma feed_restart:
  assumes "fs \<noteq> []" and "\<forall>f \<in> set fs. frag_id f = i" and "current_id a \<noteq> i"
  shows "feed zr a fs = feed zr (restart i a) fs"
  using assms add_fragment_restart [of a "hd fs" zr] by (cases fs) auto

lemma numbered_ids: "numbered i 0 frs \<Longrightarrow> f \<in> set frs \<Longrightarrow> frag_id f = i"
  by (rule numbered_index(3))

lemma feed_completes:
  assumes "zlib_ok zc zr" and s: "sent_as zc i inst frs" and "progress i frs {} a"
    and "set fs \<subset> set frs" and "insert f (set fs) = set frs"
  shows "fst (feed zr a (fs @ [f])) = replicate (length fs) None @ [Some inst] \<and> clean (snd (feed zr a (fs @ [f])))"
proof -
  obtain rs a' where fd: "feed zr a fs = (rs, a')" by fastforce
  from feed_progress [OF assms(1,2,3), of fs] assms(4) fd
  have rs: "rs = replicate (length fs) None" and p: "progress i frs (set fs) a'"
    by auto
  obtain r a'' where ad: "add_fragment zr a' f = (r, a'')" by fastforce
  have "f \<in> set frs" using assms(5) by blast
  then have "r = Some inst" "clean a''"
    using add_fragment_progress [OF assms(1,2) p, of f] assms(5) ad by auto
  with fd ad rs show ?thesis by (simp add: feed_append)
qed

lemma feed_any_order:
  assumes "zlib_ok zc zr" and "sent_as zc i inst frs" and "current_id a \<noteq> i \<or> clean a"
    and "set fs \<subset> set frs" and "insert f (set fs) = set frs"
  shows "fst (feed zr a (fs @ [f])) = replicate (length fs) None @ [Some inst] \<and> clean (snd (feed zr a (fs @ [f])))"
proof (cases "current_id a = i")
  case True
  with assms(3) have "progress i frs {} a" by (simp add: clean_progress)
  then show ?thesis by (rule feed_completes [OF assms(1,2) _ assms(4,5)])
next
  case False
  have "\<forall>g \<in> set (fs @ [f]). frag_id g = i"
    using assms(2,4,5) numbered_ids by (auto simp: sent_as_def)
  with False have "feed zr a (fs @ [f]) = feed zr (restart i a) (fs @ [f])"
    by (intro feed_restart) simp_all
  then show ?thesis
    using feed_completes [OF assms(1,2) progress_restart assms(4,5)] by simp
qed

text \<open>C19: Reassembly tolerates any arrival order and any duplication: feeding fragments of one sent
  instruction, in any order and repeated at will, returns nothing until the last missing one
  arrives, and that call returns exactly the instruction that was sent.\<close>

theorem any_order_reassembly:
  assumes "zlib_ok zc zr" and "sent_as zc i inst frs" and "current_id a \<noteq> i \<or> clean a"
    and "set fs \<subset> set frs" and "insert f (set fs) = set frs"
  shows "fst (feed zr a (fs @ [f])) = replicate (length fs) None @ [Some inst]"
  using feed_any_order [OF assms] ..

section \<open>From the fragmenter\<close>

lemma make_fragments_sent:
  assumes "make_fragments zc self inst mtu = (Inr frs, self')"
    and "length (zc (transport_encode inst)) \<le> ASSEMBLY_LIMIT"
    and "length (transport_encode inst) \<le> DECOMPRESS_LIMIT"
  shows "sent_as zc (next_instruction_id self') inst frs"
proof -
  from assms(1) have "slice_loop (next_instruction_id self') (mtu - FRAG_HEADER_LEN)
      (zc (transport_encode inst)) 0 [] = Inr frs"
    by (auto simp: make_fragments_def Let_def split: if_splits)
  from slice_loop_sound [OF this] assms(2,3) show ?thesis
    by (auto simp: sent_as_def)
qed

lemma make_fragments_each:
  assumes "make_fragments zc self inst mtu = (Inr frs, self')" and "f \<in> set frs"
  shows "length (contents f) + FRAG_HEADER_LEN \<le> mtu \<and> fragment_num f \<le> MAX_FRAGMENT_INDEX"
proof -
  from assms(1) have sl: "slice_loop (next_instruction_id self') (mtu - FRAG_HEADER_LEN)
      (zc (transport_encode inst)) 0 [] = Inr frs" and mtu: "FRAG_HEADER_LEN < mtu"
    by (auto simp: make_fragments_def Let_def split: if_splits)
  from slice_loop_sound [OF sl] have n: "numbered (next_instruction_id self') 0 frs"
    and c: "length (contents f) \<le> mtu - FRAG_HEADER_LEN" and l: "length frs \<le> 0x8000"
    using assms(2) by auto
  have "unat (fragment_num f) \<le> 0x7FFF"
    using numbered_index(1) [OF n assms(2)] l by simp
  with c mtu show ?thesis
    by (simp add: MAX_FRAGMENT_INDEX_def word_le_nat_alt)
qed

lemma length_fragment_tostring: "length (fragment_tostring f) = FRAG_HEADER_LEN + length (contents f)"
  by (simp add: fragment_tostring_def FRAG_HEADER_LEN_def Let_def)

text \<open>An instance of the zlib contract (stored, not deflated) and a small sent instruction.\<close>

definition toy_zr :: zlib_read where
  "toy_zr n x = Inr (take n x)"

lemma toy_zlib_ok: "zlib_ok (\<lambda>x. x) toy_zr"
  by (simp add: zlib_ok_def toy_zr_def)

definition toy_frag :: "u16 \<Rightarrow> bool \<Rightarrow> bytes \<Rightarrow> fragment" where
  "toy_frag n fin c = \<lparr>frag_id = 1, fragment_num = n, final = fin, contents = c\<rparr>"

lemma toy_encoded: "transport_encode transport_default = [8, 0, 16, 0, 24, 0, 32, 0, 40, 0, 50, 0, 58, 0]"
  by code_simp

lemma toy_make:
  "make_fragments (\<lambda>x. x) fragmenter_default transport_default 20 =
     (Inr [toy_frag 0 False [8, 0, 16, 0, 24, 0, 32, 0, 40, 0], toy_frag 1 True [50, 0, 58, 0]],
      \<lparr>next_instruction_id = 1, last_header = Some (header_of transport_default), last_mtu = 10\<rparr>)"
  by (simp add: make_fragments_def fragmenter_default_def toy_encoded slice_loop.simps Let_def
      FRAG_HEADER_LEN_def toy_frag_def MAX_FRAGMENT_INDEX_def)

lemma toy_sent:
  "sent_as (\<lambda>x. x) 1 transport_default
     [toy_frag 0 False [8, 0, 16, 0, 24, 0, 32, 0, 40, 0], toy_frag 1 True [50, 0, 58, 0]]"
  using make_fragments_sent [OF toy_make]
  by (simp add: toy_encoded ASSEMBLY_LIMIT_def DECOMPRESS_LIMIT_def)

theorem any_order_reassembly_witness:
  "fst (feed toy_zr assembly_new
     [toy_frag 1 True [50, 0, 58, 0], toy_frag 1 True [50, 0, 58, 0],
      toy_frag 0 False [8, 0, 16, 0, 24, 0, 32, 0, 40, 0]]) = [None, None, Some transport_default]"
  using any_order_reassembly [OF toy_zlib_ok toy_sent, of assembly_new
      "[toy_frag 1 True [50, 0, 58, 0], toy_frag 1 True [50, 0, 58, 0]]"
      "toy_frag 0 False [8, 0, 16, 0, 24, 0, 32, 0, 40, 0]"]
  by (auto simp: assembly_new_def clean_def toy_frag_def)

text \<open>Framing is a bijection between the byte strings that parse and the fragments whose index
  fits 15 bits: parsing inverts printing and printing inverts parsing.\<close>

theorem framing_round_trip:
  "fragment_parse bs = Inr f \<longleftrightarrow> fragment_num f \<le> MAX_FRAGMENT_INDEX \<and> fragment_tostring f = bs"
  using fragment_tostring_parse fragment_parse_tostring by blast

lemma slice_loop_error: "slice_loop i mtu rest index acc = Inl e \<Longrightarrow> e = IndexTooLarge"
proof (induction i mtu rest index acc rule: slice_loop.induct)
  case (1 i mtu rest index acc)
  from "1.prems" "1.IH" show ?case
    by (subst (asm) slice_loop.simps) (auto simp: Let_def split: if_splits)
qed

lemma numbered_pieces:
  "\<forall>f \<in> set frs. length (contents f) \<le> m \<Longrightarrow> length (concat (map contents frs)) \<le> m * length frs"
  by (induction frs) (auto simp: algebra_simps intro: add_mono)

text \<open>\<open>make_fragments\<close> on every branch: it refuses exactly a budget that cannot hold the header,
  it refuses exactly the payloads that need more than 32768 pieces, and otherwise the pieces
  concatenate to the compressed instruction, each datagram payload within the budget.\<close>

theorem make_fragments_branches:
  assumes mk: "make_fragments zc self inst mtu = (r, self')"
  shows "(r = Inl MtuTooSmall \<longleftrightarrow> mtu \<le> FRAG_HEADER_LEN) \<and>
     (r = Inl IndexTooLarge \<longleftrightarrow> FRAG_HEADER_LEN < mtu \<and>
        (mtu - FRAG_HEADER_LEN) * 0x8000 < length (zc (transport_encode inst))) \<and>
     (\<forall>frs. r = Inr frs \<longrightarrow>
        numbered (next_instruction_id self') 0 frs \<and>
        concat (map contents frs) = zc (transport_encode inst) \<and>
        (\<forall>f \<in> set frs. length (fragment_tostring f) \<le> mtu)) \<and>
     r \<notin> {Inl TooShort, Inl AssemblyTooLarge} \<union> range (Inl \<circ> Inflate) \<union> range (Inl \<circ> Parse)"
proof (cases "mtu \<le> FRAG_HEADER_LEN")
  case True
  with mk show ?thesis by (auto simp: make_fragments_def)
next
  case False
  let ?m = "mtu - FRAG_HEADER_LEN" and ?z = "zc (transport_encode inst)"
  from mk False have sl: "slice_loop (next_instruction_id self') ?m ?z 0 [] = r"
    by (auto simp: make_fragments_def Let_def split: if_splits)
  show ?thesis
  proof (cases r)
    case (Inl e)
    with slice_loop_error [of _ ?m ?z 0 "[]"] sl have e: "e = IndexTooLarge" by blast
    have "?m * 0x8000 < length ?z"
      using slice_loop_total [of ?m 0 ?z "next_instruction_id self'" "[]"] sl Inl False
      by (force simp: MAX_FRAGMENT_INDEX_def)
    with Inl e False show ?thesis by auto
  next
    case (Inr frs)
    with slice_loop_sound [of _ ?m ?z 0 "[]" frs] sl
    have n: "numbered (next_instruction_id self') 0 frs" "concat (map contents frs) = ?z"
      "\<forall>f \<in> set frs. length (contents f) \<le> ?m" "length frs \<le> 0x8000"
      by auto
    have "length ?z \<le> ?m * length frs" using numbered_pieces [OF n(3)] n(2) by simp
    also have "\<dots> \<le> ?m * 0x8000" using n(4) by simp
    finally show ?thesis
      using Inr n False by (auto simp: length_fragment_tostring)
  qed
qed

theorem make_fragments_branches_witness:
  "concat (map contents [toy_frag 0 False [8, 0, 16, 0, 24, 0, 32, 0, 40, 0], toy_frag 1 True [50, 0, 58, 0]])
     = transport_encode transport_default"
  using make_fragments_branches [OF toy_make] by blast

text \<open>The id-bump rule: after a send, the next send reuses the instruction id exactly when the
  whole header (everything but the diff) and the fragment budget are unchanged, so that a
  retransmission is recognisable; otherwise the id advances by one.\<close>

theorem id_bump_rule:
  assumes "make_fragments zc self inst mtu = (r, self')" and "FRAG_HEADER_LEN < mtu"
    and "make_fragments zc self' inst' mtu' = (r', self'')" and "FRAG_HEADER_LEN < mtu'"
  shows "next_instruction_id self'' =
           (if header_of inst' = header_of inst \<and> mtu' = mtu then next_instruction_id self'
            else next_instruction_id self' + 1)"
  using assms by (auto simp: make_fragments_def Let_def FRAG_HEADER_LEN_def split: if_splits)

theorem id_bump_rule_witness:
  "next_instruction_id (snd (make_fragments (\<lambda>x. x)
     \<lparr>next_instruction_id = 1, last_header = Some (header_of transport_default), last_mtu = 10\<rparr>
     (transport_default\<lparr>ack_num := 9\<rparr>) 20)) = 2"
proof -
  let ?s = "\<lparr>next_instruction_id = 1, last_header = Some (header_of transport_default), last_mtu = 10\<rparr>"
  have "header_of (transport_default\<lparr>ack_num := 9\<rparr>) \<noteq> header_of transport_default"
    by (simp add: header_of_def transport_default_def)
  then show ?thesis
    using id_bump_rule [OF toy_make, of "transport_default\<lparr>ack_num := 9\<rparr>" 20
        "fst (make_fragments (\<lambda>x. x) ?s (transport_default\<lparr>ack_num := 9\<rparr>) 20)"
        "snd (make_fragments (\<lambda>x. x) ?s (transport_default\<lparr>ack_num := 9\<rparr>) 20)"]
    by (simp add: FRAG_HEADER_LEN_def)
qed

section \<open>Reassembly under hostile input\<close>

text \<open>
  The bookkeeping invariant: the arrival counter counts the filled slots, every filled slot holds
  a fragment of the current id whose index is its slot, and the byte counter is within the cap.
\<close>

definition filled :: "fragment option list \<Rightarrow> nat" where
  "filled slots = length (filter (\<lambda>f. f \<noteq> None) slots)"

definition slots_ok :: "u64 \<Rightarrow> fragment option list \<Rightarrow> bool" where
  "slots_ok i slots \<longleftrightarrow>
     (\<forall>k < length slots. \<forall>f. slots ! k = Some f \<longrightarrow> frag_id f = i \<and> unat (fragment_num f) = k)"

definition assembly_inv :: "fragment_assembly \<Rightarrow> bool" where
  "assembly_inv a \<longleftrightarrow>
     fragments_arrived a = filled (fragments a) \<and> slots_ok (current_id a) (fragments a) \<and>
     length (fragments a) \<le> 2 ^ 16 \<and> assembled_bytes a \<le> ASSEMBLY_LIMIT"

lemma slots_ok_intros [inv_intros]:
  "slots_ok i []" "slots_ok i (replicate n None)"
  "slots_ok i slots \<Longrightarrow> slots_ok i (take n slots)"
  "slots_ok i slots \<Longrightarrow> slots_ok i (grow n slots)"
  by (auto simp: slots_ok_def grow_def nth_append split: if_splits)

lemma slots_ok_update [inv_intros]:
  assumes "slots_ok i slots" "frag_id f = i" "unat (fragment_num f) = k"
  shows "slots_ok i (slots[k := Some f])"
  unfolding slots_ok_def
proof (intro allI impI)
  fix j g assume "j < length (slots[k := Some f])" "slots[k := Some f] ! j = Some g"
  with assms show "frag_id g = i \<and> unat (fragment_num g) = j"
    by (cases "j = k") (auto simp: slots_ok_def)
qed

lemma clean_inv [inv_intros]: "clean a \<Longrightarrow> assembly_inv a"
  by (simp add: clean_def assembly_inv_def filled_def slots_ok_intros)

lemma filled_append [simp]: "filled (xs @ ys) = filled xs + filled ys"
  by (simp add: filled_def)

lemma filled_replicate [simp]: "filled (replicate n None) = 0"
  by (simp add: filled_def)

lemma filled_update: "k < length xs \<Longrightarrow> xs ! k = None \<Longrightarrow> filled (xs[k := Some f]) = filled xs + 1"
  by (induction xs arbitrary: k) (auto simp: filled_def nth_Cons split: nat.splits)

lemma store_fragment_inv:
  assumes "assembly_inv a" and "store_fragment a f = Some a'"
  shows "assembly_inv a'"
proof -
  let ?k = "unat (fragment_num f)"
  have k: "?k < 2 ^ 16" using unsigned_less [where 'a = nat, of "fragment_num f"] by simp
  show ?thesis
  proof (cases "current_id a = frag_id f")
    case False
    with assms(2) have a': "a' = a\<lparr>fragments := (replicate (?k + 1) None)[?k := Some f],
        fragments_arrived := 1, fragments_total := None, assembled_bytes := 0, current_id := frag_id f\<rparr>"
      by (simp add: store_fragment_def Let_def)
    have "filled ((replicate (?k + 1) None)[?k := Some f]) = 1"
      by (subst filled_update) (simp_all del: replicate.simps replicate_Suc)
    then show ?thesis
      using k slots_ok_intros(2) [of "frag_id f" "?k + 1"]
      by (simp add: a' assembly_inv_def slots_ok_update del: replicate.simps replicate_Suc)
  next
    case True
    let ?slots = "if ?k \<ge> length (fragments a) then grow (?k + 1) (fragments a) else fragments a"
    have kin: "?k < length ?slots" by (simp add: grow_def)
    have inv: "filled ?slots = fragments_arrived a" "length ?slots \<le> 2 ^ 16"
      "slots_ok (current_id a) ?slots" "assembled_bytes a \<le> ASSEMBLY_LIMIT"
      using assms(1) k slots_ok_intros(4) [of "current_id a" "fragments a" "?k + 1"]
      by (simp_all add: assembly_inv_def grow_def)
    show ?thesis
    proof (cases "?slots ! ?k")
      case None
      with True assms(2) have a': "a' = a\<lparr>fragments := ?slots[?k := Some f],
          fragments_arrived := fragments_arrived a + 1\<rparr>"
        by (simp add: store_fragment_def Let_def)
      show ?thesis
        using True inv filled_update [OF kin None, of f]
        by (simp only: assembly_inv_def a') (simp add: slots_ok_update)
    next
      case (Some g)
      with True assms(2) have a': "a' = a\<lparr>fragments := ?slots\<rparr>"
        by (simp add: store_fragment_def Let_def split: if_splits)
      show ?thesis
        using inv by (simp only: assembly_inv_def a') simp
    qed
  qed
qed

lemma note_final_inv: "assembly_inv a \<Longrightarrow> assembly_inv (note_final a f)"
  using slots_ok_intros(3) [of "current_id a" "fragments a"]
  by (simp add: assembly_inv_def note_final_def filled_def Let_def)

lemma take_loop_cap:
  "n \<le> ASSEMBLY_LIMIT \<Longrightarrow> take_loop slots enc n = Whole out m \<Longrightarrow> m \<le> ASSEMBLY_LIMIT"
  by (induction slots enc n rule: take_loop.induct) (auto split: if_splits)

lemma take_assembly_inv: "assembly_inv a \<Longrightarrow> assembly_inv (snd (take_assembly zr a))"
proof -
  assume inv: "assembly_inv a"
  show ?thesis
  proof (cases "take_loop (fragments a) [] (assembled_bytes a)")
    case (Whole out m)
    have "m \<le> ASSEMBLY_LIMIT"
      using take_loop_cap [OF _ Whole] inv by (simp add: assembly_inv_def)
    then have "assembly_inv (a\<lparr>assembled_bytes := m\<rparr>)"
      using inv by (simp add: assembly_inv_def)
    then show ?thesis
      using Whole by (auto simp: take_assembly_def Let_def clean_inv split: sum.splits)
  qed (simp_all add: take_assembly_def clean_inv)
qed

text \<open>C20: No fragment, hostile or not, can corrupt the reassembly bookkeeping: every call preserves
  that the arrival counter counts the filled slots, that slots hold fragments of the current id
  at their own index, that at most \<open>2^16\<close> slots exist, and that the byte count respects its cap.\<close>

theorem add_fragment_keeps_inv:
  assumes "assembly_inv a"
  shows "assembly_inv (snd (add_fragment zr a f))"
proof (cases "store_fragment a f")
  case None
  with assms show ?thesis by (simp add: add_fragment_def)
next
  case (Some a1)
  have "assembly_inv (note_final a1 f)"
    by (rule note_final_inv [OF store_fragment_inv [OF assms Some]])
  with Some show ?thesis
    by (auto simp: add_fragment_def Let_def take_assembly_inv split: option.splits)
qed

theorem add_fragment_keeps_inv_witness:
  "assembly_inv (snd (add_fragment toy_zr assembly_new (toy_frag 3 True [1])))"
  by (rule add_fragment_keeps_inv) (simp add: clean_inv)

text \<open>What a registry of sent instructions lets the assembly be in: idle, or part-way through one.\<close>

definition collecting ::
  "(u64 \<Rightarrow> (transport_instruction \<times> fragment list) option) \<Rightarrow> fragment_assembly \<Rightarrow> bool" where
  "collecting reg a \<longleftrightarrow> clean a \<or>
     (\<exists>inst frs S. reg (current_id a) = Some (inst, frs) \<and> S \<subset> set frs \<and> progress (current_id a) frs S a)"

lemma add_fragment_collecting:
  assumes z: "zlib_ok zc zr" and reg: "\<forall>i inst frs. reg i = Some (inst, frs) \<longrightarrow> sent_as zc i inst frs"
    and a: "collecting reg a" and f: "reg (frag_id f) = Some (inst, frs)" "f \<in> set frs"
  shows "collecting reg (snd (add_fragment zr a f)) \<and>
         (\<forall>out. fst (add_fragment zr a f) = Some out \<longrightarrow> out = inst)"
proof -
  let ?i = "frag_id f"
  have s: "sent_as zc ?i inst frs" using reg f(1) by blast
  have "\<exists>S b. progress ?i frs S b \<and> add_fragment zr a f = add_fragment zr b f"
  proof (cases "current_id a = ?i")
    case False
    then show ?thesis
      using progress_restart add_fragment_restart [OF False] by blast
  next
    case True
    with a f(1) obtain S where "progress ?i frs S a"
      by (auto simp: collecting_def dest: clean_progress)
    then show ?thesis by blast
  qed
  then obtain S b where p: "progress ?i frs S b" and eq: "add_fragment zr a f = add_fragment zr b f"
    by blast
  note step = add_fragment_progress [OF z s p f(2)]
  show ?thesis
  proof (cases "insert f S = set frs")
    case True
    with step eq show ?thesis by (simp add: collecting_def)
  next
    case False
    with step have p': "progress ?i frs (insert f S) (snd (add_fragment zr b f))" by simp
    then have "current_id (snd (add_fragment zr b f)) = ?i" and "insert f S \<subset> set frs"
      using False by (auto simp: progress_def)
    then have "collecting reg (snd (add_fragment zr b f))"
      using p' f(1) unfolding collecting_def by (intro disjI2 exI [of _ inst] exI [of _ frs] exI [of _ "insert f S"]) simp
    with step False eq show ?thesis by simp
  qed
qed

text \<open>C15: Loss, reordering, duplication and interleaving of fragments of different instructions never
  make the assembly invent or mix an instruction: whatever it returns is an instruction that was
  sent under some id, provided each id names one sent instruction.\<close>

theorem assembly_delivers_only_sent:
  assumes "zlib_ok zc zr" and "\<forall>i inst frs. reg i = Some (inst, frs) \<longrightarrow> sent_as zc i inst frs"
    and "collecting reg a"
    and "\<forall>f \<in> set fs. \<exists>inst frs. reg (frag_id f) = Some (inst, frs) \<and> f \<in> set frs"
    and "Some out \<in> set (fst (feed zr a fs))"
  shows "\<exists>f \<in> set fs. \<exists>frs. reg (frag_id f) = Some (out, frs)"
  using assms(3-)
proof (induction fs arbitrary: a)
  case Nil
  then show ?case by simp
next
  case (Cons f fs)
  from Cons.prems(2) obtain inst frs where f: "reg (frag_id f) = Some (inst, frs)" "f \<in> set frs"
    by auto
  obtain r a' where add: "add_fragment zr a f = (r, a')" by fastforce
  note step = add_fragment_collecting [OF assms(1,2) Cons.prems(1) f]
  show ?case
  proof (cases "r = Some out")
    case True
    with step add f show ?thesis by auto
  next
    case False
    with Cons.prems(3) add have "Some out \<in> set (fst (feed zr a' fs))"
      by (auto split: prod.splits)
    with Cons.IH [of a'] step add Cons.prems(2) show ?thesis by auto
  qed
qed

theorem assembly_delivers_only_sent_witness:
  "\<exists>f \<in> set [toy_frag 1 True [50, 0, 58, 0], toy_frag 0 False [8, 0, 16, 0, 24, 0, 32, 0, 40, 0]].
     \<exists>frs. [1 \<mapsto> (transport_default, [toy_frag 0 False [8, 0, 16, 0, 24, 0, 32, 0, 40, 0],
                toy_frag 1 True [50, 0, 58, 0]])] (frag_id f) = Some (transport_default, frs)"
proof (rule assembly_delivers_only_sent [OF toy_zlib_ok])
  let ?reg = "[1 \<mapsto> (transport_default, [toy_frag 0 False [8, 0, 16, 0, 24, 0, 32, 0, 40, 0],
                toy_frag 1 True [50, 0, 58, 0]])]"
  show "\<forall>i inst frs. ?reg i = Some (inst, frs) \<longrightarrow> sent_as (\<lambda>x. x) i inst frs"
    using toy_sent by auto
  show "collecting ?reg assembly_new" by (simp add: collecting_def)
  show "\<forall>f \<in> set [toy_frag 1 True [50, 0, 58, 0], toy_frag 0 False [8, 0, 16, 0, 24, 0, 32, 0, 40, 0]].
      \<exists>inst frs. ?reg (frag_id f) = Some (inst, frs) \<and> f \<in> set frs"
    by (simp add: toy_frag_def)
  show "Some transport_default \<in> set (fst (feed toy_zr assembly_new
      [toy_frag 1 True [50, 0, 58, 0], toy_frag 0 False [8, 0, 16, 0, 24, 0, 32, 0, 40, 0]]))"
    using feed_any_order [OF toy_zlib_ok toy_sent, of assembly_new "[toy_frag 1 True [50, 0, 58, 0]]"
        "toy_frag 0 False [8, 0, 16, 0, 24, 0, 32, 0, 40, 0]"]
    by (simp add: toy_frag_def insert_commute psubset_eq del: feed.simps)
qed

end
