(* ===== verification/Ssp_Sender.thy ===== *)
theory Ssp_Sender
  imports User_Stream Fragments
begin

text \<open>
  \<^verbatim>\<open>src/ssp.rs\<close> lines 19-36 and 351-743: the sending half of the synchronization engine.

  The sender is generic over the sent state: \<open>diff_from\<close> and \<open>subtract\<close> are arguments. Clock values
  are the \<open>u64\<close> milliseconds of the source, with wrap-around addition and subtraction (a release
  build). \<open>zc\<close> is the zlib compressor behind \<open>make_fragments\<close>. The output vector \<open>out\<close> is passed in
  and returned extended, as the source extends it.

  The invariant and the per-operation lemmas are proved in the locale \<open>sent_state\<close> of
  \<open>Sync_State\<close>; they relate every queued state to a ghost history of the numbered states.
\<close>

definition ACK_INTERVAL_MS :: u64 where "ACK_INTERVAL_MS = 3000"
definition ACK_DELAY_MS :: u64 where "ACK_DELAY_MS = 100"
definition ACTIVE_RETRY_TIMEOUT_MS :: u64 where "ACTIVE_RETRY_TIMEOUT_MS = 10000"
definition SHUTDOWN_RETRIES :: u32 where "SHUTDOWN_RETRIES = 16"
definition SENT_QUEUE_CAP :: nat where "SENT_QUEUE_CAP = 32"
definition SEND_MINDELAY_DEFAULT_MS :: u64 where "SEND_MINDELAY_DEFAULT_MS = 8"
definition SEND_MINDELAY_CLIENT_MS :: u64 where "SEND_MINDELAY_CLIENT_MS = 1"

record 's ssp_sender =
  current_state :: 's
  sent_states :: "'s timestamped_state list"
  assumed_receiver :: nat
  sender_ack_num :: u64
  next_ack_time :: u64
  next_send_time :: "u64 option"
  mindelay_clock :: "u64 option"
  pending_data_ack :: bool
  shutdown_in_progress :: bool
  shutdown_tries :: u32
  shutdown_start :: "u64 option"
  last_heard :: u64
  send_mindelay :: u64

definition sender_new :: "'s \<Rightarrow> u64 \<Rightarrow> u64 \<Rightarrow> 's ssp_sender" where
  "sender_new initial_state now mindelay =
     \<lparr>current_state = initial_state,
      sent_states = [\<lparr>ts_timestamp = now, ts_num = 0, ts_state = initial_state\<rparr>],
      assumed_receiver = 0, sender_ack_num = 0, next_ack_time = now + ACK_INTERVAL_MS,
      next_send_time = None, mindelay_clock = None, pending_data_ack = False,
      shutdown_in_progress = False, shutdown_tries = 0, shutdown_start = None, last_heard = now,
      send_mindelay = mindelay\<rparr>"

text \<open>
  \<open>current_state()\<close> hands out a mutable reference and \<open>set_current_state\<close> replaces the state; both
  assert, in debug builds only, that no shutdown is in progress.
\<close>

definition set_current_state :: "'s ssp_sender \<Rightarrow> 's \<Rightarrow> 's ssp_sender" where
  "set_current_state self state = self\<lparr>current_state := state\<rparr>"

definition start_shutdown :: "'s ssp_sender \<Rightarrow> u64 \<Rightarrow> 's ssp_sender" where
  "start_shutdown self now =
     (if \<not> shutdown_in_progress self
      then self\<lparr>shutdown_start := Some now, shutdown_in_progress := True\<rparr> else self)"

definition front_num :: "'s ssp_sender \<Rightarrow> u64 option" where
  "front_num self = (case sent_states self of [] \<Rightarrow> None | s # _ \<Rightarrow> Some (ts_num s))"

definition shutdown_acknowledged :: "'s ssp_sender \<Rightarrow> bool" where
  "shutdown_acknowledged self \<longleftrightarrow> front_num self = Some SHUTDOWN_NUM"

definition counterparty_shutdown_acknowledged :: "fragmenter \<Rightarrow> bool" where
  "counterparty_shutdown_acknowledged fr \<longleftrightarrow> last_ack_sent fr = Some SHUTDOWN_NUM"

definition shutdown_ack_timed_out :: "'s ssp_sender \<Rightarrow> u64 \<Rightarrow> bool" where
  "shutdown_ack_timed_out self now \<longleftrightarrow>
     (if shutdown_in_progress self then
        (if shutdown_tries self \<ge> SHUTDOWN_RETRIES then True
         else case shutdown_start self of
                Some start \<Rightarrow> now - start \<ge> ACTIVE_RETRY_TIMEOUT_MS
              | None \<Rightarrow> False)
      else False)"

definition sent_state_acked_timestamp :: "'s ssp_sender \<Rightarrow> u64" where
  "sent_state_acked_timestamp self = (case sent_states self of [] \<Rightarrow> 0 | s # _ \<Rightarrow> ts_timestamp s)"

definition sent_state_acked :: "'s ssp_sender \<Rightarrow> u64" where
  "sent_state_acked self = (case front_num self of None \<Rightarrow> 0 | Some n \<Rightarrow> n)"

definition sent_state_last :: "'s ssp_sender \<Rightarrow> u64" where
  "sent_state_last self = (if sent_states self = [] then 0 else ts_num (last (sent_states self)))"

definition process_acknowledgment_through :: "'s ssp_sender \<Rightarrow> u64 \<Rightarrow> 's ssp_sender" where
  "process_acknowledgment_through self ack =
     (if \<not> (\<exists>s \<in> set (sent_states self). ts_num s = ack) then self
      else let retained = filter (\<lambda>s. ts_num s \<ge> ack) (sent_states self)
           in self\<lparr>sent_states := retained,
                   assumed_receiver := min (assumed_receiver self) (length retained - 1)\<rparr>)"

definition set_ack_num :: "'s ssp_sender \<Rightarrow> u64 \<Rightarrow> 's ssp_sender" where
  "set_ack_num self ack = self\<lparr>sender_ack_num := ack\<rparr>"

definition set_data_ack :: "'s ssp_sender \<Rightarrow> 's ssp_sender" where
  "set_data_ack self = self\<lparr>pending_data_ack := True\<rparr>"

definition remote_heard :: "'s ssp_sender \<Rightarrow> u64 \<Rightarrow> 's ssp_sender" where
  "remote_heard self ts = self\<lparr>last_heard := ts\<rparr>"

text \<open>The loop \<open>for i in 1..len\<close> of \<open>update_assumed_receiver_state\<close>, over the states from \<open>i\<close> on.\<close>

fun assumed_loop :: "u64 \<Rightarrow> u64 \<Rightarrow> nat \<Rightarrow> nat \<Rightarrow> 's timestamped_state list \<Rightarrow> nat" where
  "assumed_loop now rto i assumed [] = assumed"
| "assumed_loop now rto i assumed (s # ss) =
     (if now - ts_timestamp s < rto + ACK_DELAY_MS then assumed_loop now rto (Suc i) i ss else assumed)"

definition update_assumed_receiver_state :: "'s ssp_sender \<Rightarrow> u64 \<Rightarrow> u64 \<Rightarrow> 's ssp_sender" where
  "update_assumed_receiver_state self now rto =
     self\<lparr>assumed_receiver := assumed_loop now rto 1 0 (drop 1 (sent_states self))\<rparr>"

definition rationalize_states :: "('s \<Rightarrow> 's \<Rightarrow> 's) \<Rightarrow> 's ssp_sender \<Rightarrow> 's ssp_sender" where
  "rationalize_states subtract self =
     (if length (sent_states self) < 2 then self
      else let known = ts_state (hd (sent_states self))
           in self\<lparr>current_state := subtract (current_state self) known,
                   sent_states := map (\<lambda>s. s\<lparr>ts_state := subtract (ts_state s) known\<rparr>) (sent_states self)\<rparr>)"

text \<open>The three steps of \<open>compute_timers\<close>: the persisted deadlines, the send time, the ack time.\<close>

definition start_clocks :: "'s ssp_sender \<Rightarrow> u64 \<Rightarrow> 's ssp_sender" where
  "start_clocks self now =
     (let self1 = (if pending_data_ack self \<and> next_ack_time self > now + ACK_DELAY_MS
                   then self\<lparr>next_ack_time := now + ACK_DELAY_MS\<rparr> else self)
      in if current_state self1 \<noteq> ts_state (last (sent_states self1)) \<and> mindelay_clock self1 = None
         then self1\<lparr>mindelay_clock := Some now\<rparr> else self1)"

definition next_send_at :: "'s ssp_sender \<Rightarrow> u64 \<Rightarrow> u64 \<Rightarrow> u64 \<Rightarrow> u64 option" where
  "next_send_at self now rto send_interval =
     (let back = last (sent_states self) in
      if current_state self \<noteq> ts_state back then
        let fl = (case mindelay_clock self of None \<Rightarrow> now | Some m \<Rightarrow> m + send_mindelay self)
        in Some (max fl (ts_timestamp back + send_interval))
      else if current_state self \<noteq> ts_state (sent_states self ! assumed_receiver self)
              \<and> last_heard self + ACTIVE_RETRY_TIMEOUT_MS > now then
        let t = ts_timestamp back + send_interval
        in Some (case mindelay_clock self of None \<Rightarrow> t | Some m \<Rightarrow> max t (m + send_mindelay self))
      else if length (sent_states self) > 1 \<and> current_state self \<noteq> ts_state (hd (sent_states self))
              \<and> last_heard self + ACTIVE_RETRY_TIMEOUT_MS > now then
        Some (ts_timestamp back + rto + ACK_DELAY_MS)
      else None)"

definition compute_timers ::
  "'s ssp_sender \<Rightarrow> u64 \<Rightarrow> u64 \<Rightarrow> u64 \<Rightarrow> (u64 option \<times> u64 option) \<times> 's ssp_sender" where
  "compute_timers self now rto send_interval =
     (let self1 = start_clocks self now;
          next_send = next_send_at self1 now rto send_interval;
          self2 = (if shutdown_in_progress self1 \<or> sender_ack_num self1 = SHUTDOWN_NUM
                   then self1\<lparr>next_ack_time := ts_timestamp (last (sent_states self1)) + send_interval\<rparr>
                   else self1)
      in ((next_send, Some (next_ack_time self2)), self2))"

definition earliest :: "u64 option \<Rightarrow> u64 option \<Rightarrow> u64 option" where
  "earliest a b = (case (a, b) of (Some x, Some y) \<Rightarrow> Some (min x y) | (None, b) \<Rightarrow> b | (a, None) \<Rightarrow> a)"

definition wait_time :: "'s ssp_sender \<Rightarrow> u64 \<Rightarrow> u64 \<Rightarrow> u64 \<Rightarrow> u64 \<times> 's ssp_sender" where
  "wait_time self now rto send_interval =
     (case compute_timers self now rto send_interval of
        ((next_send, next_ack), self1) \<Rightarrow>
          (case earliest next_send next_ack of None \<Rightarrow> u64_max | Some t \<Rightarrow> sat_sub t now, self1))"

definition attempt_prospective_resend_optimization ::
  "('s \<Rightarrow> 's \<Rightarrow> bytes) \<Rightarrow> 's ssp_sender \<Rightarrow> bytes \<Rightarrow> 's ssp_sender \<times> bytes" where
  "attempt_prospective_resend_optimization diff_from self proposed_diff =
     (if assumed_receiver self = 0 \<or> length (sent_states self) < 2 then (self, proposed_diff)
      else let front = ts_state (hd (sent_states self));
               resend_diff = diff_from (current_state self) front
           in if length resend_diff \<le> length proposed_diff
                 \<or> length resend_diff < 1000 \<and> length resend_diff - length proposed_diff < 100
              then (self\<lparr>assumed_receiver := 0\<rparr>, resend_diff)
              else (self, proposed_diff))"

definition add_sent_state :: "'s ssp_sender \<Rightarrow> u64 \<Rightarrow> u64 \<Rightarrow> 's \<Rightarrow> 's ssp_sender" where
  "add_sent_state self timestamp num state =
     (let pushed = sent_states self @ [\<lparr>ts_timestamp = timestamp, ts_num = num, ts_state = state\<rparr>]
      in if length pushed > SENT_QUEUE_CAP then
           let idx = length pushed - 16
           in self\<lparr>sent_states := take idx pushed @ drop (idx + 1) pushed,
                   assumed_receiver :=
                     (if assumed_receiver self > idx then assumed_receiver self - 1
                      else if assumed_receiver self = idx then 0 else assumed_receiver self)\<rparr>
         else self\<lparr>sent_states := pushed\<rparr>)"

definition outgoing :: "'s ssp_sender \<Rightarrow> bytes \<Rightarrow> u64 \<Rightarrow> u64 \<Rightarrow> transport_instruction" where
  "outgoing self d old new =
     \<lparr>protocol_version = MOSH_PROTOCOL_VERSION, old_num = old, new_num = new,
      ack_num = sender_ack_num self, throwaway_num = ts_num (hd (sent_states self)),
      diff = d, chaff = []\<rparr>"

definition send_in_fragments ::
  "(bytes \<Rightarrow> bytes) \<Rightarrow> 's ssp_sender \<Rightarrow> bytes \<Rightarrow> u64 \<Rightarrow> u64 \<Rightarrow> nat \<Rightarrow> fragmenter \<Rightarrow> fragment list
     \<Rightarrow> 's ssp_sender \<times> fragmenter \<times> fragment list" where
  "send_in_fragments zc self d old new mtu fr out =
     (let inst = outgoing self d old new;
          self1 = (if new = SHUTDOWN_NUM then self\<lparr>shutdown_tries := shutdown_tries self + 1\<rparr> else self)
      in case make_fragments zc fr inst mtu of
           (Inr frs, fr') \<Rightarrow> (self1\<lparr>pending_data_ack := False\<rparr>, fr', out @ frs)
         | (Inl e, fr') \<Rightarrow> (self1, fr', out))"

definition send_empty_ack ::
  "(bytes \<Rightarrow> bytes) \<Rightarrow> 's ssp_sender \<Rightarrow> u64 \<Rightarrow> nat \<Rightarrow> fragmenter \<Rightarrow> fragment list
     \<Rightarrow> 's ssp_sender \<times> fragmenter \<times> fragment list" where
  "send_empty_ack zc self now mtu fr out =
     (let new = (if shutdown_in_progress self then SHUTDOWN_NUM else ts_num (last (sent_states self)) + 1);
          state = current_state self;
          old = ts_num (sent_states self ! assumed_receiver self);
          self1 = add_sent_state self now new state
      in case send_in_fragments zc self1 [] old new mtu fr out of
           (self2, fr', out') \<Rightarrow>
             (self2\<lparr>next_ack_time := now + ACK_INTERVAL_MS, next_send_time := None\<rparr>, fr', out'))"

definition send_to_receiver ::
  "(bytes \<Rightarrow> bytes) \<Rightarrow> 's ssp_sender \<Rightarrow> u64 \<Rightarrow> bytes \<Rightarrow> nat \<Rightarrow> fragmenter \<Rightarrow> fragment list
     \<Rightarrow> 's ssp_sender \<times> fragmenter \<times> fragment list" where
  "send_to_receiver zc self now d mtu fr out =
     (let back = last (sent_states self);
          num = (if current_state self = ts_state back then ts_num back else ts_num back + 1);
          new = (if shutdown_in_progress self then SHUTDOWN_NUM else num);
          old = ts_num (sent_states self ! assumed_receiver self);
          self1 = (if new = ts_num back
                   then self\<lparr>sent_states := butlast (sent_states self) @ [back\<lparr>ts_timestamp := now\<rparr>]\<rparr>
                   else add_sent_state self now new (current_state self))
      in case send_in_fragments zc self1 d old new mtu fr out of
           (self2, fr', out') \<Rightarrow>
             (self2\<lparr>assumed_receiver := length (sent_states self2) - 1,
                    next_ack_time := now + ACK_INTERVAL_MS, next_send_time := None\<rparr>, fr', out'))"

definition is_due :: "u64 option \<Rightarrow> u64 \<Rightarrow> bool" where
  "is_due t now \<longleftrightarrow> (case t of Some t \<Rightarrow> now \<ge> t | None \<Rightarrow> False)"

definition tick ::
  "('s \<Rightarrow> 's \<Rightarrow> bytes) \<Rightarrow> ('s \<Rightarrow> 's \<Rightarrow> 's) \<Rightarrow> (bytes \<Rightarrow> bytes) \<Rightarrow> 's ssp_sender \<Rightarrow> u64 \<Rightarrow> u64 \<Rightarrow> u64 \<Rightarrow> nat
     \<Rightarrow> fragmenter \<Rightarrow> fragment list \<Rightarrow> 's ssp_sender \<times> fragmenter \<times> fragment list" where
  "tick diff_from subtract zc self now rto send_interval mtu fr out =
     (let self1 = rationalize_states subtract (update_assumed_receiver_state self now rto)
      in case compute_timers self1 now rto send_interval of
           ((next_send, next_ack), self2) \<Rightarrow>
             let due_send = is_due next_send now; due_ack = is_due next_ack now
             in if \<not> due_send \<and> \<not> due_ack then (self2, fr, out)
                else
                  let d0 = diff_from (current_state self2) (ts_state (sent_states self2 ! assumed_receiver self2))
                  in case attempt_prospective_resend_optimization diff_from self2 d0 of
                       (self3, d) \<Rightarrow>
                         if d = [] then
                           (case (if due_ack
                                  then case send_empty_ack zc self3 now mtu fr out of
                                         (self4, fr', out') \<Rightarrow> (self4\<lparr>mindelay_clock := None\<rparr>, fr', out')
                                  else (self3, fr, out)) of
                              (self5, fr', out') \<Rightarrow>
                                (if due_send then self5\<lparr>next_send_time := None, mindelay_clock := None\<rparr> else self5,
                                 fr', out'))
                         else if due_send \<or> due_ack then
                           (case send_to_receiver zc self3 now d mtu fr out of
                              (self4, fr', out') \<Rightarrow> (self4\<lparr>mindelay_clock := None\<rparr>, fr', out'))
                         else (self3, fr, out))"

text \<open>Which of the two timers of a tick is due.\<close>

definition tick_due :: "('s \<Rightarrow> 's \<Rightarrow> 's) \<Rightarrow> 's ssp_sender \<Rightarrow> u64 \<Rightarrow> u64 \<Rightarrow> u64 \<Rightarrow> bool \<times> bool" where
  "tick_due subtract self now rto send_interval =
     (case compute_timers (rationalize_states subtract (update_assumed_receiver_state self now rto)) now rto send_interval of
        ((next_send, next_ack), _) \<Rightarrow> (is_due next_send now, is_due next_ack now))"

text \<open>The branches of a tick whose timers and base are known.\<close>

lemma tick_branches:
  assumes step: "tick diff_from subtract zc s now rto si mtu fr out = (s', fr', out')"
    and ct: "compute_timers (rationalize_states subtract (update_assumed_receiver_state s now rto)) now rto si
      = ((nsend, nack), s2)"
    and at: "attempt_prospective_resend_optimization diff_from s2
      (diff_from (current_state s2) (ts_state (sent_states s2 ! assumed_receiver s2))) = (s3, d)"
  obtains
    (idle) "\<not> is_due nsend now" "\<not> is_due nack now" "s' = s2" "fr' = fr" "out' = out"
  | (data) s4 where "d \<noteq> []" "send_to_receiver zc s3 now d mtu fr out = (s4, fr', out')" "s' = s4\<lparr>mindelay_clock := None\<rparr>"
  | (ack) s4 where "d = []" "send_empty_ack zc s3 now mtu fr out = (s4, fr', out')"
      "s' \<in> {s4\<lparr>mindelay_clock := None\<rparr>, s4\<lparr>next_send_time := None, mindelay_clock := None\<rparr>}"
  | (skip) "d = []" "\<not> is_due nack now" "s' = s3\<lparr>next_send_time := None, mindelay_clock := None\<rparr>" "fr' = fr" "out' = out"
proof -
  note tk = step [unfolded tick_def Let_def, simplified ct prod.case at]
  consider "\<not> is_due nsend now" "\<not> is_due nack now" | "is_due nsend now \<or> is_due nack now" "d \<noteq> []"
    | "is_due nack now" "d = []" | "is_due nsend now" "\<not> is_due nack now" "d = []" by blast
  then show thesis
  proof cases
    case 1 with tk show thesis by (intro idle) auto
  next
    case 2 with tk show thesis by (auto intro: data split: prod.splits)
  next
    case 3 with tk show thesis
      by (cases "send_empty_ack zc s3 now mtu fr out") (auto intro: ack split: if_splits)
  next
    case 4 with tk show thesis by (intro skip) auto
  qed
qed

section \<open>The sender invariant\<close>

text \<open>
  \<open>H n\<close> is the ghost history: the full event list of the state that was sent under number \<open>n\<close>. The
  queued states only hold what comes after the acknowledged prefix \<open>base\<close> that rationalization has
  dropped. Numbers grow along the queue, except that the shutdown number may be queued repeatedly.
\<close>

definition num_before :: "u64 \<Rightarrow> u64 \<Rightarrow> bool" where
  "num_before a b \<longleftrightarrow> a < b \<or> a = SHUTDOWN_NUM \<and> b = SHUTDOWN_NUM"

definition sender_inv :: "('s \<Rightarrow> 'e list) \<Rightarrow> 'e list \<Rightarrow> (u64 \<Rightarrow> 'e list) \<Rightarrow> 's ssp_sender \<Rightarrow> bool" where
  "sender_inv view base H s \<longleftrightarrow>
     sent_states s \<noteq> [] \<and> assumed_receiver s < length (sent_states s) \<and>
     length (sent_states s) \<le> SENT_QUEUE_CAP \<and>
     sorted_wrt num_before (map ts_num (sent_states s)) \<and>
     sorted_wrt prefix (map (\<lambda>t. view (ts_state t)) (sent_states s) @ [view (current_state s)]) \<and>
     (\<forall>t \<in> set (sent_states s). H (ts_num t) = base @ view (ts_state t)) \<and>
     (ts_num (last (sent_states s)) = SHUTDOWN_NUM \<longrightarrow>
        shutdown_in_progress s \<and> current_state s = ts_state (last (sent_states s)))"

text \<open>An instruction that tells the truth about the history.\<close>

definition honest :: "('e list \<Rightarrow> bytes) \<Rightarrow> (u64 \<Rightarrow> 'e list) \<Rightarrow> transport_instruction \<Rightarrow> bool" where
  "honest encode_events H inst \<longleftrightarrow>
     protocol_version inst = MOSH_PROTOCOL_VERSION \<and>
     (\<exists>es. H (new_num inst) = H (old_num inst) @ es \<and> diff inst = encode_events es) \<and>
     throwaway_num inst \<le> old_num inst \<and> num_before (old_num inst) (new_num inst)"

text \<open>What handing \<open>inst\<close> to the fragmenter does to it and to the output.\<close>

definition emits ::
  "(bytes \<Rightarrow> bytes) \<Rightarrow> nat \<Rightarrow> transport_instruction \<Rightarrow> fragmenter \<Rightarrow> fragment list \<Rightarrow> fragmenter \<Rightarrow> fragment list \<Rightarrow> bool" where
  "emits zc mtu inst fr out fr' out' \<longleftrightarrow>
     (case make_fragments zc fr inst mtu of
        (Inr frs, f) \<Rightarrow> fr' = f \<and> out' = out @ frs
      | (Inl e, f) \<Rightarrow> fr' = f \<and> out' = out)"

text \<open>There is an unused state number below the shutdown number.\<close>

definition has_room :: "'s ssp_sender \<Rightarrow> bool" where
  "has_room s \<longleftrightarrow> shutdown_in_progress s \<or> ts_num (last (sent_states s)) < SHUTDOWN_NUM - 1"

definition issued :: "'s ssp_sender \<Rightarrow> u64 \<Rightarrow> bool" where
  "issued s n \<longleftrightarrow> n \<le> ts_num (last (sent_states s))"

text \<open>
  One send: the history grows without changing what was issued, the instruction is honest about it,
  carries the queue head as its throwaway number and the current acknowledgement, and goes out.
\<close>

definition sends ::
  "('s \<Rightarrow> 'e list) \<Rightarrow> ('e list \<Rightarrow> bytes) \<Rightarrow> (bytes \<Rightarrow> bytes) \<Rightarrow> nat \<Rightarrow> 'e list \<Rightarrow> (u64 \<Rightarrow> 'e list)
     \<Rightarrow> 's ssp_sender \<times> fragmenter \<times> fragment list \<Rightarrow> transport_instruction \<Rightarrow> (u64 \<Rightarrow> 'e list)
     \<Rightarrow> 's ssp_sender \<times> fragmenter \<times> fragment list \<Rightarrow> bool" where
  "sends view enc zc mtu base H before inst H' after \<longleftrightarrow>
     (case (before, after) of ((s, fr, out), (s', fr', out')) \<Rightarrow>
        sender_inv view base H' s' \<and> (\<forall>n. issued s n \<longrightarrow> H' n = H n) \<and> honest enc H' inst \<and>
        H' = H(new_num inst := base @ view (current_state s)) \<and>
        issued s' (new_num inst) \<and> issued s' (ts_num (last (sent_states s))) \<and>
        current_state s' = current_state s \<and> shutdown_in_progress s' = shutdown_in_progress s \<and>
        ts_num (hd (sent_states s')) = ts_num (hd (sent_states s)) \<and>
        throwaway_num inst = ts_num (hd (sent_states s)) \<and>
        ack_num inst = sender_ack_num s \<and> sender_ack_num s' = sender_ack_num s \<and>
        emits zc mtu inst fr out fr' out')"

lemma num_before_le: "num_before a b \<Longrightarrow> a \<le> b"
  by (auto simp: num_before_def)

lemma num_before_trans: "num_before a b \<Longrightarrow> num_before b c \<Longrightarrow> num_before a c"
  by (auto simp: num_before_def)

lemma le_shutdown [simp]: "n \<le> SHUTDOWN_NUM"
  by (simp add: SHUTDOWN_NUM_def u64_max_def word_order.extremum)

lemma sorted_wrt_remove:
  "sorted_wrt P xs \<Longrightarrow> sorted_wrt P (take i xs @ drop (Suc i) xs)"
proof (cases "i < length xs")
  case True
  assume "sorted_wrt P xs"
  with id_take_nth_drop [OF True] have "sorted_wrt P (take i xs @ xs ! i # drop (Suc i) xs)" by simp
  then show ?thesis by (simp add: sorted_wrt_append)
qed simp

lemma sorted_wrt_map_remove:
  "sorted_wrt P (map f xs) \<Longrightarrow> sorted_wrt P (map f (take i xs @ drop (Suc i) xs))"
  using sorted_wrt_remove [of P "map f xs" i] by (simp only: map_append take_map drop_map)

lemma sorted_wrt_map_filter: "sorted_wrt P (map f xs) \<Longrightarrow> sorted_wrt P (map f (filter Q xs))"
  by (induction xs) auto

lemma sorted_wrt_last:
  "sorted_wrt P xs \<Longrightarrow> x \<in> set xs \<Longrightarrow> x = last xs \<or> P x (last xs)"
  by (induction xs) auto

lemma sorted_wrt_hd:
  "sorted_wrt P xs \<Longrightarrow> x \<in> set xs \<Longrightarrow> x = hd xs \<or> P (hd xs) x"
  by (cases xs) auto

lemma sorted_wrt_map_hd:
  "sorted_wrt P (map f xs) \<Longrightarrow> x \<in> set xs \<Longrightarrow> f x = f (hd xs) \<or> P (f (hd xs)) (f x)"
  by (cases xs) auto

text \<open>The parts of the invariant that its clients use.\<close>

lemma sender_invD:
  assumes "sender_inv view base H s"
  shows "sent_states s \<noteq> []" and "assumed_receiver s < length (sent_states s)"
    and "t \<in> set (sent_states s) \<Longrightarrow> H (ts_num t) = base @ view (ts_state t)"
    and "t \<in> set (sent_states s) \<Longrightarrow> prefix (view (ts_state t)) (view (current_state s))"
    and "t \<in> set (sent_states s) \<Longrightarrow> ts_num t \<le> ts_num (last (sent_states s))"
    and "t \<in> set (sent_states s) \<Longrightarrow> ts_num (hd (sent_states s)) \<le> ts_num t"
proof -
  note inv = assms [unfolded sender_inv_def]
  show "sent_states s \<noteq> []" "assumed_receiver s < length (sent_states s)" using inv by auto
  assume t: "t \<in> set (sent_states s)"
  show "H (ts_num t) = base @ view (ts_state t)" using inv t by blast
  show "prefix (view (ts_state t)) (view (current_state s))"
    using inv t by (auto simp: sorted_wrt_append)
  have "ts_num t \<in> set (map ts_num (sent_states s))" using t by simp
  moreover have "sorted_wrt num_before (map ts_num (sent_states s))" using inv by simp
  ultimately have "ts_num t = last (map ts_num (sent_states s)) \<or> num_before (ts_num t) (last (map ts_num (sent_states s)))"
    "ts_num t = hd (map ts_num (sent_states s)) \<or> num_before (hd (map ts_num (sent_states s))) (ts_num t)"
    by (blast dest: sorted_wrt_last sorted_wrt_hd)+
  then show "ts_num t \<le> ts_num (last (sent_states s))" "ts_num (hd (sent_states s)) \<le> ts_num t"
    using \<open>sent_states s \<noteq> []\<close> by (auto simp: last_map list.map_sel(1) dest: num_before_le)
qed

lemma sender_inv_cong:
  "current_state s' = current_state s \<Longrightarrow> sent_states s' = sent_states s \<Longrightarrow>
   assumed_receiver s' < length (sent_states s) \<Longrightarrow> shutdown_in_progress s' = shutdown_in_progress s \<Longrightarrow>
   sender_inv view base H s \<Longrightarrow> sender_inv view base H s'"
  by (simp add: sender_inv_def)

lemma sender_inv_new: "sender_inv view [] (\<lambda>_. view st) (sender_new st now md)"
  by (simp add: sender_inv_def sender_new_def SENT_QUEUE_CAP_def SHUTDOWN_NUM_def u64_max_def)

lemma sender_inv_history:
  assumes "sender_inv view base H s" and "\<And>n. issued s n \<Longrightarrow> H' n = H n"
  shows "sender_inv view base H' s"
  using assms(1) assms(2) [unfolded issued_def] sender_invD(5) [OF assms(1)]
  unfolding sender_inv_def by metis

lemma sendsD:
  assumes "sends view enc zc mtu base H (s, fr, out) inst H' (s', fr', out')"
  shows "sender_inv view base H' s'" and "issued s n \<Longrightarrow> H' n = H n" and "honest enc H' inst"
    and "H' = H(new_num inst := base @ view (current_state s))" and "issued s' (new_num inst)"
    and "issued s' (ts_num (last (sent_states s)))" and "current_state s' = current_state s"
    and "shutdown_in_progress s' = shutdown_in_progress s"
    and "ts_num (hd (sent_states s')) = ts_num (hd (sent_states s))"
    and "throwaway_num inst = ts_num (hd (sent_states s))" and "ack_num inst = sender_ack_num s"
    and "sender_ack_num s' = sender_ack_num s" and "emits zc mtu inst fr out fr' out'"
  using assms unfolding sends_def prod.case by blast+

lemma sends_cong:
  assumes sent: "sends view enc zc mtu base H (s, fr, out) inst H' (s2, fr', out')"
    and core: "current_state s' = current_state s2" "sent_states s' = sent_states s2"
      "assumed_receiver s' < length (sent_states s2)" "shutdown_in_progress s' = shutdown_in_progress s2"
      "sender_ack_num s' = sender_ack_num s2"
  shows "sends view enc zc mtu base H (s, fr, out) inst H' (s', fr', out')"
proof -
  have "sender_inv view base H' s2" using sent by (rule sendsD)
  then have "sender_inv view base H' s'" by (rule sender_inv_cong [OF core(1-4)])
  with sent show ?thesis unfolding sends_def issued_def prod.case core by blast
qed

lemma sends_queue:
  "sends view enc zc mtu base H (s, fr, out) inst H' (s', fr', out') \<Longrightarrow>
     assumed_receiver s' < length (sent_states s') \<and> sent_states s' \<noteq> []"
  by (drule sendsD(1)) (simp add: sender_inv_def)

section \<open>Operations that only touch timers\<close>

lemma start_clocks_core:
  "current_state (start_clocks s now) = current_state s"
  "sent_states (start_clocks s now) = sent_states s"
  "assumed_receiver (start_clocks s now) = assumed_receiver s"
  "shutdown_in_progress (start_clocks s now) = shutdown_in_progress s"
  "sender_ack_num (start_clocks s now) = sender_ack_num s"
  by (simp_all add: start_clocks_def Let_def)

lemma compute_timers_core:
  assumes "compute_timers s now rto si = (timers, s')"
  shows "current_state s' = current_state s" and "sent_states s' = sent_states s"
    and "assumed_receiver s' = assumed_receiver s" and "shutdown_in_progress s' = shutdown_in_progress s"
    and "sender_ack_num s' = sender_ack_num s"
  using assms by (auto simp: compute_timers_def Let_def start_clocks_core split: if_splits)

text \<open>Outside a shutdown the ack deadline is only ever brought forward, to 100 ms when data waits for its ack.\<close>

lemma compute_timers_earlier:
  assumes ct: "compute_timers s now rto si = ((ns, na), s')"
  shows "shutdown_in_progress s \<or> sender_ack_num s = SHUTDOWN_NUM \<or> next_ack_time s' \<le> next_ack_time s"
    and "na = Some (next_ack_time s')"
    and "\<not> shutdown_in_progress s \<Longrightarrow> sender_ack_num s \<noteq> SHUTDOWN_NUM \<Longrightarrow> pending_data_ack s
      \<Longrightarrow> next_ack_time s' \<le> now + ACK_DELAY_MS"
proof -
  let ?a = "if pending_data_ack s \<and> next_ack_time s > now + ACK_DELAY_MS then now + ACK_DELAY_MS else next_ack_time s"
  have a: "next_ack_time (start_clocks s now) = ?a" by (auto simp: start_clocks_def Let_def)
  have normal: "next_ack_time s' = ?a" if "\<not> shutdown_in_progress s" "sender_ack_num s \<noteq> SHUTDOWN_NUM"
    using ct that by (auto simp: compute_timers_def Let_def start_clocks_core a)
  have le: "?a \<le> next_ack_time s" by (cases "next_ack_time s > now + ACK_DELAY_MS") (simp_all add: order_less_imp_le)
  show "shutdown_in_progress s \<or> sender_ack_num s = SHUTDOWN_NUM \<or> next_ack_time s' \<le> next_ack_time s"
  proof (cases "shutdown_in_progress s \<or> sender_ack_num s = SHUTDOWN_NUM")
    case False
    then have "next_ack_time s' = ?a" by (intro normal) blast+
    with le show ?thesis by (simp only: simp_thms)
  qed blast
  show "next_ack_time s' \<le> now + ACK_DELAY_MS"
    if "\<not> shutdown_in_progress s" "sender_ack_num s \<noteq> SHUTDOWN_NUM" "pending_data_ack s"
    using normal [OF that(1,2)] that(3) by (simp add: not_less)
  show "na = Some (next_ack_time s')" using ct by (auto simp: compute_timers_def Let_def)
qed

text \<open>What the first two steps of a tick leave alone.\<close>

lemma tick_prefix_core:
  assumes "sent_states s \<noteq> []"
  shows "mindelay_clock (rationalize_states sub (update_assumed_receiver_state s now rto)) = mindelay_clock s"
    and "send_mindelay (rationalize_states sub (update_assumed_receiver_state s now rto)) = send_mindelay s"
    and "next_ack_time (rationalize_states sub (update_assumed_receiver_state s now rto)) = next_ack_time s"
    and "shutdown_in_progress (rationalize_states sub (update_assumed_receiver_state s now rto)) = shutdown_in_progress s"
    and "sender_ack_num (rationalize_states sub (update_assumed_receiver_state s now rto)) = sender_ack_num s"
    and "ts_timestamp (last (sent_states (rationalize_states sub (update_assumed_receiver_state s now rto))))
       = ts_timestamp (last (sent_states s))"
  using assms by (auto simp: rationalize_states_def update_assumed_receiver_state_def Let_def last_map)

lemma assumed_loop_bound:
  "a < i \<Longrightarrow> assumed_loop now rto i a ss < i + length ss"
  by (induction now rto i a ss rule: assumed_loop.induct) fastforce+

lemma update_assumed_inv [inv_intros]:
  assumes "sender_inv view base H s"
  shows "sender_inv view base H (update_assumed_receiver_state s now rto)"
proof (rule sender_inv_cong [OF _ _ _ _ assms])
  have "sent_states s \<noteq> []" using assms by (rule sender_invD)
  then have "1 + length (drop 1 (sent_states s)) = length (sent_states s)"
    by (cases "sent_states s") auto
  with assumed_loop_bound [of 0 1 now rto "drop 1 (sent_states s)"]
  show "assumed_receiver (update_assumed_receiver_state s now rto) < length (sent_states s)"
    by (simp add: update_assumed_receiver_state_def)
qed (simp_all add: update_assumed_receiver_state_def)

section \<open>The queue\<close>

lemma add_sent_state_core:
  "current_state (add_sent_state s now n st) = current_state s"
  "shutdown_in_progress (add_sent_state s now n st) = shutdown_in_progress s"
  "sender_ack_num (add_sent_state s now n st) = sender_ack_num s"
  by (simp_all add: add_sent_state_def Let_def)

text \<open>The head and the newest state survive a cull.\<close>

lemma add_sent_state_ends:
  assumes "sent_states s \<noteq> []" and "length (sent_states s) \<le> SENT_QUEUE_CAP"
  shows "hd (sent_states (add_sent_state s now n st)) = hd (sent_states s)"
    and "last (sent_states (add_sent_state s now n st)) = \<lparr>ts_timestamp = now, ts_num = n, ts_state = st\<rparr>"
    and "sent_states (add_sent_state s now n st) \<noteq> []"
    and "length (sent_states (add_sent_state s now n st)) \<le> SENT_QUEUE_CAP"
  using assms by (auto simp: add_sent_state_def Let_def SENT_QUEUE_CAP_def hd_append)

lemma add_sent_state_sublist:
  "\<exists>i. sent_states (add_sent_state s now n st)
     = (let q = sent_states s @ [\<lparr>ts_timestamp = now, ts_num = n, ts_state = st\<rparr>] in take i q @ drop (Suc i) q)"
proof (cases "length (sent_states s) < SENT_QUEUE_CAP")
  case True
  then show ?thesis
    by (intro exI [of _ "Suc (length (sent_states s))"]) (simp add: add_sent_state_def Let_def)
next
  case False
  then show ?thesis
    by (intro exI [of _ "length (sent_states s) + 1 - 16"]) (simp add: add_sent_state_def Let_def)
qed

lemma add_sent_state_assumed:
  assumes "assumed_receiver s < length (sent_states s)" and "length (sent_states s) \<le> SENT_QUEUE_CAP"
  shows "assumed_receiver (add_sent_state s now n st) < length (sent_states (add_sent_state s now n st))"
  using assms by (auto simp: add_sent_state_def Let_def SENT_QUEUE_CAP_def)

lemma sorted_wrt_snoc_last:
  assumes "sorted_wrt P xs" and "xs \<noteq> [] \<Longrightarrow> P (last xs) x" and "\<And>a b c. P a b \<Longrightarrow> P b c \<Longrightarrow> P a c"
  shows "sorted_wrt P (xs @ [x])"
proof -
  have "P y x" if "y \<in> set xs" for y
    using sorted_wrt_last [OF assms(1) that] assms(2,3) that by (metis empty_iff empty_set)
  with assms(1) show ?thesis by (simp add: sorted_wrt_append)
qed

lemma add_sent_state_inv:
  assumes inv: "sender_inv view base H s" and new: "num_before (ts_num (last (sent_states s))) n"
    and H: "H n = base @ view (current_state s)" and sd: "n = SHUTDOWN_NUM \<Longrightarrow> shutdown_in_progress s"
  shows "sender_inv view base H (add_sent_state s now n (current_state s))"
proof -
  let ?e = "\<lparr>ts_timestamp = now, ts_num = n, ts_state = current_state s\<rparr>"
  let ?q = "sent_states s @ [?e]" and ?s = "add_sent_state s now n (current_state s)"
  note parts = inv [unfolded sender_inv_def]
  have ne: "sent_states s \<noteq> []" and len: "length (sent_states s) \<le> SENT_QUEUE_CAP" using parts by auto
  obtain i where q: "sent_states ?s = take i ?q @ drop (Suc i) ?q"
    using add_sent_state_sublist [of s now n "current_state s"] by (auto simp: Let_def)
  have sub: "set (sent_states ?s) \<subseteq> set ?q"
    unfolding q by (auto dest: in_set_takeD in_set_dropD)
  have "sorted_wrt num_before (map ts_num (sent_states s) @ [n])"
    using parts new ne by (intro sorted_wrt_snoc_last) (auto simp: last_map intro: num_before_trans)
  then have nums: "sorted_wrt num_before (map ts_num (sent_states ?s))"
    unfolding q by (intro sorted_wrt_map_remove) simp
  have chain: "sorted_wrt prefix (map (\<lambda>t. view (ts_state t)) ?q)" using parts by simp
  then have "sorted_wrt prefix (map (\<lambda>t. view (ts_state t)) (sent_states ?s))"
    unfolding q by (rule sorted_wrt_map_remove)
  moreover have "\<forall>t \<in> set (sent_states ?s). prefix (view (ts_state t)) (view (current_state s))"
    using sub chain by (auto simp: sorted_wrt_append)
  ultimately have states: "sorted_wrt prefix (map (\<lambda>t. view (ts_state t)) (sent_states ?s) @ [view (current_state ?s)])"
    by (auto simp: sorted_wrt_append add_sent_state_core)
  have hist: "\<forall>t \<in> set (sent_states ?s). H (ts_num t) = base @ view (ts_state t)"
    using sub parts H by auto
  note ends = add_sent_state_ends [OF ne len, of now n "current_state s"]
  have "ts_num (last (sent_states ?s)) = SHUTDOWN_NUM \<longrightarrow>
      shutdown_in_progress ?s \<and> current_state ?s = ts_state (last (sent_states ?s))"
    unfolding ends(2) add_sent_state_core using sd by simp
  moreover have "assumed_receiver ?s < length (sent_states ?s)"
    using parts by (intro add_sent_state_assumed) simp_all
  ultimately show ?thesis
    unfolding sender_inv_def using ends(3,4) nums states hist by blast
qed

lemma touch_back_inv:
  assumes inv: "sender_inv view base H s"
  shows "sender_inv view base H
     (s\<lparr>sent_states := butlast (sent_states s) @ [(last (sent_states s))\<lparr>ts_timestamp := now\<rparr>]\<rparr>)"
proof -
  have q: "sent_states s = butlast (sent_states s) @ [last (sent_states s)]"
    using sender_invD(1) [OF inv] by simp
  define b where "b = butlast (sent_states s)"
  define l where "l = last (sent_states s)"
  have "sent_states s = b @ [l]" using q by (simp add: b_def l_def)
  with inv show ?thesis
    unfolding b_def [symmetric] l_def [symmetric] by (simp add: sender_inv_def sorted_wrt_append)
qed

lemma min_index: "xs \<noteq> [] \<Longrightarrow> min a (length xs - 1) < length xs"
  by (cases xs) auto

lemma last_filter_last: "xs \<noteq> [] \<Longrightarrow> P (last xs) \<Longrightarrow> last (filter P xs) = last xs"
  by (induction xs rule: rev_induct) auto

lemma process_ack_inv [inv_intros]:
  assumes inv: "sender_inv view base H s"
  shows "sender_inv view base H (process_acknowledgment_through s ack)"
proof (cases "\<exists>t \<in> set (sent_states s). ts_num t = ack")
  case False
  with inv show ?thesis by (simp add: process_acknowledgment_through_def)
next
  case True
  let ?r = "filter (\<lambda>t. ts_num t \<ge> ack) (sent_states s)"
  note parts = inv [unfolded sender_inv_def]
  from True have ne: "?r \<noteq> []" by (auto simp: filter_empty_conv)
  from True have "ts_num (last (sent_states s)) \<ge> ack" using sender_invD(5) [OF inv] by blast
  then have last: "last ?r = last (sent_states s)"
    by (rule last_filter_last [OF sender_invD(1) [OF inv]])
  have "sorted_wrt num_before (map ts_num ?r)" "sorted_wrt prefix (map (\<lambda>t. view (ts_state t)) ?r)"
    using parts sorted_wrt_append by (blast intro: sorted_wrt_map_filter)+
  moreover have "length ?r \<le> SENT_QUEUE_CAP"
    using parts length_filter_le [of "\<lambda>t. ts_num t \<ge> ack" "sent_states s"] by linarith
  moreover have "min (assumed_receiver s) (length ?r - 1) < length ?r"
    by (rule min_index [OF ne])
  moreover have "\<forall>t \<in> set ?r. prefix (view (ts_state t)) (view (current_state s))"
    using sender_invD(4) [OF inv] by simp
  moreover have "process_acknowledgment_through s ack
      = s\<lparr>sent_states := ?r, assumed_receiver := min (assumed_receiver s) (length ?r - 1)\<rparr>"
    using True by (simp add: process_acknowledgment_through_def Let_def)
  ultimately show ?thesis
    using parts ne last by (simp add: sender_inv_def sorted_wrt_append)
qed

section \<open>Sending\<close>

lemma send_in_fragments_core:
  assumes "send_in_fragments zc s d old new mtu fr out = (s', fr', out')"
  shows "current_state s' = current_state s" and "sent_states s' = sent_states s"
    and "assumed_receiver s' = assumed_receiver s" and "shutdown_in_progress s' = shutdown_in_progress s"
    and "sender_ack_num s' = sender_ack_num s"
    and "emits zc mtu (outgoing s d old new) fr out fr' out'"
  using assms
  by (auto simp: send_in_fragments_def emits_def Let_def split: prod.splits sum.splits if_splits)

lemma fresh_number:
  assumes "has_room s" and "\<not> shutdown_in_progress s"
  shows "ts_num (last (sent_states s)) < ts_num (last (sent_states s)) + 1"
    and "ts_num (last (sent_states s)) + 1 \<noteq> SHUTDOWN_NUM"
proof -
  let ?n = "ts_num (last (sent_states s))"
  have "?n < SHUTDOWN_NUM - 1" using assms by (simp add: has_room_def)
  then have n: "unat ?n < 2 ^ 64 - 2"
    by (simp add: SHUTDOWN_NUM_def u64_max_def word_less_nat_alt)
  then have "?n \<noteq> u64_max" using unat_u64_max by auto
  from unat_succ [OF this] n unat_u64_max show "?n < ?n + 1" "?n + 1 \<noteq> SHUTDOWN_NUM"
    by (auto simp: SHUTDOWN_NUM_def word_less_nat_alt dest: arg_cong [of _ _ unat])
qed

context sent_state
begin

text \<open>Subtracting the head keeps the order of the queue.\<close>

lemma head_below:
  assumes inv: "sender_inv view base H s" and "t \<in> set (sent_states s)"
  shows "prefix (view (ts_state (hd (sent_states s)))) (view (ts_state t))"
proof -
  have "sorted_wrt prefix (map (\<lambda>t. view (ts_state t)) (sent_states s))"
    using inv unfolding sender_inv_def sorted_wrt_append by blast
  from sorted_wrt_map_hd [OF this assms(2)] show ?thesis by auto
qed

lemma subtracted_sorted:
  fixes s :: "'s ssp_sender"
  defines "rest \<equiv> \<lambda>x. view (subtract x (ts_state (hd (sent_states s))))"
  assumes inv: "sender_inv view base H s"
  shows "sorted_wrt prefix (map (\<lambda>t. rest (ts_state t)) (sent_states s) @ [rest (current_state s)])"
proof -
  have mono: "prefix (rest (ts_state t)) (rest x)" if "t \<in> set (sent_states s)" "prefix (view (ts_state t)) (view x)" for t x
    unfolding rest_def by (rule subtract_prefix_mono [OF head_below [OF inv that(1)] that(2)])
  have "sorted_wrt prefix (map (\<lambda>t. view (ts_state t)) (sent_states s))"
    using inv unfolding sender_inv_def sorted_wrt_append by blast
  then have "sorted_wrt (\<lambda>t u. prefix (view (ts_state t)) (view (ts_state u))) (sent_states s)"
    by (simp only: sorted_wrt_map)
  then have "sorted_wrt (\<lambda>t u. prefix (rest (ts_state t)) (rest (ts_state u))) (sent_states s)"
    by (rule sorted_wrt_mono_rel [rotated]) (rule mono)
  moreover have "\<forall>t \<in> set (sent_states s). prefix (rest (ts_state t)) (rest (current_state s))"
    using mono sender_invD(4) [OF inv] by blast
  ultimately show ?thesis by (auto simp: sorted_wrt_append sorted_wrt_map)
qed

lemma rationalize_inv:
  assumes inv: "sender_inv view base H s"
  obtains base' where "sender_inv view base' H (rationalize_states subtract s)"
    and "base' @ view (current_state (rationalize_states subtract s)) = base @ view (current_state s)"
    and "map ts_num (sent_states (rationalize_states subtract s)) = map ts_num (sent_states s)"
proof (cases "length (sent_states s) < 2")
  case True
  then have "rationalize_states subtract s = s" by (simp add: rationalize_states_def)
  with inv that show ?thesis by simp
next
  case False
  let ?k = "ts_state (hd (sent_states s))"
  let ?f = "\<lambda>t. t\<lparr>ts_state := subtract (ts_state t) ?k\<rparr>"
  let ?s = "s\<lparr>current_state := subtract (current_state s) ?k, sent_states := map ?f (sent_states s)\<rparr>"
  note parts = inv [unfolded sender_inv_def]
  have eq: "rationalize_states subtract s = ?s" using False by (simp add: rationalize_states_def Let_def)
  have ne: "sent_states s \<noteq> []" using parts by simp
  have nums: "map ts_num (sent_states ?s) = map ts_num (sent_states s)" by (simp add: comp_def)
  have queue: "sent_states ?s \<noteq> []" "assumed_receiver ?s < length (sent_states ?s)"
    "length (sent_states ?s) \<le> SENT_QUEUE_CAP" "sorted_wrt num_before (map ts_num (sent_states s))"
    using parts by simp_all
  have "sorted_wrt prefix (map (\<lambda>t. view (ts_state t)) (sent_states ?s) @ [view (current_state ?s)])"
    using subtracted_sorted [OF inv] by (simp add: comp_def)
  moreover have "\<forall>t \<in> set (sent_states ?s). H (ts_num t) = (base @ view ?k) @ view (ts_state t)"
  proof
    fix t assume "t \<in> set (sent_states ?s)"
    then obtain u where u: "u \<in> set (sent_states s)" "t = ?f u" by auto
    with sender_invD(3) [OF inv u(1)] subtract_view [OF head_below [OF inv u(1)]]
    show "H (ts_num t) = (base @ view ?k) @ view (ts_state t)" by simp
  qed
  moreover have last: "last (sent_states ?s) = ?f (last (sent_states s))" using ne by (simp add: last_map)
  moreover have "ts_num (last (sent_states ?s)) = SHUTDOWN_NUM \<longrightarrow>
      shutdown_in_progress ?s \<and> current_state ?s = ts_state (last (sent_states ?s))"
    using parts last by auto
  ultimately have "sender_inv view (base @ view ?k) H ?s"
    using queue unfolding sender_inv_def nums by blast
  moreover have "(base @ view ?k) @ view (current_state ?s) = base @ view (current_state s)"
    using subtract_view [of ?k "current_state s"] sender_invD(4) [OF inv, of "hd (sent_states s)"] ne by simp
  ultimately show ?thesis
    using that [of "base @ view ?k"] eq by (simp add: comp_def)
qed

lemma attempt_inv:
  assumes inv: "sender_inv view base H s"
    and d0: "d0 = diff_from (current_state s) (ts_state (sent_states s ! assumed_receiver s))"
    and step: "attempt_prospective_resend_optimization diff_from s d0 = (s', d)"
  shows "sender_inv view base H s'"
    and "d = diff_from (current_state s') (ts_state (sent_states s' ! assumed_receiver s'))"
    and "s' = s \<or> s' = s\<lparr>assumed_receiver := 0\<rparr>"
proof -
  have ne: "sent_states s \<noteq> []" using inv by (rule sender_invD)
  show shape: "s' = s \<or> s' = s\<lparr>assumed_receiver := 0\<rparr>"
    using step by (auto simp: attempt_prospective_resend_optimization_def Let_def split: if_splits)
  then show "sender_inv view base H s'"
    using inv ne by (auto simp: sender_inv_def)
  show "d = diff_from (current_state s') (ts_state (sent_states s' ! assumed_receiver s'))"
    using step d0 ne
    by (auto simp: attempt_prospective_resend_optimization_def Let_def hd_conv_nth split: if_splits)
qed

text \<open>
  The instruction for a diff against the assumed state is honest, once the history knows the number
  it is sent under.
\<close>

lemma outgoing_honest:
  assumes inv: "sender_inv view base H s" and t: "t \<in> set (sent_states s)"
    and q: "ts_num (hd (sent_states s')) = ts_num (hd (sent_states s))"
    and d: "d = diff_from (current_state s) (ts_state t)"
    and H: "H new = base @ view (current_state s)" and num: "num_before (ts_num t) new"
  shows "honest encode_events H (outgoing s' d (ts_num t) new)"
proof -
  from sender_invD(4) [OF inv t] obtain es where es: "view (current_state s) = view (ts_state t) @ es"
    by (auto elim: prefixE)
  then have "H new = H (ts_num t) @ es \<and> d = encode_events es"
    using H sender_invD(3) [OF inv t] d diff_view by simp
  with q num sender_invD(6) [OF inv t] show ?thesis
    by (auto simp: honest_def outgoing_def)
qed

lemma new_number:
  assumes inv: "sender_inv view base H s" and room: "has_room s"
    and new: "new = (if shutdown_in_progress s then SHUTDOWN_NUM else ts_num (last (sent_states s)) + 1)"
  defines "H' \<equiv> H(new := base @ view (current_state s))"
  shows "num_before (ts_num (last (sent_states s))) new" and "new = SHUTDOWN_NUM \<Longrightarrow> shutdown_in_progress s"
    and "issued s n \<Longrightarrow> H' n = H n" and "sender_inv view base H' s"
proof -
  let ?l = "ts_num (last (sent_states s))"
  show nb: "num_before ?l new"
  proof (cases "shutdown_in_progress s")
    case True
    then show ?thesis using new le_shutdown [of ?l] by (auto simp: num_before_def order.order_iff_strict)
  next
    case False
    then show ?thesis using new fresh_number(1) [OF room False] by (simp add: num_before_def)
  qed
  show "shutdown_in_progress s" if "new = SHUTDOWN_NUM"
    using that new fresh_number(2) [OF room] by (auto split: if_splits)
  show same: "H' n = H n" if "issued s n" for n
  proof (cases "n = new")
    case True
    with that nb have "?l = SHUTDOWN_NUM" "new = SHUTDOWN_NUM" by (auto simp: issued_def num_before_def)
    moreover from this inv have "current_state s = ts_state (last (sent_states s))" by (simp add: sender_inv_def)
    ultimately show ?thesis
      using sender_invD(3) [OF inv, of "last (sent_states s)"] sender_invD(1) [OF inv] True by (simp add: H'_def)
  qed (simp add: H'_def)
  show "sender_inv view base H' s" by (rule sender_inv_history [OF inv same])
qed

text \<open>Queueing the current state under a new number and sending it against \<open>t\<close>.\<close>

lemma push_and_send:
  assumes inv: "sender_inv view base H s" and room: "has_room s"
    and new: "new = (if shutdown_in_progress s then SHUTDOWN_NUM else ts_num (last (sent_states s)) + 1)"
    and t: "t \<in> set (sent_states s)" and d: "d = diff_from (current_state s) (ts_state t)"
    and step: "send_in_fragments zc (add_sent_state s now new (current_state s)) d (ts_num t) new mtu fr out = (s', fr', out')"
  shows "\<exists>inst H'. sends view encode_events zc mtu base H (s, fr, out) inst H' (s', fr', out')"
proof -
  define H' where "H' = H(new := base @ view (current_state s))"
  define s1 where "s1 = add_sent_state s now new (current_state s)"
  note nn = new_number [OF inv room new, folded H'_def]
  note core = send_in_fragments_core [OF step, folded s1_def]
  have H'new: "H' new = base @ view (current_state s)" by (simp add: H'_def)
  have inv1: "sender_inv view base H' s1"
    unfolding s1_def using add_sent_state_inv [OF nn(4,1) H'new nn(2)] .
  have bounds: "sent_states s \<noteq> []" "length (sent_states s) \<le> SENT_QUEUE_CAP"
    using inv by (auto simp: sender_inv_def)
  note ends = add_sent_state_ends [OF bounds, of now new "current_state s", folded s1_def]
  have "num_before (ts_num t) new"
    using sender_invD(5) [OF inv t] nn(1) le_shutdown [of "ts_num t"]
    by (auto simp: num_before_def order.order_iff_strict)
  from outgoing_honest [OF nn(4) t _ d H'new this, of s1] ends(1)
  have "honest encode_events H' (outgoing s1 d (ts_num t) new)" by simp
  moreover have "sender_inv view base H' s'"
    by (rule sender_inv_cong [OF core(1,2) _ core(4) inv1]) (simp add: core(3) sender_invD(2) [OF inv1])
  ultimately have "sends view encode_events zc mtu base H (s, fr, out) (outgoing s1 d (ts_num t) new) H' (s', fr', out')"
    using nn(1,3) core ends num_before_le [OF nn(1)]
    by (simp add: sends_def issued_def outgoing_def s1_def add_sent_state_core H'_def)
  then show ?thesis by blast
qed

text \<open>Resending the newest state, whose number and contents stay as they are.\<close>

lemma touch_and_send:
  assumes inv: "sender_inv view base H s" and cur: "current_state s = ts_state (last (sent_states s))"
    and t: "t \<in> set (sent_states s)" and d: "d = diff_from (current_state s) (ts_state t)" and "d \<noteq> []"
    and s1: "s1 = s\<lparr>sent_states := butlast (sent_states s) @ [(last (sent_states s))\<lparr>ts_timestamp := now\<rparr>]\<rparr>"
    and step: "send_in_fragments zc s1 d (ts_num t) (ts_num (last (sent_states s))) mtu fr out = (s', fr', out')"
  shows "\<exists>inst H'. sends view encode_events zc mtu base H (s, fr, out) inst H' (s', fr', out')"
proof -
  let ?l = "last (sent_states s)"
  note core = send_in_fragments_core [OF step]
  have ne: "sent_states s \<noteq> []" using inv by (rule sender_invD)
  have inv1: "sender_inv view base H s1" unfolding s1 by (rule touch_back_inv [OF inv])
  have H: "H (ts_num ?l) = base @ view (current_state s)"
    using sender_invD(3) [OF inv, of ?l] ne cur by simp
  have "t \<noteq> ?l" using d \<open>d \<noteq> []\<close> cur by auto
  have "num_before (ts_num t) (ts_num ?l)"
  proof -
    have "sorted_wrt num_before (map ts_num (sent_states s))" using inv by (simp add: sender_inv_def)
    then have "sorted_wrt (\<lambda>x y. num_before (ts_num x) (ts_num y)) (sent_states s)" by (simp only: sorted_wrt_map)
    from sorted_wrt_last [OF this t] \<open>t \<noteq> ?l\<close> show ?thesis by blast
  qed
  moreover have head: "ts_num (hd (sent_states s1)) = ts_num (hd (sent_states s))"
    and last: "ts_num (last (sent_states s1)) = ts_num ?l"
    unfolding s1 using ne by (cases "sent_states s"; simp)+
  ultimately have "honest encode_events H (outgoing s1 d (ts_num t) (ts_num ?l))"
    by (intro outgoing_honest [OF inv t _ d H])
  moreover have "sender_inv view base H s'"
    by (rule sender_inv_cong [OF core(1,2) _ core(4) inv1]) (simp add: core(3) sender_invD(2) [OF inv1])
  ultimately have "sends view encode_events zc mtu base H (s, fr, out) (outgoing s1 d (ts_num t) (ts_num ?l)) H (s', fr', out')"
    using core head last H by (simp add: sends_def issued_def outgoing_def s1 fun_upd_idem)
  then show ?thesis by blast
qed

lemma send_empty_ack_sends:
  assumes inv: "sender_inv view base H s" and room: "has_room s"
    and d: "diff_from (current_state s) (ts_state (sent_states s ! assumed_receiver s)) = []"
    and step: "send_empty_ack zc s now mtu fr out = (s', fr', out')"
  shows "\<exists>inst H'. sends view encode_events zc mtu base H (s, fr, out) inst H' (s', fr', out')"
proof -
  let ?t = "sent_states s ! assumed_receiver s"
  define new where "new = (if shutdown_in_progress s then SHUTDOWN_NUM else ts_num (last (sent_states s)) + 1)"
  obtain s2 where sif: "send_in_fragments zc (add_sent_state s now new (current_state s)) [] (ts_num ?t) new mtu fr out
      = (s2, fr', out')" and s': "s' = s2\<lparr>next_ack_time := now + ACK_INTERVAL_MS, next_send_time := None\<rparr>"
    using step by (auto simp: send_empty_ack_def Let_def new_def split: prod.splits)
  have t: "?t \<in> set (sent_states s)" using sender_invD(2) [OF inv] by simp
  from push_and_send [OF inv room new_def t d [symmetric] sif]
  obtain inst H' where "sends view encode_events zc mtu base H (s, fr, out) inst H' (s2, fr', out')" by blast
  note sent = this
  have "sends view encode_events zc mtu base H (s, fr, out) inst H' (s', fr', out')"
    using sends_queue [OF sent] by (intro sends_cong [OF sent]) (simp_all add: s')
  then show ?thesis by blast
qed

lemma send_to_receiver_sends:
  assumes inv: "sender_inv view base H s" and room: "has_room s"
    and d: "d = diff_from (current_state s) (ts_state (sent_states s ! assumed_receiver s))" "d \<noteq> []"
    and step: "send_to_receiver zc s now d mtu fr out = (s', fr', out')"
  shows "\<exists>inst H'. sends view encode_events zc mtu base H (s, fr, out) inst H' (s', fr', out')"
proof -
  let ?t = "sent_states s ! assumed_receiver s" and ?l = "last (sent_states s)"
  define num where "num = (if current_state s = ts_state ?l then ts_num ?l else ts_num ?l + 1)"
  define new where "new = (if shutdown_in_progress s then SHUTDOWN_NUM else num)"
  define s1 where "s1 = (if new = ts_num ?l
      then s\<lparr>sent_states := butlast (sent_states s) @ [?l\<lparr>ts_timestamp := now\<rparr>]\<rparr>
      else add_sent_state s now new (current_state s))"
  obtain s2 where sif: "send_in_fragments zc s1 d (ts_num ?t) new mtu fr out = (s2, fr', out')"
    and s': "s' = s2\<lparr>assumed_receiver := length (sent_states s2) - 1,
                     next_ack_time := now + ACK_INTERVAL_MS, next_send_time := None\<rparr>"
    using step [unfolded send_to_receiver_def Let_def, folded num_def, folded new_def, folded s1_def]
    by (auto split: prod.splits)
  have t: "?t \<in> set (sent_states s)" using sender_invD(2) [OF inv] by simp
  have "\<exists>inst H'. sends view encode_events zc mtu base H (s, fr, out) inst H' (s2, fr', out')"
  proof (cases "new = ts_num ?l")
    case True
    have "num \<noteq> ts_num ?l + 1 \<or> shutdown_in_progress s"
      using True fresh_number(1) [OF room] by (cases "shutdown_in_progress s") (auto simp: new_def)
    then have "current_state s = ts_state ?l"
      using True inv by (auto simp: new_def num_def sender_inv_def split: if_splits)
    from touch_and_send [OF inv this t d _ sif [unfolded True]] True show ?thesis by (simp add: s1_def)
  next
    case False
    then have "new = (if shutdown_in_progress s then SHUTDOWN_NUM else ts_num ?l + 1)"
      by (auto simp: new_def num_def split: if_splits)
    from push_and_send [OF inv room this t d(1)] sif False show ?thesis by (simp add: s1_def)
  qed
  then obtain inst H' where "sends view encode_events zc mtu base H (s, fr, out) inst H' (s2, fr', out')" by blast
  note sent = this
  have "sends view encode_events zc mtu base H (s, fr, out) inst H' (s', fr', out')"
    using sends_queue [OF sent] by (intro sends_cong [OF sent]) (simp_all add: s')
  then show ?thesis by blast
qed

lemma current_is_last:
  assumes inv: "sender_inv view base H s" and t: "t \<in> set (sent_states s)" and "current_state s = ts_state t"
  shows "current_state s = ts_state (last (sent_states s))"
proof -
  let ?l = "last (sent_states s)"
  have l: "?l \<in> set (sent_states s)" using sender_invD(1) [OF inv] by simp
  have "sorted_wrt prefix (map (\<lambda>t. view (ts_state t)) (sent_states s))"
    using inv unfolding sender_inv_def sorted_wrt_append by blast
  then have "sorted_wrt (\<lambda>x y. prefix (view (ts_state x)) (view (ts_state y))) (sent_states s)"
    by (simp only: sorted_wrt_map)
  from sorted_wrt_last [OF this t] have "prefix (view (ts_state t)) (view (ts_state ?l))" by auto
  with sender_invD(4) [OF inv l] assms(3) show ?thesis
    by (metis prefix_order.antisym view_inj)
qed

text \<open>The state a tick sends from: rationalized, its timers computed, and its base chosen.\<close>

lemma tick_ready:
  assumes inv: "sender_inv view base H s" and room: "has_room s"
    and ct: "compute_timers (rationalize_states subtract (update_assumed_receiver_state s now rto)) now rto si = (due, s2)"
    and at: "attempt_prospective_resend_optimization diff_from s2
      (diff_from (current_state s2) (ts_state (sent_states s2 ! assumed_receiver s2))) = (s3, d)"
  obtains base' where "sender_inv view base' H s3" and "has_room s3"
    and "d = diff_from (current_state s3) (ts_state (sent_states s3 ! assumed_receiver s3))"
    and "base' @ view (current_state s3) = base @ view (current_state s)"
    and "map ts_num (sent_states s3) = map ts_num (sent_states s)" and "sender_ack_num s3 = sender_ack_num s"
    and "shutdown_in_progress s3 = shutdown_in_progress s"
    and "current_state s2 = current_state s3" and "sent_states s2 = sent_states s3"
    and "shutdown_in_progress s2 = shutdown_in_progress s3" and "assumed_receiver s2 < length (sent_states s3)"
proof -
  let ?u = "update_assumed_receiver_state s now rto"
  let ?r = "rationalize_states subtract ?u"
  have uinv: "sender_inv view base H ?u" using inv by (rule update_assumed_inv)
  obtain base' where r: "sender_inv view base' H ?r"
      "base' @ view (current_state ?r) = base @ view (current_state ?u)"
      "map ts_num (sent_states ?r) = map ts_num (sent_states ?u)"
    using rationalize_inv [OF uinv] .
  have rcore: "sender_ack_num ?r = sender_ack_num s" "shutdown_in_progress ?r = shutdown_in_progress s"
      "current_state ?u = current_state s" "sent_states ?u = sent_states s"
    by (simp_all add: rationalize_states_def update_assumed_receiver_state_def Let_def)
  obtain nsend nack where due: "due = (nsend, nack)" by fastforce
  note c2 = compute_timers_core [OF ct [unfolded due]]
  have inv2: "sender_inv view base' H s2"
    by (rule sender_inv_cong [OF c2(1,2) _ c2(4) r(1)]) (simp add: c2(3) sender_invD(2) [OF r(1)])
  have nums: "map ts_num (sent_states s2) = map ts_num (sent_states s)" using c2 r(3) rcore by simp
  have lastn: "ts_num (last (sent_states s2)) = ts_num (last (sent_states s))"
    using arg_cong [OF nums, of last] sender_invD(1) [OF inv] sender_invD(1) [OF inv2] by (simp add: last_map)
  note a3 = attempt_inv [OF inv2 refl at]
  have core3: "current_state s3 = current_state s2" "sent_states s3 = sent_states s2"
      "shutdown_in_progress s3 = shutdown_in_progress s2" "sender_ack_num s3 = sender_ack_num s2"
    using a3(3) by auto
  have "has_room s3" using room lastn core3 c2 rcore by (simp add: has_room_def)
  then show thesis
    by (rule that [OF a3(1) _ a3(2)]) (use core3 c2 r(2) rcore nums sender_invD(2) [OF inv2] in simp_all)
qed

text \<open>The whole tick: it stays silent or makes one honest send.\<close>

lemma tick_inv:
  assumes inv: "sender_inv view base H s" and room: "has_room s"
    and step: "tick diff_from subtract zc s now rto si mtu fr out = (s', fr', out')"
  shows "\<exists>base' s1. base' @ view (current_state s1) = base @ view (current_state s)
     \<and> map ts_num (sent_states s1) = map ts_num (sent_states s) \<and> sender_ack_num s1 = sender_ack_num s
     \<and> shutdown_in_progress s1 = shutdown_in_progress s
     \<and> (fr' = fr \<and> out' = out \<and> current_state s' = current_state s1 \<and> sent_states s' = sent_states s1
          \<and> shutdown_in_progress s' = shutdown_in_progress s1 \<and> sender_inv view base' H s'
          \<and> \<not> snd (tick_due subtract s now rto si)
          \<and> (fst (tick_due subtract s now rto si) \<longrightarrow> current_state s1 = ts_state (last (sent_states s1)))
          \<and> sender_ack_num s' = sender_ack_num s
          \<and> (shutdown_in_progress s \<or> sender_ack_num s = SHUTDOWN_NUM \<or> next_ack_time s' \<le> next_ack_time s)
        \<or> (\<exists>inst H'. sends view encode_events zc mtu base' H (s1, fr, out) inst H' (s', fr', out')))"
proof -
  obtain nsend nack s2 where ct: "compute_timers (rationalize_states subtract (update_assumed_receiver_state s now rto)) now rto si
      = ((nsend, nack), s2)" by (metis surj_pair)
  obtain s3 d where at: "attempt_prospective_resend_optimization diff_from s2
      (diff_from (current_state s2) (ts_state (sent_states s2 ! assumed_receiver s2))) = (s3, d)" by fastforce
  obtain base' where inv3: "sender_inv view base' H s3" and room3: "has_room s3"
    and d: "d = diff_from (current_state s3) (ts_state (sent_states s3 ! assumed_receiver s3))"
    and ctx: "base' @ view (current_state s3) = base @ view (current_state s)"
      "map ts_num (sent_states s3) = map ts_num (sent_states s)" "sender_ack_num s3 = sender_ack_num s"
      "shutdown_in_progress s3 = shutdown_in_progress s"
    and s2: "current_state s2 = current_state s3" "sent_states s2 = sent_states s3"
      "shutdown_in_progress s2 = shutdown_in_progress s3" "assumed_receiver s2 < length (sent_states s3)"
    using tick_ready [OF inv room ct at] .
  have due: "tick_due subtract s now rto si = (is_due nsend now, is_due nack now)" by (simp add: tick_due_def ct)
  have lift: ?thesis
    if "sends view encode_events zc mtu base' H (s3, fr, out) inst H' (s4, fr', out')"
      and "current_state s' = current_state s4" "sent_states s' = sent_states s4"
        "assumed_receiver s' = assumed_receiver s4" "shutdown_in_progress s' = shutdown_in_progress s4"
        "sender_ack_num s' = sender_ack_num s4" for inst H' s4
  proof -
    have "sends view encode_events zc mtu base' H (s3, fr, out) inst H' (s', fr', out')"
      using sends_queue [OF that(1)] that(2-) by (intro sends_cong [OF that(1)]) simp_all
    then show ?thesis using ctx by (intro exI [of _ base'] exI [of _ s3]) auto
  qed
  have t: "sent_states s3 ! assumed_receiver s3 \<in> set (sent_states s3)" using sender_invD(2) [OF inv3] by simp
  have same: "current_state s3 = ts_state (last (sent_states s3))" if "d = []"
    using diff_empty_iff [OF sender_invD(4) [OF inv3 t]] d that current_is_last [OF inv3 t] by simp
  note pre = tick_prefix_core [OF sender_invD(1) [OF inv], of subtract now rto]
  have early: "shutdown_in_progress s \<or> sender_ack_num s = SHUTDOWN_NUM \<or> next_ack_time s2 \<le> next_ack_time s"
      "sender_ack_num s2 = sender_ack_num s"
    using compute_timers_earlier [OF ct] compute_timers_core(5) [OF ct] pre by simp_all
  have kept: "next_ack_time s3 = next_ack_time s2" "sender_ack_num s3 = sender_ack_num s2"
    using at by (auto simp: attempt_prospective_resend_optimization_def Let_def split: if_splits)
  have silent: ?thesis
    if "fr' = fr" "out' = out" "current_state s' = current_state s3" "sent_states s' = sent_states s3"
      "shutdown_in_progress s' = shutdown_in_progress s3" "assumed_receiver s' < length (sent_states s3)"
      "\<not> is_due nack now" "is_due nsend now \<Longrightarrow> d = []"
      "next_ack_time s' = next_ack_time s2" "sender_ack_num s' = sender_ack_num s2"
    using that ctx same due early sender_inv_cong [OF that(3,4,6,5) inv3]
    by (intro exI [of _ base'] exI [of _ s3]) auto
  from step ct at show ?thesis
  proof (cases rule: tick_branches)
    case idle
    with s2 show ?thesis by (intro silent) auto
  next
    case (data s4)
    from send_to_receiver_sends [OF inv3 room3 d data(1,2)] obtain inst H'
      where "sends view encode_events zc mtu base' H (s3, fr, out) inst H' (s4, fr', out')" by blast
    from lift [OF this] data(3) show ?thesis by simp
  next
    case (ack s4)
    from send_empty_ack_sends [OF inv3 room3 _ ack(2)] d ack(1) obtain inst H'
      where "sends view encode_events zc mtu base' H (s3, fr, out) inst H' (s4, fr', out')" by auto
    from lift [OF this] ack(3) show ?thesis by auto
  next
    case skip
    with sender_invD(2) [OF inv3] kept show ?thesis by (intro silent) auto
  qed
qed

end

section \<open>Deadlines\<close>

text \<open>Timers persist: recomputing them later does not postpone them.\<close>

lemma start_clocks_diverged:
  assumes "current_state s \<noteq> ts_state (last (sent_states s))"
  shows "mindelay_clock (start_clocks s now) = Some (case mindelay_clock s of None \<Rightarrow> now | Some m \<Rightarrow> m)"
    and "send_mindelay (start_clocks s now) = send_mindelay s"
  using assms by (auto simp: start_clocks_def Let_def split: option.splits)

lemma compute_timers_diverged:
  assumes ct: "compute_timers s now rto si = ((ns, na), s1)"
    and div: "current_state s \<noteq> ts_state (last (sent_states s))"
  shows "ns = Some (max ((case mindelay_clock s of None \<Rightarrow> now | Some m \<Rightarrow> m) + send_mindelay s)
                        (ts_timestamp (last (sent_states s)) + si))"
    and "mindelay_clock s1 = Some (case mindelay_clock s of None \<Rightarrow> now | Some m \<Rightarrow> m)"
    and "send_mindelay s1 = send_mindelay s"
proof -
  have ns: "ns = next_send_at (start_clocks s now) now rto si"
    and s1: "s1 = start_clocks s now \<or> (\<exists>t. s1 = (start_clocks s now)\<lparr>next_ack_time := t\<rparr>)"
    using ct by (auto simp: compute_timers_def Let_def split: if_splits)
  show "ns = Some (max ((case mindelay_clock s of None \<Rightarrow> now | Some m \<Rightarrow> m) + send_mindelay s)
                        (ts_timestamp (last (sent_states s)) + si))"
    unfolding ns using div
    by (simp add: next_send_at_def Let_def start_clocks_core start_clocks_diverged [OF div])
  show "mindelay_clock s1 = Some (case mindelay_clock s of None \<Rightarrow> now | Some m \<Rightarrow> m)"
    "send_mindelay s1 = send_mindelay s"
    using s1 start_clocks_diverged [OF div] by auto
qed

lemma timers_persist:
  assumes ct: "compute_timers s now rto si = ((ns, na), s1)"
    and diverged: "current_state s \<noteq> ts_state (last (sent_states s))"
      "current_state s2 \<noteq> ts_state (last (sent_states s2))"
    and same: "mindelay_clock s2 = mindelay_clock s1" "send_mindelay s2 = send_mindelay s1"
      "ts_timestamp (last (sent_states s2)) = ts_timestamp (last (sent_states s1))"
    and ct2: "compute_timers s2 now' rto' si = ((ns', na'), s3)"
  shows "ns' = ns"
  using compute_timers_diverged [OF ct diverged(1)] compute_timers_diverged(1) [OF ct2 diverged(2)]
    compute_timers_core(2) [OF ct] same by simp

lemma ack_timer_persists:
  assumes ct: "compute_timers s now rto si = ((ns, na), s1)"
    and same: "next_ack_time s2 = next_ack_time s1" "shutdown_in_progress s2 = shutdown_in_progress s1"
      "sender_ack_num s2 = sender_ack_num s1"
      "ts_timestamp (last (sent_states s2)) = ts_timestamp (last (sent_states s1))"
    and ct2: "compute_timers s2 now' rto' si = ((ns', na'), s3)" and due: "is_due na now'"
  shows "is_due na' now'"
proof (cases "shutdown_in_progress s1 \<or> sender_ack_num s1 = SHUTDOWN_NUM")
  case True
  then have "na = Some (ts_timestamp (last (sent_states s1)) + si)" "na' = Some (ts_timestamp (last (sent_states s1)) + si)"
    using ct ct2 same compute_timers_core [OF ct]
    by (auto simp: compute_timers_def Let_def start_clocks_core)
  with due show ?thesis by simp
next
  case False
  then have na: "na = Some (next_ack_time s1)"
    using ct compute_timers_core [OF ct] by (auto simp: compute_timers_def Let_def start_clocks_core split: if_splits)
  have "\<exists>t. na' = Some t \<and> t \<le> next_ack_time s1"
    using False ct2 same
    by (auto simp: compute_timers_def Let_def start_clocks_core) (auto simp: start_clocks_def Let_def)
  with due na show ?thesis by (auto simp: is_due_def)
qed

lemma wait_time_deadline:
  assumes "wait_time s now rto si = (w, s1)" and "unat now + unat w \<le> unat now'"
  obtains ns na where "compute_timers s now rto si = ((ns, na), s1)" and "is_due ns now' \<or> is_due na now'"
    and "\<And>t. ns = Some t \<Longrightarrow> w \<le> sat_sub t now"
proof -
  obtain ns na s2 where ct: "compute_timers s now rto si = ((ns, na), s2)" by (metis surj_pair)
  with assms(1) have s2: "s2 = s1" and w: "w = (case earliest ns na of None \<Rightarrow> u64_max | Some t \<Rightarrow> sat_sub t now)"
    by (auto simp: wait_time_def)
  obtain ta where na: "na = Some ta" using ct by (auto simp: compute_timers_def Let_def)
  have due: "is_due (Some t) now'" if "w = sat_sub t now" for t
    using assms(2) that by (simp add: is_due_def word_le_nat_alt)
  have mono: "sat_sub a now \<le> sat_sub b now" if "a \<le> b" for a b
    using that by (simp add: word_le_nat_alt diff_le_mono)
  have "is_due ns now' \<or> is_due na now'" "\<And>t. ns = Some t \<Longrightarrow> w \<le> sat_sub t now"
    using w na due mono by (auto simp: earliest_def min_def split: option.splits if_splits)
  with that ct s2 show ?thesis by blast
qed

context sent_state
begin

lemma rationalize_diverged:
  assumes inv: "sender_inv view base H s" and "current_state s \<noteq> ts_state (last (sent_states s))"
  shows "current_state (rationalize_states subtract s) \<noteq> ts_state (last (sent_states (rationalize_states subtract s)))"
proof (cases "length (sent_states s) < 2")
  case True
  with assms(2) show ?thesis by (simp add: rationalize_states_def)
next
  case False
  let ?k = "ts_state (hd (sent_states s))" and ?l = "last (sent_states s)"
  have ne: "sent_states s \<noteq> []" using inv by (rule sender_invD)
  have chain: "sorted_wrt prefix (map (\<lambda>t. view (ts_state t)) (sent_states s))"
    using inv unfolding sender_inv_def sorted_wrt_append by blast
  have "prefix (view ?k) (view (current_state s))" using sender_invD(4) [OF inv] ne by simp
  moreover have "prefix (view ?k) (view (ts_state ?l))"
    using sorted_wrt_map_hd [OF chain, of ?l] ne by (metis last_in_set prefix_order.refl)
  ultimately have "subtract (current_state s) ?k \<noteq> subtract (ts_state ?l) ?k"
    using assms(2) subtract_inj by blast
  with False ne show ?thesis by (simp add: rationalize_states_def Let_def last_map)
qed

text \<open>As long as the history and what was typed stay the same, a state that differs from the last one sent does.\<close>

lemma diverged_stays:
  assumes inv: "sender_inv view base H s" and diverged: "current_state s \<noteq> ts_state (last (sent_states s))"
    and inv': "sender_inv view base' H s'" and num: "ts_num (last (sent_states s')) = ts_num (last (sent_states s))"
    and typed: "base' @ view (current_state s') = base @ view (current_state s)"
  shows "current_state s' \<noteq> ts_state (last (sent_states s'))"
proof
  assume "current_state s' = ts_state (last (sent_states s'))"
  then have "H (ts_num (last (sent_states s))) = base' @ view (current_state s')"
    using sender_invD(1,3) [OF inv'] num by (metis last_in_set)
  moreover have "H (ts_num (last (sent_states s))) = base @ view (ts_state (last (sent_states s)))"
    using sender_invD(3) [OF inv] sender_invD(1) [OF inv] by simp
  ultimately have "view (ts_state (last (sent_states s))) = view (current_state s)" using typed by simp
  with diverged view_inj show False by metis
qed

lemma input_on_time:
  assumes inv: "sender_inv view base H s" and room: "has_room s"
    and diverged: "current_state s \<noteq> ts_state (last (sent_states s))"
    and wait: "wait_time s now rto si = (w, s1)" and late: "unat now + unat w \<le> unat now'"
    and step: "tick diff_from subtract zc s1 now' rto' si mtu fr out = (s', fr', out')"
  shows "\<exists>base' s2 inst H'. base' @ view (current_state s2) = base @ view (current_state s)
     \<and> ts_num (last (sent_states s2)) = ts_num (last (sent_states s))
     \<and> sends view encode_events zc mtu base' H (s2, fr, out) inst H' (s', fr', out')"
proof -
  obtain ns na where ct: "compute_timers s now rto si = ((ns, na), s1)" and due: "is_due ns now' \<or> is_due na now'"
    using wait_time_deadline [OF wait late] by metis
  note core = compute_timers_core [OF ct]
  have inv1: "sender_inv view base H s1"
    by (rule sender_inv_cong [OF core(1,2) _ core(4) inv]) (simp add: core(3) sender_invD(2) [OF inv])
  have ne: "sent_states s1 \<noteq> []" using inv1 by (rule sender_invD)
  have room1: "has_room s1" using room core by (simp add: has_room_def)
  let ?r = "rationalize_states subtract (update_assumed_receiver_state s1 now' rto')"
  note pre = tick_prefix_core [OF ne, of subtract now' rto']
  have "current_state ?r \<noteq> ts_state (last (sent_states ?r))"
    by (rule rationalize_diverged [OF update_assumed_inv [OF inv1]])
      (use diverged core in \<open>simp add: update_assumed_receiver_state_def\<close>)
  note persist = this
  obtain ns' na' s3 where ct': "compute_timers ?r now' rto' si = ((ns', na'), s3)" by (metis surj_pair)
  have "is_due ns' now' \<or> is_due na' now'"
    using due timers_persist [OF ct diverged persist pre(1,2,6) ct']
      ack_timer_persists [OF ct pre(3-6) ct'] by auto
  then have "fst (tick_due subtract s1 now' rto' si) \<or> snd (tick_due subtract s1 now' rto' si)"
    by (simp add: tick_due_def ct')
  moreover from tick_inv [OF inv1 room1 step] obtain base' s2 where
    b: "base' @ view (current_state s2) = base @ view (current_state s1)"
      "map ts_num (sent_states s2) = map ts_num (sent_states s1)" and
    cases: "sent_states s' = sent_states s2 \<and> current_state s' = current_state s2 \<and> sender_inv view base' H s'
        \<and> \<not> snd (tick_due subtract s1 now' rto' si)
        \<and> (fst (tick_due subtract s1 now' rto' si) \<longrightarrow> current_state s2 = ts_state (last (sent_states s2)))
      \<or> (\<exists>inst H'. sends view encode_events zc mtu base' H (s2, fr, out) inst H' (s', fr', out'))"
    by blast
  have num: "ts_num (last (sent_states s2)) = ts_num (last (sent_states s))"
  proof -
    have "sent_states s2 \<noteq> []" using arg_cong [OF b(2), of length] ne by auto
    with arg_cong [OF b(2), of last] ne core show ?thesis by (simp add: last_map)
  qed
  have "\<not> (sent_states s' = sent_states s2 \<and> current_state s' = current_state s2 \<and> sender_inv view base' H s'
      \<and> current_state s2 = ts_state (last (sent_states s2)))"
    using diverged_stays [OF inv diverged, of base' s'] b num core by auto
  ultimately show ?thesis using cases b num core by (intro exI [of _ base'] exI [of _ s2]) auto
qed

text \<open>
  One round of the loop with an ack deadline \<open>t\<close>, which data that waits for its acknowledgement sets
  and which a silent tick hands on.
\<close>

lemma ack_on_time:
  assumes inv: "sender_inv view base H s" and room: "has_room s"
    and normal: "\<not> shutdown_in_progress s" "sender_ack_num s \<noteq> SHUTDOWN_NUM"
    and deadline: "pending_data_ack s \<and> t = now + ACK_DELAY_MS \<or> next_ack_time s \<le> t"
    and wait: "wait_time s now rto si = (w, s1)"
    and step: "tick diff_from subtract zc s1 now' rto' si mtu fr out = (s', fr', out')"
  shows "w \<le> sat_sub t now"
    and "(\<exists>base' s2 inst H'. base' @ view (current_state s2) = base @ view (current_state s)
        \<and> sender_ack_num s2 = sender_ack_num s
        \<and> sends view encode_events zc mtu base' H (s2, fr, out) inst H' (s', fr', out'))
      \<or> now' < t \<and> fr' = fr \<and> out' = out \<and> next_ack_time s' \<le> t
        \<and> (\<exists>base'. sender_inv view base' H s') \<and> has_room s'
        \<and> \<not> shutdown_in_progress s' \<and> sender_ack_num s' = sender_ack_num s"
proof -
  obtain ns na where ct: "compute_timers s now rto si = ((ns, na), s1)"
    and w: "w = (case earliest ns na of None \<Rightarrow> u64_max | Some t \<Rightarrow> sat_sub t now)"
    using wait by (auto simp: wait_time_def split: prod.splits)
  note core = compute_timers_core [OF ct] and early = compute_timers_earlier [OF ct]
  have na: "na = Some (next_ack_time s1)" and le: "next_ack_time s1 \<le> t"
    using early normal deadline by auto
  have mono: "sat_sub a now \<le> sat_sub b now" if "a \<le> b" for a b
    using that by (simp add: word_le_nat_alt diff_le_mono)
  have "w \<le> sat_sub (next_ack_time s1) now"
    unfolding w na by (cases ns) (auto simp: earliest_def intro: mono)
  from order_trans [OF this mono [OF le]] show "w \<le> sat_sub t now" .
  have inv1: "sender_inv view base H s1"
    by (rule sender_inv_cong [OF core(1,2) _ core(4) inv]) (simp add: core(3) sender_invD(2) [OF inv])
  have room1: "has_room s1" using room core by (simp add: has_room_def)
  let ?r = "rationalize_states subtract (update_assumed_receiver_state s1 now' rto')"
  note pre = tick_prefix_core [OF sender_invD(1) [OF inv1], of subtract now' rto']
  obtain ns' na' s3 where ct': "compute_timers ?r now' rto' si = ((ns', na'), s3)" by (metis surj_pair)
  have due: "snd (tick_due subtract s1 now' rto' si)" if "t \<le> now'"
    using ack_timer_persists [OF ct pre(3-6) ct', unfolded na] that le
    by (simp add: tick_due_def ct' is_due_def)
  obtain base' s2 where
    b: "base' @ view (current_state s2) = base @ view (current_state s)"
      "map ts_num (sent_states s2) = map ts_num (sent_states s1)" "sender_ack_num s2 = sender_ack_num s"
      "shutdown_in_progress s2 = shutdown_in_progress s" and
    cases: "fr' = fr \<and> out' = out \<and> sent_states s' = sent_states s2 \<and> shutdown_in_progress s' = shutdown_in_progress s2
        \<and> sender_inv view base' H s' \<and> \<not> snd (tick_due subtract s1 now' rto' si)
        \<and> sender_ack_num s' = sender_ack_num s1
        \<and> (shutdown_in_progress s1 \<or> sender_ack_num s1 = SHUTDOWN_NUM \<or> next_ack_time s' \<le> next_ack_time s1)
      \<or> (\<exists>inst H'. sends view encode_events zc mtu base' H (s2, fr, out) inst H' (s', fr', out'))"
    using tick_inv [OF inv1 room1 step] core by auto
  from cases show "(\<exists>base' s2 inst H'. base' @ view (current_state s2) = base @ view (current_state s)
        \<and> sender_ack_num s2 = sender_ack_num s
        \<and> sends view encode_events zc mtu base' H (s2, fr, out) inst H' (s', fr', out'))
      \<or> now' < t \<and> fr' = fr \<and> out' = out \<and> next_ack_time s' \<le> t
        \<and> (\<exists>base'. sender_inv view base' H s') \<and> has_room s'
        \<and> \<not> shutdown_in_progress s' \<and> sender_ack_num s' = sender_ack_num s"
  proof
    assume "\<exists>inst H'. sends view encode_events zc mtu base' H (s2, fr, out) inst H' (s', fr', out')"
    with b show ?thesis by blast
  next
    assume silent: "fr' = fr \<and> out' = out \<and> sent_states s' = sent_states s2
        \<and> shutdown_in_progress s' = shutdown_in_progress s2
        \<and> sender_inv view base' H s' \<and> \<not> snd (tick_due subtract s1 now' rto' si)
        \<and> sender_ack_num s' = sender_ack_num s1
        \<and> (shutdown_in_progress s1 \<or> sender_ack_num s1 = SHUTDOWN_NUM \<or> next_ack_time s' \<le> next_ack_time s1)"
    then have "sent_states s' \<noteq> []" by (blast dest: sender_invD(1))
    moreover have "sent_states s1 \<noteq> []" using inv1 by (rule sender_invD)
    ultimately have "ts_num (last (sent_states s')) = ts_num (last (sent_states s))"
      using arg_cong [OF b(2), of last] silent core by (simp add: last_map)
    then have "has_room s'" using room normal(1) by (simp add: has_room_def)
    moreover have "next_ack_time s' \<le> t" using silent normal core le by auto
    moreover have "now' < t" using due silent not_less by blast
    ultimately show ?thesis using silent b core normal by simp blast
  qed
qed

end

section \<open>Properties\<close>

lemma assumed_loop_all:
  "\<forall>t \<in> set ss. now - ts_timestamp t < rto + ACK_DELAY_MS \<Longrightarrow>
     assumed_loop now rto i a ss = (if ss = [] then a else i + length ss - 1)"
  by (induction now rto i a ss rule: assumed_loop.induct) auto

lemma age_antimono: "a \<le> b \<Longrightarrow> b \<le> now \<Longrightarrow> now - b \<le> now - (a :: u64)"
  by (simp add: word_le_nat_alt unat_sub)

text \<open>The benefit of the doubt is all or nothing: with timestamps in queue order and none in the
  future, the assumed receiver state is either the acknowledged head or the newest state. This is
  what makes the cull of a middle state safe.\<close>

theorem assumed_head_or_newest:
  assumes "sent_states s \<noteq> []" and "sorted (map ts_timestamp (sent_states s))"
    and "ts_timestamp (last (sent_states s)) \<le> now"
  shows "assumed_receiver (update_assumed_receiver_state s now rto) \<in> {0, length (sent_states s) - 1}"
proof -
  obtain h ss where q: "sent_states s = h # ss" using assms(1) by (cases "sent_states s") auto
  show ?thesis
  proof (cases ss)
    case Nil
    then show ?thesis by (simp add: update_assumed_receiver_state_def q)
  next
    case (Cons x xs)
    have le: "ts_timestamp x \<le> ts_timestamp t \<and> ts_timestamp t \<le> now" if "t \<in> set ss" for t
    proof -
      have srt: "sorted (map ts_timestamp ss)" and "ts_timestamp (last ss) \<le> now"
        using assms(2,3) q Cons by auto
      moreover have "ts_timestamp t \<le> ts_timestamp (last ss)"
        using sorted_wrt_last [OF srt, of "ts_timestamp t"] that Cons by (auto simp: last_map)
      ultimately show ?thesis using that Cons by auto
    qed
    show ?thesis
    proof (cases "now - ts_timestamp x < rto + ACK_DELAY_MS")
      case True
      have "now - ts_timestamp t < rto + ACK_DELAY_MS" if "t \<in> set ss" for t
        using le [OF that] age_antimono [of "ts_timestamp x" "ts_timestamp t" now] True by (simp add: le_less_trans)
      then have "assumed_loop now rto 1 0 ss = length ss"
        using assumed_loop_all [of ss now rto 1 0] Cons by simp
      then show ?thesis by (simp add: update_assumed_receiver_state_def q)
    next
      case False
      then show ?thesis by (simp add: update_assumed_receiver_state_def q Cons)
    qed
  qed
qed

text \<open>Culling never moves the assumed receiver: when the queue overflows and a middle state is
  dropped, the index still names the same state, for the two positions the index can have.\<close>

theorem cull_keeps_assumed:
  assumes "sent_states s \<noteq> []" and "length (sent_states s) \<le> SENT_QUEUE_CAP"
    and "assumed_receiver s \<in> {0, length (sent_states s) - 1}"
  shows "sent_states (add_sent_state s now n st) ! assumed_receiver (add_sent_state s now n st)
       = sent_states s ! assumed_receiver s
       \<and> length (sent_states (add_sent_state s now n st)) = min SENT_QUEUE_CAP (Suc (length (sent_states s)))"
proof (cases "length (sent_states s) < SENT_QUEUE_CAP")
  case True
  then show ?thesis
    using assms by (auto simp: add_sent_state_def Let_def nth_append)
next
  case False
  with assms(2) have "length (sent_states s) = 32" by (simp add: SENT_QUEUE_CAP_def)
  with assms show ?thesis
    by (auto simp: add_sent_state_def Let_def SENT_QUEUE_CAP_def nth_append)
qed

lemma filter_dropWhile_sorted:
  "sorted (map f q) \<Longrightarrow> filter (\<lambda>t. f t \<ge> (n :: 'b::linorder)) q = dropWhile (\<lambda>t. f t < n) q"
proof (induction q)
  case (Cons a q)
  show ?case
  proof (cases "f a < n")
    case True
    with Cons show ?thesis by (simp add: not_le)
  next
    case False
    then have "\<forall>x \<in> set q. n \<le> f x" using Cons.prems by force
    with False show ?thesis by simp
  qed
qed simp

lemma dropWhile_reaches:
  "sorted (map f q) \<Longrightarrow> \<exists>t \<in> set q. f t = (n :: 'b::linorder) \<Longrightarrow>
     \<exists>h r. dropWhile (\<lambda>t. f t < n) q = h # r \<and> f h = n"
proof (induction q)
  case (Cons a q)
  then have "n \<le> f a \<Longrightarrow> f a = n" by force
  with Cons show ?case by (cases "f a < n") auto
qed simp

lemma process_ack_effect:
  assumes "sender_inv view base H s"
  shows "if \<exists>t \<in> set (sent_states s). ts_num t = ack
         then sent_states (process_acknowledgment_through s ack) = dropWhile (\<lambda>t. ts_num t < ack) (sent_states s)
              \<and> sent_state_acked (process_acknowledgment_through s ack) = ack
         else process_acknowledgment_through s ack = s"
proof (cases "\<exists>t \<in> set (sent_states s). ts_num t = ack")
  case False
  then show ?thesis by (simp add: process_acknowledgment_through_def)
next
  case True
  have srt: "sorted (map ts_num (sent_states s))"
    using assms by (auto simp: sender_inv_def intro: sorted_wrt_mono_rel num_before_le)
  note drop = filter_dropWhile_sorted [OF srt]
  from dropWhile_reaches [OF srt True] obtain h r where "dropWhile (\<lambda>t. ts_num t < ack) (sent_states s) = h # r" "ts_num h = ack"
    by blast
  with True drop show ?thesis
    by (simp add: process_acknowledgment_through_def Let_def sent_state_acked_def front_num_def)
qed

lemma process_ack_ends:
  assumes inv: "sender_inv view base H s"
  shows "ts_num (last (sent_states (process_acknowledgment_through s ack))) = ts_num (last (sent_states s))"
    and "ts_num (hd (sent_states (process_acknowledgment_through s ack))) \<in> {ts_num (hd (sent_states s)), ack}"
    and "ts_num (hd (sent_states s)) \<le> ts_num (hd (sent_states (process_acknowledgment_through s ack)))"
proof -
  let ?s = "process_acknowledgment_through s ack"
  have ne: "sent_states s \<noteq> []" "sent_states ?s \<noteq> []"
    using sender_invD(1) [OF inv] sender_invD(1) [OF process_ack_inv [OF inv]] by auto
  have "ts_num (last (sent_states ?s)) = ts_num (last (sent_states s))
      \<and> ts_num (hd (sent_states ?s)) \<in> {ts_num (hd (sent_states s)), ack}
      \<and> ts_num (hd (sent_states s)) \<le> ts_num (hd (sent_states ?s))"
  proof (cases "\<exists>t \<in> set (sent_states s). ts_num t = ack")
    case True
    with process_ack_effect [OF inv, of ack] have q: "sent_states ?s = dropWhile (\<lambda>t. ts_num t < ack) (sent_states s)"
      and h: "sent_state_acked ?s = ack" by auto
    have "last (sent_states ?s) = last (sent_states s)"
      using ne by (metis q append_is_Nil_conv last_append takeWhile_dropWhile_id)
    moreover have "ts_num (hd (sent_states ?s)) = ack"
      using h ne by (cases "sent_states ?s") (auto simp: sent_state_acked_def front_num_def)
    ultimately show ?thesis using True sender_invD(6) [OF inv] by auto
  next
    case False
    with process_ack_effect [OF inv, of ack] show ?thesis by simp
  qed
  then show "ts_num (last (sent_states ?s)) = ts_num (last (sent_states s))"
    "ts_num (hd (sent_states ?s)) \<in> {ts_num (hd (sent_states s)), ack}"
    "ts_num (hd (sent_states s)) \<le> ts_num (hd (sent_states ?s))" by auto
qed

text \<open>C35: Acknowledgements are exact: an ack of a queued state makes that state the head and drops
  exactly the states before it; any other ack, such as one of a culled state, changes nothing.\<close>

theorem acknowledgment_exact:
  assumes "sender_inv view base H s"
  shows "if \<exists>t \<in> set (sent_states s). ts_num t = ack
         then sent_states (process_acknowledgment_through s ack) = dropWhile (\<lambda>t. ts_num t < ack) (sent_states s)
              \<and> sent_state_acked (process_acknowledgment_through s ack) = ack
         else process_acknowledgment_through s ack = s"
  using assms by (rule process_ack_effect)

section \<open>Witnesses\<close>

text \<open>A sender of three byte lists, sent at 0, 40 and 60 ms.\<close>

definition three_sent :: "bytes ssp_sender" where
  "three_sent = (sender_new [] 0 1)\<lparr>current_state := [1, 2], sent_states :=
     [\<lparr>ts_timestamp = 0, ts_num = 0, ts_state = []\<rparr>, \<lparr>ts_timestamp = 40, ts_num = 1, ts_state = [1]\<rparr>,
      \<lparr>ts_timestamp = 60, ts_num = 2, ts_state = [1, 2]\<rparr>]\<rparr>"

theorem assumed_head_or_newest_witness:
  "assumed_receiver (update_assumed_receiver_state three_sent 100 120) \<in> {0, 2}"
proof -
  have "length (sent_states three_sent) - 1 = 2" by (simp add: three_sent_def)
  moreover have "assumed_receiver (update_assumed_receiver_state three_sent 100 120)
      \<in> {0, length (sent_states three_sent) - 1}"
    by (rule assumed_head_or_newest) (simp_all add: three_sent_def)
  ultimately show ?thesis by simp
qed

theorem cull_keeps_assumed_witness:
  "sent_states (add_sent_state three_sent 70 3 [1]) ! assumed_receiver (add_sent_state three_sent 70 3 [1])
     = \<lparr>ts_timestamp = 0, ts_num = 0, ts_state = []\<rparr>"
  using cull_keeps_assumed [of three_sent 70 3 "[1]"]
  by (simp add: three_sent_def sender_new_def SENT_QUEUE_CAP_def)

lemma three_sent_inv: "sender_inv id [] (\<lambda>n. take (unat n) [1, 2]) three_sent"
  by (simp add: three_sent_def sender_new_def sender_inv_def SENT_QUEUE_CAP_def num_before_def
      SHUTDOWN_NUM_def u64_max_def)

theorem acknowledgment_exact_witness:
  "sent_states (process_acknowledgment_through three_sent 1)
     = [\<lparr>ts_timestamp = 40, ts_num = 1, ts_state = [1]\<rparr>, \<lparr>ts_timestamp = 60, ts_num = 2, ts_state = [1, 2]\<rparr>]"
  using acknowledgment_exact [OF three_sent_inv, of 1] by (simp add: three_sent_def)

end
