(* ===== verification/Ssp_Receiver.thy ===== *)
theory Ssp_Receiver
  imports Sync_State
begin

text \<open>
  \<^verbatim>\<open>src/ssp.rs\<close> lines 745-865: the receiving half of the synchronization engine.

  The receiver is generic over the received state: \<open>apply_string\<close> is an argument, with the store
  \<open>'h\<close> the state's operations allocate from (the node allocator of the host log; the user stream
  needs none). The lemmas show that the queue stays non-empty and strictly sorted by state number,
  that a state already held or an unknown base changes no state, what each outcome does to the
  queue, and how the quench window bounds its growth.
\<close>

datatype ssp_error =
    ProtocolVersion u32
  | BadDiff string

datatype 's recv_outcome =
    Latest u64 bool 's
  | OutOfOrder u64 bool
  | Duplicate
  | NoReference
  | Quenched

definition RECEIVED_QUEUE_CAP :: nat where "RECEIVED_QUEUE_CAP = 1024"
definition QUENCH_WINDOW_MS :: u64 where "QUENCH_WINDOW_MS = 15000"

record 's ssp_receiver =
  received :: "'s timestamped_state list"
  quench_until :: u64

definition receiver_new :: "'s \<Rightarrow> u64 \<Rightarrow> 's ssp_receiver" where
  "receiver_new initial now =
     \<lparr>received = [\<lparr>ts_timestamp = now, ts_num = 0, ts_state = initial\<rparr>], quench_until = 0\<rparr>"

text \<open>\<open>latest\<close> expects the queue to be non-empty; the invariant below is what justifies it.\<close>

definition latest :: "'s ssp_receiver \<Rightarrow> 's timestamped_state" where
  "latest self = last (received self)"

definition latest_state :: "'s ssp_receiver \<Rightarrow> 's" where
  "latest_state self = ts_state (latest self)"

definition state_count :: "'s ssp_receiver \<Rightarrow> nat" where
  "state_count self = length (received self)"

definition process_throwaway_until :: "'s ssp_receiver \<Rightarrow> u64 \<Rightarrow> bool \<times> 's ssp_receiver" where
  "process_throwaway_until self tn =
     (if \<not> (\<exists>s \<in> set (received self). ts_num s \<ge> tn) then (False, self)
      else (True, self\<lparr>received := filter (\<lambda>s. ts_num s \<ge> tn) (received self)\<rparr>))"

definition insert_sorted :: "'s timestamped_state \<Rightarrow> 's timestamped_state list \<Rightarrow> 's timestamped_state list" where
  "insert_sorted new_state q =
     (let position = length (takeWhile (\<lambda>s. \<not> ts_num s > ts_num new_state) q)
      in take position q @ [new_state] @ drop position q)"

text \<open>The tail of \<open>process_instruction\<close>: append the new state if it is the newest, else slot it in.\<close>

definition insert_state ::
  "'s ssp_receiver \<Rightarrow> 's timestamped_state \<Rightarrow> bool \<Rightarrow> 's recv_outcome \<times> 's ssp_receiver" where
  "insert_state self new_state had_diff =
     (if received self \<noteq> [] \<and> ts_num (last (received self)) < ts_num new_state then
        (Latest (ts_num new_state) had_diff (ts_state new_state),
         self\<lparr>received := received self @ [new_state]\<rparr>)
      else
        (OutOfOrder (ts_num new_state) had_diff,
         self\<lparr>received := insert_sorted new_state (received self)\<rparr>))"

definition process_instruction ::
  "('h \<Rightarrow> 's \<Rightarrow> bytes \<Rightarrow> (wire_error + 's) \<times> 'h) \<Rightarrow> 'h \<Rightarrow> 's ssp_receiver \<Rightarrow> transport_instruction \<Rightarrow> u64
     \<Rightarrow> (ssp_error + 's recv_outcome) \<times> 's ssp_receiver \<times> 'h" where
  "process_instruction apply_string h self inst now =
     (if protocol_version inst \<noteq> MOSH_PROTOCOL_VERSION then
        (Inl (ProtocolVersion (protocol_version inst)), self, h)
      else if \<exists>s \<in> set (received self). ts_num s = new_num inst then (Inr Duplicate, self, h)
      else if \<not> (\<exists>s \<in> set (received self). ts_num s = old_num inst) then (Inr NoReference, self, h)
      else
        case process_throwaway_until self (throwaway_num inst) of
          (False, self1) \<Rightarrow> (Inr NoReference, self1, h)
        | (True, self1) \<Rightarrow>
            (case find (\<lambda>s. ts_num s = old_num inst) (received self1) of
               None \<Rightarrow> (Inr NoReference, self1, h)
             | Some reference \<Rightarrow>
                 if length (received self1) > RECEIVED_QUEUE_CAP \<and> now < quench_until self1 then
                   (Inr Quenched, self1, h)
                 else
                   let self2 = (if length (received self1) > RECEIVED_QUEUE_CAP
                                then self1\<lparr>quench_until := now + QUENCH_WINDOW_MS\<rparr> else self1);
                       new_state = reference\<lparr>ts_timestamp := now, ts_num := new_num inst\<rparr>;
                       had_diff = (diff inst \<noteq> [])
                   in if had_diff then
                        (case apply_string h (ts_state new_state) (diff inst) of
                           (Inl e, h') \<Rightarrow> (Inl (BadDiff (wire_error_string e)), self2, h')
                         | (Inr s', h') \<Rightarrow>
                             (case insert_state self2 (new_state\<lparr>ts_state := s'\<rparr>) had_diff of
                                (outcome, self3) \<Rightarrow> (Inr outcome, self3, h')))
                      else
                        (case insert_state self2 new_state had_diff of
                           (outcome, self3) \<Rightarrow> (Inr outcome, self3, h))))"

section \<open>The queue invariant\<close>

definition receiver_inv :: "'s ssp_receiver \<Rightarrow> bool" where
  "receiver_inv r \<longleftrightarrow> received r \<noteq> [] \<and> sorted_wrt (<) (map ts_num (received r))"

lemma receiver_inv_new [inv_intros]: "receiver_inv (receiver_new s now)"
  by (simp add: receiver_inv_def receiver_new_def)

lemma sorted_takeWhile_le:
  "sorted_wrt (<) (map ts_num q) \<Longrightarrow> s \<in> set (dropWhile (\<lambda>s. \<not> ts_num s > n) q) \<Longrightarrow> n < ts_num s"
proof (induction q)
  case Nil
  then show ?case by simp
next
  case (Cons a q)
  then show ?case by (auto split: if_splits)
qed

lemma insert_sorted_split:
  "insert_sorted new q = takeWhile (\<lambda>s. \<not> ts_num s > ts_num new) q @ [new] @
     dropWhile (\<lambda>s. \<not> ts_num s > ts_num new) q"
  by (simp add: insert_sorted_def takeWhile_eq_take [symmetric] dropWhile_eq_drop [symmetric] Let_def)

lemma set_insert_sorted [simp]: "set (insert_sorted new q) = insert new (set q)"
proof -
  let ?p = "length (takeWhile (\<lambda>s. \<not> ts_num s > ts_num new) q)"
  have "set (take ?p q @ drop ?p q) = set q" by (simp only: append_take_drop_id)
  then show ?thesis by (simp only: insert_sorted_def Let_def set_append) auto
qed

lemma sorted_put_between:
  assumes "sorted_wrt (<) (map f xs)" and "sorted_wrt (<) (map f ys)"
    and "\<And>a. a \<in> set xs \<Longrightarrow> f a < f z" and "\<And>c. c \<in> set ys \<Longrightarrow> f z < f c"
    and "\<And>a c. a \<in> set xs \<Longrightarrow> c \<in> set ys \<Longrightarrow> f a < f c"
  shows "sorted_wrt (<) (map f (xs @ [z] @ ys))"
  using assms by (simp add: sorted_wrt_append)

lemma insert_sorted_inv:
  assumes "sorted_wrt (<) (map ts_num q)" and "\<forall>s \<in> set q. ts_num s \<noteq> ts_num new"
  shows "sorted_wrt (<) (map ts_num (insert_sorted new q))"
proof -
  let ?P = "\<lambda>s. \<not> ts_num s > ts_num new"
  have split: "q = takeWhile ?P q @ dropWhile ?P q" by simp
  have low: "ts_num s < ts_num new" if "s \<in> set (takeWhile ?P q)" for s
    using set_takeWhileD [OF that] assms(2) by auto
  have high: "ts_num new < ts_num s" if "s \<in> set (dropWhile ?P q)" for s
    by (rule sorted_takeWhile_le [OF assms(1) that])
  have "sorted_wrt (<) (map ts_num (takeWhile ?P q) @ map ts_num (dropWhile ?P q))"
    using assms(1) by (simp flip: map_append)
  then have parts: "sorted_wrt (<) (map ts_num (takeWhile ?P q))" "sorted_wrt (<) (map ts_num (dropWhile ?P q))"
    by (simp_all only: sorted_wrt_append)
  have cross: "ts_num a < ts_num c" if "a \<in> set (takeWhile ?P q)" "c \<in> set (dropWhile ?P q)" for a c
    using low [OF that(1)] high [OF that(2)] by simp
  show ?thesis
    unfolding insert_sorted_split by (rule sorted_put_between) (use parts low high cross in blast)+
qed

lemma filter_inv:
  "sorted_wrt (<) (map ts_num q) \<Longrightarrow> sorted_wrt (<) (map ts_num (filter P q))"
  by (induction q) auto

lemma throwaway_inv:
  assumes "receiver_inv r" and "process_throwaway_until r tn = (b, r')"
  shows "receiver_inv r' \<and> set (received r') \<subseteq> set (received r) \<and> quench_until r' = quench_until r"
  using assms
  by (auto simp: receiver_inv_def process_throwaway_until_def filter_inv filter_empty_conv not_le
      split: if_splits)

lemma last_max:
  "sorted_wrt (<) (map ts_num q) \<Longrightarrow> s \<in> set q \<Longrightarrow> ts_num s \<le> ts_num (last q)"
  by (induction q) (auto simp: less_imp_le)

lemma insert_state_length:
  "insert_state r new had = (outcome, r') \<Longrightarrow>
     length (received r') = Suc (length (received r)) \<and> quench_until r' = quench_until r"
  by (auto simp: insert_state_def insert_sorted_def Let_def length_takeWhile_le min_absorb2 split: if_splits)

lemma insert_state_inv:
  assumes "receiver_inv r" and "\<forall>s \<in> set (received r). ts_num s \<noteq> ts_num new"
    and "insert_state r new had = (outcome, r')"
  shows "receiver_inv r' \<and> set (received r') = insert new (set (received r))"
proof (cases "ts_num (last (received r)) < ts_num new")
  case True
  with assms(1,3) have r': "r' = r\<lparr>received := received r @ [new]\<rparr>"
    by (simp add: insert_state_def receiver_inv_def)
  have "ts_num s < ts_num new" if "s \<in> set (received r)" for s
    using last_max [OF _ that] True assms(1) by (force simp: receiver_inv_def)
  with r' assms(1) show ?thesis
    by (auto simp: receiver_inv_def sorted_wrt_append)
next
  case False
  with assms(1,3) have r': "r' = r\<lparr>received := insert_sorted new (received r)\<rparr>"
    by (simp add: insert_state_def receiver_inv_def)
  moreover have "insert_sorted new (received r) \<noteq> []" by (simp add: insert_sorted_def Let_def)
  ultimately show ?thesis
    using insert_sorted_inv [OF _ assms(2)] assms(1) by (simp add: receiver_inv_def)
qed

text \<open>The outcome tells whether the new state is the newest.\<close>

lemma insert_state_outcome:
  assumes inv: "receiver_inv r" and apart: "\<forall>s \<in> set (received r). ts_num s \<noteq> ts_num new"
    and ins: "insert_state r new had = (outcome, r')"
  shows "outcome = Latest (ts_num new) had (ts_state new) \<and> latest r' = new
       \<or> outcome = OutOfOrder (ts_num new) had \<and> latest r' \<in> set (received r)"
proof (cases "ts_num (last (received r)) < ts_num new")
  case True
  then show ?thesis using ins inv by (auto simp: insert_state_def receiver_inv_def latest_def)
next
  case False
  then have ooo: "outcome = OutOfOrder (ts_num new) had"
    using ins inv by (auto simp: insert_state_def receiver_inv_def)
  note r' = insert_state_inv [OF inv apart ins]
  have l: "last (received r) \<in> set (received r)" using inv by (simp add: receiver_inv_def)
  then have "ts_num (last (received r)) \<le> ts_num (latest r')"
    using last_max [of "received r'" "last (received r)"] r' by (simp add: receiver_inv_def latest_def)
  moreover have "ts_num (last (received r)) > ts_num new" using False apart l by force
  ultimately have "latest r' \<noteq> new" by auto
  moreover have "latest r' \<in> set (received r')"
    unfolding latest_def by (rule last_in_set) (use r' in \<open>simp add: receiver_inv_def\<close>)
  ultimately show ?thesis using ooo r' by auto
qed

text \<open>
  What a call does, by outcome. An inserted state is built from a held reference with the number
  the instruction names as its base; all other outcomes only ever drop states that the throwaway
  number covers.
\<close>

definition kept :: "u64 \<Rightarrow> 's ssp_receiver \<Rightarrow> 's timestamped_state set" where
  "kept tn r = {s \<in> set (received r). ts_num s \<ge> tn}"

text \<open>The end of a call whose reference is held and which the quench window admits.\<close>

lemma admitted_instruction:
  assumes step: "process_instruction ap h r inst now = (res, r', h')"
    and th: "process_throwaway_until r (throwaway_num inst) = (True, r1)"
    and ver: "protocol_version inst = MOSH_PROTOCOL_VERSION"
    and fresh: "\<not> (\<exists>s \<in> set (received r). ts_num s = new_num inst)" "\<exists>s \<in> set (received r). ts_num s = old_num inst"
    and ref: "find (\<lambda>s. ts_num s = old_num inst) (received r1) = Some reference"
    and admit: "\<not> (RECEIVED_QUEUE_CAP < length (received r1) \<and> now < quench_until r1)"
    and r2: "r2 = (if RECEIVED_QUEUE_CAP < length (received r1)
      then r1\<lparr>quench_until := now + QUENCH_WINDOW_MS\<rparr> else r1)"
  obtains
    (bad) e where "diff inst \<noteq> []" "ap h (ts_state reference) (diff inst) = (Inl e, h')"
      "res = Inl (BadDiff (wire_error_string e))" "r' = r2"
  | (good) st outcome where "if diff inst = [] then st = ts_state reference \<and> h' = h
        else ap h (ts_state reference) (diff inst) = (Inr st, h')"
      "insert_state r2 \<lparr>ts_timestamp = now, ts_num = new_num inst, ts_state = st\<rparr> (diff inst \<noteq> []) = (outcome, r')"
      "res = Inr outcome"
proof -
  let ?new = "\<lambda>st. \<lparr>ts_timestamp = now, ts_num = new_num inst, ts_state = st\<rparr>"
  have eq: "(res, r', h') =
      (if diff inst = [] then (case insert_state r2 (?new (ts_state reference)) False of (oc, r3) \<Rightarrow> (Inr oc, r3, h))
       else case ap h (ts_state reference) (diff inst) of
         (Inl e, h2) \<Rightarrow> (Inl (BadDiff (wire_error_string e)), r2, h2)
       | (Inr st, h2) \<Rightarrow> (case insert_state r2 (?new st) True of (oc, r3) \<Rightarrow> (Inr oc, r3, h2)))"
  proof -
    have new: "reference\<lparr>ts_timestamp := now, ts_num := new_num inst\<rparr> = ?new (ts_state reference)"
      "\<And>st. reference\<lparr>ts_timestamp := now, ts_num := new_num inst, ts_state := st\<rparr> = ?new st" by simp_all
    then show ?thesis
      using th ver fresh ref admit unfolding step [symmetric] process_instruction_def r2 Let_def
      by (auto simp: new split: prod.split sum.split)
  qed
  show thesis
  proof (cases "diff inst = []")
    case True
    with eq show thesis
      by (cases "insert_state r2 (?new (ts_state reference)) False") (auto intro: good [of "ts_state reference"])
  next
    case False
    show thesis
    proof (cases "ap h (ts_state reference) (diff inst)")
      case (Pair ra h2)
      with False eq show thesis
        by (cases ra; cases "insert_state r2 (?new (projr ra)) True") (auto intro: bad good)
    qed
  qed
qed

lemma process_instruction_cases:
  assumes inv: "receiver_inv r"
    and step: "process_instruction ap h r inst now = (res, r', h')"
  obtains
    (version) "protocol_version inst \<noteq> MOSH_PROTOCOL_VERSION"
      "res = Inl (ProtocolVersion (protocol_version inst))" "r' = r" "h' = h"
  | (duplicate) "res = Inr Duplicate" "r' = r" "h' = h" "\<exists>s \<in> set (received r). ts_num s = new_num inst"
  | (no_reference) "res = Inr NoReference" "h' = h" "receiver_inv r'"
      "set (received r') \<in> {set (received r), kept (throwaway_num inst) r}"
  | (quenched) "res = Inr Quenched" "h' = h" "receiver_inv r'"
      "set (received r') = kept (throwaway_num inst) r" "now < quench_until r" "quench_until r' = quench_until r"
      "RECEIVED_QUEUE_CAP < length (received r')"
  | (bad_diff) e reference where "res = Inl (BadDiff (wire_error_string e))" "receiver_inv r'"
      "set (received r') = kept (throwaway_num inst) r"
      "reference \<in> kept (throwaway_num inst) r" "ts_num reference = old_num inst"
      "ap h (ts_state reference) (diff inst) = (Inl e, h')"
  | (inserted) outcome reference st where "res = Inr outcome" "receiver_inv r'"
      "protocol_version inst = MOSH_PROTOCOL_VERSION"
      "\<forall>s \<in> set (received r). ts_num s \<noteq> new_num inst"
      "reference \<in> kept (throwaway_num inst) r" "ts_num reference = old_num inst"
      "if diff inst = [] then st = ts_state reference \<and> h' = h
       else ap h (ts_state reference) (diff inst) = (Inr st, h')"
      "set (received r') = insert \<lparr>ts_timestamp = now, ts_num = new_num inst, ts_state = st\<rparr>
         (kept (throwaway_num inst) r)"
      "outcome = Latest (new_num inst) (diff inst \<noteq> []) st \<and> latest r' = \<lparr>ts_timestamp = now, ts_num = new_num inst, ts_state = st\<rparr>
       \<or> outcome = OutOfOrder (new_num inst) (diff inst \<noteq> []) \<and> latest r' \<in> set (received r)"
      "length (received r') = Suc (length (filter (\<lambda>s. ts_num s \<ge> throwaway_num inst) (received r)))"
      "RECEIVED_QUEUE_CAP < length (filter (\<lambda>s. ts_num s \<ge> throwaway_num inst) (received r)) \<longrightarrow>
         quench_until r \<le> now \<and> quench_until r' = now + QUENCH_WINDOW_MS"
proof -
  obtain b r1 where th: "process_throwaway_until r (throwaway_num inst) = (b, r1)" by fastforce
  note r1 = throwaway_inv [OF inv th]
  have kept_r1: "b \<Longrightarrow> set (received r1) = kept (throwaway_num inst) r" "\<not> b \<Longrightarrow> r1 = r"
    "b \<Longrightarrow> received r1 = filter (\<lambda>s. ts_num s \<ge> throwaway_num inst) (received r)"
    using th by (auto simp: process_throwaway_until_def kept_def split: if_splits)
  define r2 where "r2 = (if RECEIVED_QUEUE_CAP < length (received r1)
      then r1\<lparr>quench_until := now + QUENCH_WINDOW_MS\<rparr> else r1)"
  have r2: "received r2 = received r1" "receiver_inv r2"
    using r1 by (auto simp: r2_def receiver_inv_def)
  let ?dup = "\<exists>s \<in> set (received r). ts_num s = new_num inst" and ?held = "\<exists>s \<in> set (received r). ts_num s = old_num inst"
  let ?find = "find (\<lambda>s. ts_num s = old_num inst) (received r1)"
  consider "protocol_version inst \<noteq> MOSH_PROTOCOL_VERSION"
    | "protocol_version inst = MOSH_PROTOCOL_VERSION" "?dup \<or> \<not> ?held \<or> \<not> b \<or> ?find = None"
    | reference where "protocol_version inst = MOSH_PROTOCOL_VERSION" "\<not> ?dup" "?held" b "?find = Some reference"
    by fastforce
  then show thesis
  proof cases
    case 1
    with step show thesis by (auto simp: process_instruction_def intro: version)
  next
    case 2
    with step th inv r1 kept_r1 show thesis
      by (cases b) (auto simp: process_instruction_def intro: duplicate no_reference split: if_splits)
  next
    case (3 reference)
    then have refs: "reference \<in> set (received r1)" "ts_num reference = old_num inst"
      by (auto simp: find_Some_iff in_set_conv_nth)
    show thesis
    proof (cases "RECEIVED_QUEUE_CAP < length (received r1) \<and> now < quench_until r1")
      case True
      with step th 3 r1 kept_r1 show thesis
        by (intro quenched) (auto simp: process_instruction_def split: if_splits)
    next
      case admit: False
      from step th [unfolded \<open>b\<close> [THEN eqTrueI]] 3(1-3,5) admit r2_def show thesis
      proof (cases rule: admitted_instruction)
        case (bad e)
        with r2 kept_r1(1) 3(4) refs show thesis by (intro bad_diff [of e reference]) auto
      next
        case (good st outcome)
        have apart: "\<forall>s \<in> set (received r2). ts_num s \<noteq> new_num inst" using 3(2) r1 r2 by auto
        note out = insert_state_inv [OF r2(2) _ good(2)] insert_state_outcome [OF r2(2) _ good(2)] insert_state_length [OF good(2)]
        have "RECEIVED_QUEUE_CAP < length (received r1) \<longrightarrow> quench_until r \<le> now \<and> quench_until r' = now + QUENCH_WINDOW_MS"
          using admit out(3) r1 by (auto simp: r2_def)
        with out apart r1 r2 kept_r1 refs good 3 show thesis
          by (intro inserted [of outcome reference st]) auto
      qed
    qed
  qed
qed

section \<open>Properties\<close>

lemma process_instruction_inv [inv_intros]:
  assumes "receiver_inv r" and "process_instruction ap h r inst now = (res, r', h')"
  shows "receiver_inv r'"
  using assms(1) by (rule process_instruction_cases [OF _ assms(2)]) (use assms(1) in simp_all)

lemma latest_in: "receiver_inv r \<Longrightarrow> latest r \<in> set (received r)"
  by (simp add: receiver_inv_def latest_def)

lemma latest_ge: "receiver_inv r \<Longrightarrow> s \<in> set (received r) \<Longrightarrow> ts_num s \<le> ts_num (latest r)"
  by (simp add: receiver_inv_def latest_def last_max)

lemma num_unique:
  "sorted_wrt (<) (map ts_num q) \<Longrightarrow> s \<in> set q \<Longrightarrow> t \<in> set q \<Longrightarrow> ts_num s = ts_num t \<Longrightarrow> s = t"
  by (induction q) auto

text \<open>A cull keeps the newest state as long as it keeps anything.\<close>

lemma latest_kept:
  assumes "receiver_inv r" and "s \<in> kept tn r"
  shows "latest r \<in> kept tn r"
  using latest_ge [OF assms(1), of s] assms(2) latest_in [OF assms(1)] by (auto simp: kept_def)

lemma latest_mono:
  assumes "receiver_inv r" and "receiver_inv r'" and "latest r \<in> set (received r')"
  shows "ts_num (latest r) \<le> ts_num (latest r')"
  using latest_ge assms by blast

lemma latest_same:
  assumes "receiver_inv r" and "receiver_inv r'" and "latest r \<in> set (received r')" and "latest r' \<in> set (received r)"
  shows "latest r' = latest r"
proof -
  have "ts_num (latest r') = ts_num (latest r)"
    using latest_mono [OF assms(1,2,3)] latest_ge [OF assms(1,4)] by simp
  with num_unique [OF _ assms(4) latest_in [OF assms(1)]] assms(1) show ?thesis
    by (simp add: receiver_inv_def)
qed

text \<open>Only an appended state changes the newest one.\<close>

lemma latest_unless_appended:
  assumes "receiver_inv r" and "process_instruction ap h r inst now = (res, r', h')"
    and "\<not> (\<exists>n d st. res = Inr (Latest n d st))"
  shows "latest r' = latest r"
proof -
  have inv': "receiver_inv r'" by (rule process_instruction_inv [OF assms(1,2)])
  have shrunk: "latest r' = latest r" if "set (received r') \<in> {set (received r), kept tn r}" for tn
  proof -
    have "latest r' \<in> set (received r')" by (rule latest_in [OF inv'])
    with that latest_in [OF assms(1)] latest_kept [OF assms(1)]
    show ?thesis by (intro latest_same [OF assms(1) inv']) (auto simp: kept_def)
  qed
  show ?thesis using assms(1,2)
  proof (cases rule: process_instruction_cases)
    case (inserted outcome reference st)
    with assms(3) have "latest r' \<in> set (received r)" by auto
    with latest_kept [OF assms(1) inserted(5)] inserted(8) show ?thesis
      by (intro latest_same [OF assms(1) inv']) simp_all
  qed (use shrunk in auto)
qed

text \<open>The queue of received states is never empty and strictly sorted by number, whatever the
  peer sends: no instruction, throwaway number or diff can break it. This is what makes
  \<open>latest\<close> total.\<close>

theorem receiver_queue_invariant:
  assumes "receiver_inv r" and "process_instruction ap h r inst now = (res, r', h')"
  shows "receiver_inv r'"
  using assms by (rule process_instruction_inv)

text \<open>A new state is built from the state the instruction names as its base, and from no other:
  when an instruction is accepted, its base was held and not thrown away, the new state is that base
  with the diff applied, the queue gains exactly it, and \<open>Latest\<close> reports the newest state.\<close>

theorem accepted_instruction:
  assumes "receiver_inv r" and "process_instruction ap h r inst now = (Inr outcome, r', h')"
    and "outcome \<notin> {Duplicate, NoReference, Quenched}"
  shows "\<exists>reference st. reference \<in> set (received r) \<and> ts_num reference = old_num inst
       \<and> throwaway_num inst \<le> old_num inst
       \<and> (if diff inst = [] then st = ts_state reference
          else ap h (ts_state reference) (diff inst) = (Inr st, h'))
       \<and> set (received r') = insert \<lparr>ts_timestamp = now, ts_num = new_num inst, ts_state = st\<rparr> (kept (throwaway_num inst) r)
       \<and> (outcome = Latest (new_num inst) (diff inst \<noteq> []) st \<and> latest_state r' = st
          \<or> outcome = OutOfOrder (new_num inst) (diff inst \<noteq> []) \<and> latest r' = latest r)"
  using assms(1,2)
proof (cases rule: process_instruction_cases)
  case (inserted outcome' reference st)
  have same: "latest r' = latest r" if "latest r' \<in> set (received r)"
    using latest_kept [OF assms(1) inserted(5)] inserted(8)
    by (intro latest_same [OF assms(1) process_instruction_inv [OF assms(1,2)] _ that]) simp
  show ?thesis
    using inserted same
    by (intro exI [of _ reference] exI [of _ st]) (auto simp: kept_def latest_state_def split: if_splits)
qed (use assms(3) in auto)

text \<open>Instructions are idempotent: once an instruction has been accepted, every retransmission of
  it is reported as a duplicate and changes nothing.\<close>

theorem retransmission_is_duplicate:
  assumes "receiver_inv r" and "process_instruction ap h r inst now = (Inr outcome, r', h')"
    and "outcome \<notin> {Duplicate, NoReference, Quenched}"
  shows "process_instruction ap h' r' inst later = (Inr Duplicate, r', h')"
  using assms(1,2)
proof (cases rule: process_instruction_cases)
  case (inserted outcome' reference st)
  then show ?thesis by (auto simp: process_instruction_def)
qed (use assms(3) in auto)

text \<open>The acknowledgement number only grows: no instruction lowers the number of the newest
  state, and a \<open>Latest\<close> outcome strictly raises it to the instruction's number.\<close>

theorem latest_number_grows:
  assumes "receiver_inv r" and "process_instruction ap h r inst now = (res, r', h')"
  shows "ts_num (latest r) \<le> ts_num (latest r')
       \<and> (case res of Inr (Latest n had st) \<Rightarrow> ts_num (latest r) < n \<and> ts_num (latest r') = n | _ \<Rightarrow> True)"
proof -
  have inv: "receiver_inv r'" by (rule process_instruction_inv [OF assms])
  have grows: "ts_num (latest r) \<le> ts_num (latest r')" if "latest r \<in> set (received r')"
    using latest_mono [OF assms(1) inv that] .
  have nonempty: "latest r \<in> kept tn r" if "set (received r') = kept tn r" for tn
    using latest_kept [OF assms(1)] inv that latest_in [OF inv] by blast
  from assms show ?thesis
  proof (cases rule: process_instruction_cases)
    case no_reference
    then show ?thesis using grows nonempty latest_in [OF assms(1)] by auto
  next
    case (inserted outcome reference st)
    have "latest r \<in> set (received r')"
      using latest_kept [OF assms(1) inserted(5)] inserted(8) by simp
    moreover have "ts_num (latest r) \<noteq> new_num inst"
      using inserted(4) latest_in [OF assms(1)] by blast
    ultimately show ?thesis using inserted grows by auto
  qed (use grows nonempty latest_in [OF assms(1)] in auto)
qed

text \<open>The quench gate bounds the queue: above the cap, a queue can only grow when the current
  quench window is over, and that admission opens the next window of fifteen seconds. So at most one
  state per window is admitted above the cap.\<close>

theorem quench_bounds_growth:
  assumes "receiver_inv r" and "process_instruction ap h r inst now = (res, r', h')"
    and "length (received r) < length (received r')" and "RECEIVED_QUEUE_CAP < length (received r)"
  shows "quench_until r \<le> now \<and> quench_until r' = now + QUENCH_WINDOW_MS
       \<and> length (received r') = Suc (length (received r))"
proof -
  have fl: "length (filter P (received r)) \<le> length (received r)" for P by (rule length_filter_le)
  have shrunk: "length (received r') \<le> length (received r)"
    if "set (received r') \<subseteq> set (received r)" and "receiver_inv r'"
  proof -
    have "distinct (received x)" if "receiver_inv x" for x
      using that strict_sorted_iff [of "map ts_num (received x)"] by (auto simp: receiver_inv_def distinct_map)
    then show ?thesis
      using that assms(1) by (metis card_mono distinct_card finite_set)
  qed
  from assms(1,2) show ?thesis
  proof (cases rule: process_instruction_cases)
    case (inserted outcome reference st)
    then have "length (filter (\<lambda>s. ts_num s \<ge> throwaway_num inst) (received r)) = length (received r)"
      using fl assms(3) by (simp add: le_antisym less_Suc_eq_le)
    with inserted assms(4) show ?thesis by simp
  qed (use assms(3) shrunk in \<open>auto simp: kept_def\<close>)
qed

section \<open>Witnesses\<close>

text \<open>A received state that logs raw bytes, and refuses a diff that starts with 255.\<close>

definition toy_apply :: "unit \<Rightarrow> bytes \<Rightarrow> bytes \<Rightarrow> (wire_error + bytes) \<times> unit" where
  "toy_apply h s d = (if take 1 d = [255] then Inl Truncated else Inr (s @ d), h)"

definition toy_inst :: "u64 \<Rightarrow> u64 \<Rightarrow> u64 \<Rightarrow> bytes \<Rightarrow> transport_instruction" where
  "toy_inst old new throwaway d =
     \<lparr>protocol_version = 2, old_num = old, new_num = new, ack_num = 0, throwaway_num = throwaway,
      diff = d, chaff = []\<rparr>"

lemma toy_step:
  "process_instruction toy_apply () (receiver_new [] 0) (toy_inst 0 2 0 [7]) 50
   = (Inr (Latest 2 True [7]),
      \<lparr>received = [\<lparr>ts_timestamp = 0, ts_num = 0, ts_state = []\<rparr>, \<lparr>ts_timestamp = 50, ts_num = 2, ts_state = [7]\<rparr>],
       quench_until = 0\<rparr>, ())"
  by code_simp

theorem receiver_queue_invariant_witness:
  "receiver_inv (fst (snd (process_instruction toy_apply () (receiver_new [] 0) (toy_inst 0 2 0 [7]) 50)))"
  using receiver_queue_invariant [OF receiver_inv_new toy_step] by (simp add: toy_step)

theorem accepted_instruction_witness:
  "\<exists>reference st. reference \<in> set (received (receiver_new [] 0)) \<and> ts_num reference = 0
     \<and> toy_apply () (ts_state reference) [7] = (Inr st, ()) \<and> st = [7]"
  using accepted_instruction [OF receiver_inv_new toy_step] by (auto simp: toy_inst_def latest_state_def latest_def)

theorem retransmission_is_duplicate_witness:
  "fst (process_instruction toy_apply () (fst (snd (process_instruction toy_apply () (receiver_new [] 0) (toy_inst 0 2 0 [7]) 50)))
     (toy_inst 0 2 0 [7]) 90) = Inr Duplicate"
  using retransmission_is_duplicate [OF receiver_inv_new toy_step, of 90] by (simp add: toy_step)

theorem latest_number_grows_witness:
  "(0 :: u64) < 2 \<and> ts_num (latest (fst (snd (process_instruction toy_apply () (receiver_new [] 0) (toy_inst 0 2 0 [7]) 50)))) = 2"
  using latest_number_grows [OF receiver_inv_new toy_step] by (simp add: toy_step)

text \<open>A queue of 1025 states, one above the cap, whose window is over at 20000.\<close>

definition full_receiver :: "unit ssp_receiver" where
  "full_receiver = \<lparr>received = map (\<lambda>i. \<lparr>ts_timestamp = 0, ts_num = of_nat i, ts_state = ()\<rparr>) [0..<Suc RECEIVED_QUEUE_CAP],
     quench_until = 20000\<rparr>"

lemma full_receiver_inv: "receiver_inv full_receiver"
proof -
  have "sorted_wrt (<) (map of_nat [0..<Suc RECEIVED_QUEUE_CAP] :: u64 list)"
    unfolding sorted_wrt_map
    by (rule sorted_wrt_mono_rel [OF _ sorted_wrt_upt])
      (auto simp: RECEIVED_QUEUE_CAP_def word_less_nat_alt unat_of_nat)
  then show ?thesis by (simp add: receiver_inv_def full_receiver_def comp_def del: upt_Suc)
qed

lemma full_receiver_nums:
  "(\<exists>s \<in> set (received full_receiver). ts_num s = 5000) = False"
  "(\<exists>s \<in> set (received full_receiver). ts_num s = 0) = True"
proof -
  have "of_nat i \<noteq> (5000 :: u64)" if "i < Suc RECEIVED_QUEUE_CAP" for i
    using that by (auto simp: word_unat_eq_iff unat_of_nat RECEIVED_QUEUE_CAP_def)
  then show "(\<exists>s \<in> set (received full_receiver). ts_num s = 5000) = False"
    by (auto simp: full_receiver_def simp del: upt_Suc)
  show "(\<exists>s \<in> set (received full_receiver). ts_num s = 0) = True"
    by (auto simp: full_receiver_def simp del: upt_Suc intro!: bexI [of _ 0])
qed

lemma full_receiver_step:
  "process_instruction (\<lambda>h s d. (Inr s, h)) () full_receiver (toy_inst 0 5000 0 []) 20000
   = (Inr (Latest 5000 False ()),
      full_receiver\<lparr>received := received full_receiver @ [\<lparr>ts_timestamp = 20000, ts_num = 5000, ts_state = ()\<rparr>],
        quench_until := 35000\<rparr>, ())"
proof -
  have th: "process_throwaway_until full_receiver 0 = (True, full_receiver)"
    using full_receiver_inv by (auto simp: process_throwaway_until_def receiver_inv_def neq_Nil_conv)
  have first: "find (\<lambda>s. ts_num s = 0) (received full_receiver) = Some \<lparr>ts_timestamp = 0, ts_num = 0, ts_state = ()\<rparr>"
    by (simp add: full_receiver_def upt_conv_Cons del: upt_Suc)
  have len: "length (received full_receiver) = Suc RECEIVED_QUEUE_CAP" "quench_until full_receiver = 20000"
    by (simp_all add: full_receiver_def)
  have newest: "received full_receiver \<noteq> []" "ts_num (last (received full_receiver)) = 1024"
    by (simp_all add: full_receiver_def RECEIVED_QUEUE_CAP_def [THEN arg_cong [of _ _ of_nat]])
  show ?thesis
    using full_receiver_nums th first len newest
    by (simp add: process_instruction_def toy_inst_def MOSH_PROTOCOL_VERSION_def
        QUENCH_WINDOW_MS_def insert_state_def)
qed

theorem quench_bounds_growth_witness:
  "quench_until full_receiver \<le> 20000 \<and>
   quench_until (fst (snd (process_instruction (\<lambda>h s d. (Inr s, h)) () full_receiver (toy_inst 0 5000 0 []) 20000)))
     = 20000 + QUENCH_WINDOW_MS"
  using quench_bounds_growth [OF full_receiver_inv full_receiver_step]
  by (simp only: full_receiver_step) (simp add: full_receiver_def)

end
