(* ===== verification/Ssp_System.thy ===== *)
theory Ssp_System
  imports Ssp_Sender Ssp_Receiver
begin

text \<open>
  The synchronization protocol as a whole: the client's sender (\<open>UserStream\<close>) and its fragmenter on
  one side, the reassembly and the receiver on the other, and between them a network that may lose,
  duplicate, delay and reorder every fragment.

  \<open>sys_step\<close> is the step relation. Its rules run the operations of \<^verbatim>\<open>src/ssp.rs\<close> and
  \<^verbatim>\<open>src/fragment.rs\<close> as they are; the network is the set of all fragments ever sent, and a delivery
  picks any of them at any time. Acknowledgements come back the same way: the set of all numbers
  the receiver has ever reported as its newest state, of which the sender may see any at any time.

  The ghost components of the invariant are the history of numbered states, the prefix dropped by
  rationalization and the registry of sent instructions by fragment id.
\<close>

section \<open>Honest instructions\<close>

lemma honest_history:
  assumes "honest enc H inst" and "issued s (new_num inst)" and "\<And>n. issued s n \<Longrightarrow> H' n = H n"
  shows "honest enc H' inst"
proof -
  have "old_num inst \<le> new_num inst" using assms(1) by (auto simp: honest_def dest: num_before_le)
  then have "issued s (old_num inst)" using assms(2) by (simp add: issued_def)
  with assms show ?thesis by (simp add: honest_def)
qed

text \<open>The header of an honest instruction determines its diff: this is why reusing a fragment id for
  an unchanged header is sound.\<close>

lemma honest_header:
  assumes "honest enc H i" and "honest enc H j" and "header_of i = header_of j"
  shows "i = j"
  using assms by (auto simp: honest_def header_of_def intro: transport_instruction.equality)

definition lift_apply :: "('s \<Rightarrow> bytes \<Rightarrow> wire_error + 's) \<Rightarrow> unit \<Rightarrow> 's \<Rightarrow> bytes \<Rightarrow> (wire_error + 's) \<times> unit" where
  "lift_apply ap h s d = (ap s d, h)"

text \<open>Every held state is the state its number stands for.\<close>

definition in_sync :: "('s \<Rightarrow> 'e list) \<Rightarrow> (u64 \<Rightarrow> 'e list) \<Rightarrow> 's ssp_receiver \<Rightarrow> bool" where
  "in_sync view H r \<longleftrightarrow> receiver_inv r \<and> (\<forall>t \<in> set (received r). H (ts_num t) = view (ts_state t))"

context sync_state
begin

lemma receive_honest:
  assumes sync: "in_sync view H r" and honest: "honest encode_events H inst"
    and small: "length (diff inst) < 2 ^ 64"
    and step: "process_instruction (lift_apply apply_string) () r inst now = (res, r', u)"
  shows "in_sync view H r'" and "\<exists>outcome. res = Inr outcome"
    and "t \<in> set (received r') \<Longrightarrow> t \<in> set (received r) \<or> ts_num t = new_num inst"
    and "t \<in> set (received r) \<Longrightarrow> throwaway_num inst \<le> ts_num t \<Longrightarrow> t \<in> set (received r')"
proof -
  have inv: "receiver_inv r" using sync by (simp add: in_sync_def)
  have inv': "receiver_inv r'" using inv step by (rule process_instruction_inv)
  from honest obtain es where es: "H (new_num inst) = H (old_num inst) @ es" "diff inst = encode_events es"
    and ver: "protocol_version inst = MOSH_PROTOCOL_VERSION" by (auto simp: honest_def)
  have good: "\<exists>s'. apply_string s (diff inst) = Inr s' \<and> view s' = view s @ es" for s
    using apply_encoded [of es s] small es(2) by simp
  have "in_sync view H r' \<and> (\<exists>outcome. res = Inr outcome)
      \<and> (\<forall>t \<in> set (received r'). t \<in> set (received r) \<or> ts_num t = new_num inst)
      \<and> (\<forall>t \<in> set (received r). throwaway_num inst \<le> ts_num t \<longrightarrow> t \<in> set (received r'))"
    using inv step
  proof (cases rule: process_instruction_cases)
    case version
    with ver show ?thesis by simp
  next
    case (bad_diff e reference)
    with good [of "ts_state reference"] show ?thesis by (auto simp: lift_apply_def)
  next
    case (inserted outcome reference st)
    have "H (old_num inst) = view (ts_state reference)"
      using sync inserted(5,6) by (auto simp: in_sync_def kept_def)
    moreover have "view st = view (ts_state reference) @ es"
    proof (cases "diff inst = []")
      case True
      then have "es = []" "st = ts_state reference"
        using inserted(7) es(2) encode_nil [of es] by simp_all
      then show ?thesis by simp
    next
      case False
      with inserted(7) good [of "ts_state reference"] show ?thesis by (auto simp: lift_apply_def)
    qed
    ultimately have "H (new_num inst) = view st" using es by simp
    with inserted sync inv' show ?thesis by (auto simp: in_sync_def kept_def)
  qed (use sync inv' in \<open>auto simp: in_sync_def kept_def\<close>)
  then show "in_sync view H r'" "\<exists>outcome. res = Inr outcome"
    "t \<in> set (received r') \<Longrightarrow> t \<in> set (received r) \<or> ts_num t = new_num inst"
    "t \<in> set (received r) \<Longrightarrow> throwaway_num inst \<le> ts_num t \<Longrightarrow> t \<in> set (received r')"
    by auto
qed

end

section \<open>The system\<close>

record sync_system =
  typed :: "user_event list"
  sys_sender :: "user_stream ssp_sender"
  framer :: fragmenter
  in_flight :: "fragment set"
  sys_assembly :: fragment_assembly
  sys_receiver :: "user_stream ssp_receiver"
  acks :: "u64 set"

definition sys_init :: "u64 \<Rightarrow> u64 \<Rightarrow> sync_system" where
  "sys_init now mindelay =
     \<lparr>typed = [], sys_sender = sender_new user_stream_new now mindelay, framer = fragmenter_default,
      in_flight = {}, sys_assembly = assembly_new, sys_receiver = receiver_new user_stream_new now,
      acks = {0}\<rparr>"

text \<open>The instruction behind these fragments is within the limits of the reassembly.\<close>

definition fits :: "(bytes \<Rightarrow> bytes) \<Rightarrow> fragment list \<Rightarrow> bool" where
  "fits zc frs \<longleftrightarrow> length (concat (map contents frs)) \<le> ASSEMBLY_LIMIT \<and>
     (\<forall>inst. concat (map contents frs) = zc (transport_encode inst) \<longrightarrow>
        length (transport_encode inst) \<le> DECOMPRESS_LIMIT)"

inductive sys_step :: "(bytes \<Rightarrow> bytes) \<Rightarrow> zlib_read \<Rightarrow> sync_system \<Rightarrow> sync_system \<Rightarrow> bool"
  for zc :: "bytes \<Rightarrow> bytes" and zr :: zlib_read where
  keys: "\<not> shutdown_in_progress (sys_sender \<sigma>) \<Longrightarrow>
     sys_step zc zr \<sigma> (\<sigma>\<lparr>typed := typed \<sigma> @ map Byte bs,
       sys_sender := set_current_state (sys_sender \<sigma>) (push_bytes (current_state (sys_sender \<sigma>)) bs)\<rparr>)"
| resize: "\<not> shutdown_in_progress (sys_sender \<sigma>) \<Longrightarrow>
     sys_step zc zr \<sigma> (\<sigma>\<lparr>typed := typed \<sigma> @ [Resize w h],
       sys_sender := set_current_state (sys_sender \<sigma>) (push_resize (current_state (sys_sender \<sigma>)) w h)\<rparr>)"
| shutdown: "sys_step zc zr \<sigma> (\<sigma>\<lparr>sys_sender := start_shutdown (sys_sender \<sigma>) now\<rparr>)"
| heard: "sys_step zc zr \<sigma> (\<sigma>\<lparr>sys_sender := remote_heard (sys_sender \<sigma>) now\<rparr>)"
| peer: "sys_step zc zr \<sigma> (\<sigma>\<lparr>sys_sender := set_ack_num (sys_sender \<sigma>) n\<rparr>)"
| data: "sys_step zc zr \<sigma> (\<sigma>\<lparr>sys_sender := set_data_ack (sys_sender \<sigma>)\<rparr>)"
| poll: "wait_time (sys_sender \<sigma>) now rto si = (w, s') \<Longrightarrow> sys_step zc zr \<sigma> (\<sigma>\<lparr>sys_sender := s'\<rparr>)"
| tick: "tick user_diff_from user_subtract zc (sys_sender \<sigma>) now rto si mtu (framer \<sigma>) [] = (s', fr', frs) \<Longrightarrow>
     has_room (sys_sender \<sigma>) \<Longrightarrow> next_instruction_id (framer \<sigma>) \<noteq> u64_max \<Longrightarrow> fits zc frs \<Longrightarrow>
     sys_step zc zr \<sigma> (\<sigma>\<lparr>sys_sender := s', framer := fr', in_flight := in_flight \<sigma> \<union> set frs\<rparr>)"
| partial: "f \<in> in_flight \<sigma> \<Longrightarrow> add_fragment zr (sys_assembly \<sigma>) f = (None, a') \<Longrightarrow>
     sys_step zc zr \<sigma> (\<sigma>\<lparr>sys_assembly := a'\<rparr>)"
| deliver: "f \<in> in_flight \<sigma> \<Longrightarrow> add_fragment zr (sys_assembly \<sigma>) f = (Some inst, a') \<Longrightarrow>
     process_instruction (lift_apply user_apply_string) () (sys_receiver \<sigma>) inst now = (res, r', u) \<Longrightarrow>
     sys_step zc zr \<sigma> (\<sigma>\<lparr>sys_assembly := a', sys_receiver := r',
       acks := insert (ts_num (latest r')) (acks \<sigma>)\<rparr>)"
| ack: "n \<in> acks \<sigma> \<Longrightarrow>
     sys_step zc zr \<sigma> (\<sigma>\<lparr>sys_sender := process_acknowledgment_through (sys_sender \<sigma>) n\<rparr>)"

inductive reachable :: "(bytes \<Rightarrow> bytes) \<Rightarrow> zlib_read \<Rightarrow> sync_system \<Rightarrow> bool"
  for zc :: "bytes \<Rightarrow> bytes" and zr :: zlib_read where
  start: "reachable zc zr (sys_init now mindelay)"
| step: "reachable zc zr \<sigma> \<Longrightarrow> sys_step zc zr \<sigma> \<sigma>' \<Longrightarrow> reachable zc zr \<sigma>'"

section \<open>The invariant\<close>

type_synonym registry = "u64 \<Rightarrow> (transport_instruction \<times> fragment list) option"

text \<open>The head of the sender's queue.\<close>

definition head_num :: "'s ssp_sender \<Rightarrow> u64" where
  "head_num s = ts_num (hd (sent_states s))"

definition known :: "(u64 \<Rightarrow> user_event list) \<Rightarrow> user_stream ssp_sender \<Rightarrow> transport_instruction \<Rightarrow> bool" where
  "known H s inst \<longleftrightarrow> honest user_encode_events H inst \<and> issued s (new_num inst) \<and> throwaway_num inst \<le> head_num s"

definition registry_ok ::
  "(bytes \<Rightarrow> bytes) \<Rightarrow> (u64 \<Rightarrow> user_event list) \<Rightarrow> user_stream ssp_sender \<Rightarrow> fragmenter \<Rightarrow> registry \<Rightarrow> bool" where
  "registry_ok zc H s fr reg \<longleftrightarrow>
     (\<forall>i inst frs. reg i = Some (inst, frs) \<longrightarrow>
        sent_as zc i inst frs \<and> known H s inst \<and> i \<le> next_instruction_id fr) \<and>
     (\<forall>hdr. last_header fr = Some hdr \<longrightarrow>
        (\<exists>inst. header_of inst = hdr \<and> known H s inst \<and>
           (\<forall>inst' frs. reg (next_instruction_id fr) = Some (inst', frs) \<longrightarrow>
              inst' = inst \<and> slice_loop (next_instruction_id fr) (last_mtu fr) (zc (transport_encode inst)) 0 [] = Inr frs)))"

definition held :: "u64 \<Rightarrow> 's ssp_receiver \<Rightarrow> bool" where
  "held n r \<longleftrightarrow> (\<exists>t \<in> set (received r). ts_num t = n)"

definition sys_inv ::
  "(bytes \<Rightarrow> bytes) \<Rightarrow> user_event list \<Rightarrow> (u64 \<Rightarrow> user_event list) \<Rightarrow> registry \<Rightarrow> sync_system \<Rightarrow> bool" where
  "sys_inv zc base H reg \<sigma> \<longleftrightarrow>
     sender_inv events base H (sys_sender \<sigma>) \<and>
     base @ events (current_state (sys_sender \<sigma>)) = typed \<sigma> \<and>
     (\<forall>n. prefix (H n) (typed \<sigma>)) \<and>
     registry_ok zc H (sys_sender \<sigma>) (framer \<sigma>) reg \<and>
     (\<forall>f \<in> in_flight \<sigma>. \<exists>inst frs. reg (frag_id f) = Some (inst, frs) \<and> f \<in> set frs) \<and>
     collecting reg (sys_assembly \<sigma>) \<and>
     in_sync events H (sys_receiver \<sigma>) \<and>
     (\<forall>t \<in> set (received (sys_receiver \<sigma>)). issued (sys_sender \<sigma>) (ts_num t)) \<and>
     head_num (sys_sender \<sigma>) \<in> acks \<sigma> \<and>
     (\<forall>n \<in> acks \<sigma>. head_num (sys_sender \<sigma>) \<le> n \<longrightarrow> held n (sys_receiver \<sigma>))"

lemma sys_inv_init: "sys_inv zc [] (\<lambda>_. []) Map.empty (sys_init now md)"
  using sender_inv_new [of events user_stream_new now md] receiver_inv_new [of user_stream_new now]
  by (simp add: sys_inv_def sys_init_def registry_ok_def collecting_def in_sync_def fragmenter_default_def
      sender_new_def receiver_new_def head_num_def held_def user_stream_new_def issued_def)

text \<open>Sender operations that keep the queue and the state keep the invariant.\<close>

lemma sys_inv_timers:
  assumes inv: "sys_inv zc base H reg \<sigma>"
    and "current_state s' = current_state (sys_sender \<sigma>)" "sent_states s' = sent_states (sys_sender \<sigma>)"
      "assumed_receiver s' = assumed_receiver (sys_sender \<sigma>)"
      "shutdown_in_progress (sys_sender \<sigma>) \<Longrightarrow> shutdown_in_progress s'"
  shows "sys_inv zc base H reg (\<sigma>\<lparr>sys_sender := s'\<rparr>)"
  using assms
  by (auto simp: sys_inv_def sender_inv_def registry_ok_def known_def issued_def head_num_def)

text \<open>Typing extends the current state and the typed input alike.\<close>

lemma sys_inv_type:
  assumes inv: "sys_inv zc base H reg \<sigma>" and "\<not> shutdown_in_progress (sys_sender \<sigma>)"
    and s': "s' = set_current_state (sys_sender \<sigma>) u" and "events u = events (current_state (sys_sender \<sigma>)) @ es"
  shows "sys_inv zc base H reg (\<sigma>\<lparr>typed := typed \<sigma> @ es, sys_sender := s'\<rparr>)"
proof -
  have "sender_inv events base H s'"
    using assms by (auto simp: sys_inv_def sender_inv_def s' set_current_state_def sorted_wrt_append)
  moreover have "\<forall>n. prefix (H n) (typed \<sigma> @ es)" using inv by (simp add: sys_inv_def prefix_prefix)
  ultimately show ?thesis
    using assms by (auto simp: sys_inv_def registry_ok_def known_def issued_def head_num_def s' set_current_state_def)
qed

section \<open>Acknowledgements\<close>

lemma sys_inv_ack:
  assumes inv: "sys_inv zc base H reg \<sigma>" and n: "n \<in> acks \<sigma>"
  shows "sys_inv zc base H reg (\<sigma>\<lparr>sys_sender := process_acknowledgment_through (sys_sender \<sigma>) n\<rparr>)"
proof -
  let ?s = "sys_sender \<sigma>" and ?s' = "process_acknowledgment_through (sys_sender \<sigma>) n"
  have si: "sender_inv events base H ?s" using inv by (simp add: sys_inv_def)
  note ends = process_ack_ends [OF si, of n]
  have issued: "issued ?s' = issued ?s" using ends(1) by (simp add: issued_def fun_eq_iff)
  have head: "head_num ?s \<le> head_num ?s'" "head_num ?s' \<in> {head_num ?s, n}"
    using ends(2,3) by (simp_all add: head_num_def)
  have cur: "current_state ?s' = current_state ?s" by (simp add: process_acknowledgment_through_def Let_def)
  have known: "known H ?s' inst" if "known H ?s inst" for inst
    using that head(1) by (auto simp: known_def issued)
  have "registry_ok zc H ?s' (framer \<sigma>) reg"
    using inv known unfolding sys_inv_def registry_ok_def by meson
  moreover have "head_num ?s' \<in> acks \<sigma>" using head(2) n inv by (auto simp: sys_inv_def)
  moreover have "held m (sys_receiver \<sigma>)" if "m \<in> acks \<sigma>" "head_num ?s' \<le> m" for m
    using inv that head(1) by (auto simp: sys_inv_def)
  ultimately show ?thesis
    using inv process_ack_inv [OF si, of n] cur issued by (simp add: sys_inv_def)
qed

section \<open>Deliveries\<close>

lemma diff_shorter: "length (diff inst) \<le> length (transport_encode inst)"
  using write_field_length(1) [of "diff inst" 6] by (simp add: transport_encode_def)

lemma assemble_known:
  assumes z: "zlib_ok zc zr" and inv: "sys_inv zc base H reg \<sigma>"
    and f: "f \<in> in_flight \<sigma>" and add: "add_fragment zr (sys_assembly \<sigma>) f = (r, a')"
  shows "collecting reg a'"
    and "r = Some inst \<Longrightarrow> known H (sys_sender \<sigma>) inst \<and> length (diff inst) < 2 ^ 64"
proof -
  from inv f obtain i frs where reg: "reg (frag_id f) = Some (i, frs)" "f \<in> set frs"
    by (auto simp: sys_inv_def)
  have ok: "\<forall>j inst frs. reg j = Some (inst, frs) \<longrightarrow> sent_as zc j inst frs"
    and "collecting reg (sys_assembly \<sigma>)" using inv by (auto simp: sys_inv_def registry_ok_def)
  note step = add_fragment_collecting [OF z this reg]
  then show "collecting reg a'" using add by simp
  assume "r = Some inst"
  with step add have "inst = i" by simp
  moreover have "known H (sys_sender \<sigma>) i" using inv reg by (auto simp: sys_inv_def registry_ok_def)
  moreover have "length (diff i) < 2 ^ 64"
    using ok reg(1) diff_shorter [of i] unfolding sent_as_def DECOMPRESS_LIMIT_def by fastforce
  ultimately show "known H (sys_sender \<sigma>) inst \<and> length (diff inst) < 2 ^ 64" by simp
qed

lemma sys_inv_deliver:
  assumes z: "zlib_ok zc zr" and inv: "sys_inv zc base H reg \<sigma>"
    and f: "f \<in> in_flight \<sigma>" and add: "add_fragment zr (sys_assembly \<sigma>) f = (Some inst, a')"
    and step: "process_instruction (lift_apply user_apply_string) () (sys_receiver \<sigma>) inst now = (res, r', u)"
  shows "sys_inv zc base H reg (\<sigma>\<lparr>sys_assembly := a', sys_receiver := r', acks := insert (ts_num (latest r')) (acks \<sigma>)\<rparr>)"
    and "\<exists>outcome. res = Inr outcome"
proof -
  note asm = assemble_known [OF z inv f add]
  have k: "honest user_encode_events H inst" "issued (sys_sender \<sigma>) (new_num inst)"
    "throwaway_num inst \<le> head_num (sys_sender \<sigma>)" "length (diff inst) < 2 ^ 64"
    using asm(2) [OF refl] by (auto simp: known_def)
  have sync: "in_sync events H (sys_receiver \<sigma>)" using inv by (simp add: sys_inv_def)
  note rh = us.receive_honest [OF sync k(1,4) step]
  show "\<exists>outcome. res = Inr outcome" by (rule rh(2))
  have latest: "latest r' \<in> set (received r')" using rh(1) by (intro latest_in) (simp add: in_sync_def)
  have iss: "issued (sys_sender \<sigma>) (ts_num t)" if "t \<in> set (received r')" for t
    using rh(3) [OF that] k(2) inv by (auto simp: sys_inv_def)
  have held: "held n r'" if "n \<in> insert (ts_num (latest r')) (acks \<sigma>)" "head_num (sys_sender \<sigma>) \<le> n" for n
  proof (cases "n = ts_num (latest r')")
    case True
    with latest show ?thesis by (auto simp: held_def)
  next
    case False
    with that inv have "held n (sys_receiver \<sigma>)" by (auto simp: sys_inv_def)
    then obtain t where t: "t \<in> set (received (sys_receiver \<sigma>))" "ts_num t = n" by (auto simp: held_def)
    with rh(4) [OF t(1)] k(3) that(2) show ?thesis by (auto simp: held_def)
  qed
  show "sys_inv zc base H reg (\<sigma>\<lparr>sys_assembly := a', sys_receiver := r', acks := insert (ts_num (latest r')) (acks \<sigma>)\<rparr>)"
    using inv asm(1) rh(1) iss held by (simp add: sys_inv_def)
qed

section \<open>Sends\<close>

definition extends_reg :: "registry \<Rightarrow> registry \<Rightarrow> bool" where
  "extends_reg reg reg' \<longleftrightarrow> (\<forall>i v. reg i = Some v \<longrightarrow> reg' i = Some v)"

lemma collecting_extends: "collecting reg a \<Longrightarrow> extends_reg reg reg' \<Longrightarrow> collecting reg' a"
  unfolding collecting_def extends_reg_def by meson

lemma make_fragments_contents:
  "make_fragments zc fr inst mtu = (Inr frs, fr') \<Longrightarrow> concat (map contents frs) = zc (transport_encode inst)"
  by (auto simp: make_fragments_def Let_def dest!: slice_loop_sound split: if_splits)

lemma fits_limits:
  assumes "make_fragments zc fr inst mtu = (Inr frs, fr')" and "fits zc frs"
  shows "sent_as zc (next_instruction_id fr') inst frs"
  using assms make_fragments_contents [OF assms(1)]
  by (intro make_fragments_sent [OF assms(1)]) (simp_all add: fits_def)

text \<open>The fragmenter after a send that passed the budget check.\<close>

lemma make_fragments_state:
  assumes "make_fragments zc fr inst mtu = (res, fr')" and "FRAG_HEADER_LEN < mtu"
  shows "last_header fr' = Some (header_of inst)" and "last_mtu fr' = mtu - FRAG_HEADER_LEN"
    and "slice_loop (next_instruction_id fr') (last_mtu fr') (zc (transport_encode inst)) 0 [] = res"
    and "next_instruction_id fr' = next_instruction_id fr \<and> last_header fr = Some (header_of inst) \<and> last_mtu fr' = last_mtu fr
       \<or> next_instruction_id fr' = next_instruction_id fr + 1"
  using assms by (auto simp: make_fragments_def Let_def split: if_splits)

text \<open>A send only ever adds to the registry: a reused id names the instruction it already names.\<close>

lemma registry_slot:
  assumes ok: "registry_ok zc H s fr reg" and k: "known H s inst"
    and mk: "make_fragments zc fr inst mtu = (res, fr')" and mtu: "FRAG_HEADER_LEN < mtu"
    and ids: "next_instruction_id fr \<noteq> u64_max"
  shows "next_instruction_id fr \<le> next_instruction_id fr'"
    and "reg (next_instruction_id fr') = None \<or> (\<exists>frs. res = Inr frs \<and> reg (next_instruction_id fr') = Some (inst, frs))"
proof -
  note st = make_fragments_state [OF mk mtu]
  have up: "next_instruction_id fr < next_instruction_id fr + 1"
    using unat_succ [OF ids] by (simp add: word_less_nat_alt)
  with st(4) show "next_instruction_id fr \<le> next_instruction_id fr'" by auto
  show "reg (next_instruction_id fr') = None \<or> (\<exists>frs. res = Inr frs \<and> reg (next_instruction_id fr') = Some (inst, frs))"
  proof (cases "next_instruction_id fr' = next_instruction_id fr + 1")
    case True
    then have "\<not> next_instruction_id fr' \<le> next_instruction_id fr" using up by simp
    then have "reg (next_instruction_id fr') = None"
      using ok unfolding registry_ok_def by (metis not_None_eq surj_pair)
    then show ?thesis ..
  next
    case False
    with st(4) have same: "next_instruction_id fr' = next_instruction_id fr" "last_mtu fr' = last_mtu fr"
      and hdr: "last_header fr = Some (header_of inst)" by auto
    from ok hdr obtain i0 where i0: "header_of i0 = header_of inst" "known H s i0"
      and reg: "\<And>i frs. reg (next_instruction_id fr) = Some (i, frs) \<Longrightarrow>
         i = i0 \<and> slice_loop (next_instruction_id fr) (last_mtu fr) (zc (transport_encode i0)) 0 [] = Inr frs"
      unfolding registry_ok_def by blast
    have "i0 = inst" using honest_header [of user_encode_events H i0 inst] i0 k by (simp add: known_def)
    with reg st(3) same show ?thesis by (cases "reg (next_instruction_id fr)") auto
  qed
qed

lemma registry_send:
  assumes ok: "registry_ok zc H s fr reg" and k: "known H s inst"
    and mk: "make_fragments zc fr inst mtu = (res, fr')" and ids: "next_instruction_id fr \<noteq> u64_max"
    and fit: "\<And>frs. res = Inr frs \<Longrightarrow> fits zc frs"
  shows "\<exists>reg'. registry_ok zc H s fr' reg' \<and> extends_reg reg reg' \<and>
     (\<forall>frs. res = Inr frs \<longrightarrow> reg' (next_instruction_id fr') = Some (inst, frs))"
proof (cases "FRAG_HEADER_LEN < mtu")
  case False
  with mk have "fr' = fr" "res = Inl MtuTooSmall" by (auto simp: make_fragments_def)
  with ok show ?thesis by (auto simp: extends_reg_def)
next
  case True
  note st = make_fragments_state [OF mk True] and slot = registry_slot [OF ok k mk True ids]
  define reg' where "reg' = (case res of Inr frs \<Rightarrow> reg(next_instruction_id fr' \<mapsto> (inst, frs)) | Inl _ \<Rightarrow> reg)"
  have ext: "extends_reg reg reg'"
    using slot(2) by (auto simp: extends_reg_def reg'_def split: sum.splits)
  have new: "reg' i = Some (j, frs) \<Longrightarrow> reg i = Some (j, frs) \<or> i = next_instruction_id fr' \<and> j = inst \<and> res = Inr frs"
    for i j frs
    by (auto simp: reg'_def split: sum.splits if_splits)
  have "sent_as zc i j frs \<and> known H s j \<and> i \<le> next_instruction_id fr'" if "reg' i = Some (j, frs)" for i j frs
    using new [OF that]
  proof
    assume "reg i = Some (j, frs)"
    with ok slot(1) show ?thesis unfolding registry_ok_def by (meson order_trans)
  next
    assume "i = next_instruction_id fr' \<and> j = inst \<and> res = Inr frs"
    with fits_limits [of zc fr inst mtu frs fr'] mk fit k show ?thesis by auto
  qed
  moreover have "j = inst \<and> slice_loop (next_instruction_id fr') (last_mtu fr') (zc (transport_encode inst)) 0 [] = Inr frs"
    if "reg' (next_instruction_id fr') = Some (j, frs)" for j frs
    using new [OF that] slot(2) st(3) by auto
  ultimately have "registry_ok zc H s fr' reg'"
    unfolding registry_ok_def using k st(1) by auto
  with ext show ?thesis by (intro exI [of _ reg']) (auto simp: reg'_def)
qed

text \<open>A larger history keeps what was known.\<close>

lemma known_grows:
  assumes "known H s inst" and "\<And>n. issued s n \<Longrightarrow> H' n = H n" and "\<And>n. issued s n \<Longrightarrow> issued s' n"
    and "head_num s \<le> head_num s'"
  shows "known H' s' inst"
  using assms honest_history [of user_encode_events H inst s H'] by (auto simp: known_def)

lemma registry_grows:
  assumes "registry_ok zc H s fr reg" and "\<And>n. issued s n \<Longrightarrow> H' n = H n" and "\<And>n. issued s n \<Longrightarrow> issued s' n"
    and "head_num s \<le> head_num s'"
  shows "registry_ok zc H' s' fr reg"
  using assms(1) known_grows [OF _ assms(2-)] unfolding registry_ok_def by meson

text \<open>An honest send: the history and the registry grow by what was sent.\<close>

lemma sys_inv_send:
  assumes inv: "sys_inv zc base H reg \<sigma>"
    and b: "base' @ events (current_state s1) = base @ events (current_state (sys_sender \<sigma>))"
    and iss1: "issued s1 = issued (sys_sender \<sigma>)" and head1: "head_num s1 = head_num (sys_sender \<sigma>)"
    and snd: "sends events user_encode_events zc mtu base' H (s1, framer \<sigma>, []) inst H' (s', fr', frs)"
    and room: "next_instruction_id (framer \<sigma>) \<noteq> u64_max" and fit: "fits zc frs"
  shows "\<exists>reg'. sys_inv zc base' H' reg' (\<sigma>\<lparr>sys_sender := s', framer := fr', in_flight := in_flight \<sigma> \<union> set frs\<rparr>)"
proof -
  let ?s = "sys_sender \<sigma>"
  note sd = sendsD [OF snd]
  have H': "H' n = H n" if "issued ?s n" for n using that sd(2) iss1 by simp
  have head: "head_num s' = head_num ?s" using sd(9) head1 by (simp add: head_num_def)
  have known: "known H' s' inst" using sd(3,5,9,10) by (simp add: known_def head_num_def)
  have iss: "issued s' n" if "issued ?s n" for n
  proof -
    have "issued s1 n" using that iss1 by simp
    with sd(6) show ?thesis by (simp add: issued_def)
  qed
  have reg1: "registry_ok zc H' s' (framer \<sigma>) reg"
    by (rule registry_grows [where s = ?s]) (use inv H' iss head in \<open>auto simp: sys_inv_def\<close>)
  obtain res where mk: "make_fragments zc (framer \<sigma>) inst mtu = (res, fr')"
    and out: "frs = (case res of Inr fs \<Rightarrow> fs | Inl _ \<Rightarrow> [])"
    using sd(13) by (auto simp: emits_def split: prod.splits sum.splits)
  from registry_send [OF reg1 known mk room] fit out obtain reg' where
    reg': "registry_ok zc H' s' fr' reg'" "extends_reg reg reg'"
      "\<And>fs. res = Inr fs \<Longrightarrow> reg' (next_instruction_id fr') = Some (inst, fs)" by (metis sum.case(2))
  have "\<exists>i fs. reg' (frag_id f) = Some (i, fs) \<and> f \<in> set fs" if f: "f \<in> in_flight \<sigma> \<union> set frs" for f
  proof (cases "f \<in> in_flight \<sigma>")
    case True
    with inv reg'(2) show ?thesis unfolding sys_inv_def extends_reg_def by meson
  next
    case False
    with f out obtain fs where fs: "res = Inr fs" "f \<in> set fs" "frs = fs" by (cases res) auto
    with fits_limits [of zc "framer \<sigma>" inst mtu fs fr'] mk fit have "frag_id f = next_instruction_id fr'"
      by (auto simp: sent_as_def dest: numbered_ids)
    with reg'(3) [OF fs(1)] fs(2) show ?thesis by auto
  qed
  moreover have "in_sync events H' (sys_receiver \<sigma>)" using inv H' by (simp add: sys_inv_def in_sync_def)
  moreover have "prefix (H' n) (typed \<sigma>)" for n using inv b by (simp add: sd(4) sys_inv_def)
  ultimately have "sys_inv zc base' H' reg' (\<sigma>\<lparr>sys_sender := s', framer := fr', in_flight := in_flight \<sigma> \<union> set frs\<rparr>)"
    using inv sd(1,7) b reg' head iss collecting_extends [OF _ reg'(2)] by (simp add: sys_inv_def)
  then show ?thesis by blast
qed

lemma sys_inv_tick:
  assumes inv: "sys_inv zc base H reg \<sigma>"
    and step: "tick user_diff_from user_subtract zc (sys_sender \<sigma>) now rto si mtu (framer \<sigma>) [] = (s', fr', frs)"
    and room: "has_room (sys_sender \<sigma>)" "next_instruction_id (framer \<sigma>) \<noteq> u64_max" and fit: "fits zc frs"
  shows "\<exists>base' H' reg'. sys_inv zc base' H' reg'
     (\<sigma>\<lparr>sys_sender := s', framer := fr', in_flight := in_flight \<sigma> \<union> set frs\<rparr>)"
proof -
  let ?s = "sys_sender \<sigma>"
  have si: "sender_inv events base H ?s" using inv by (simp add: sys_inv_def)
  have ne: "sent_states ?s \<noteq> []" using si by (rule sender_invD)
  from us.tick_inv [OF si room(1) step] obtain base' s1 where
    b: "base' @ events (current_state s1) = base @ events (current_state ?s)"
    and nums: "map ts_num (sent_states s1) = map ts_num (sent_states ?s)" and
    cases: "fr' = framer \<sigma> \<and> frs = [] \<and> current_state s' = current_state s1 \<and> sent_states s' = sent_states s1
        \<and> sender_inv events base' H s'
      \<or> (\<exists>inst H'. sends events user_encode_events zc mtu base' H (s1, framer \<sigma>, []) inst H' (s', fr', frs))"
    by blast
  have ne1: "sent_states s1 \<noteq> []" using arg_cong [OF nums, of length] ne by auto
  have iss1: "issued s1 = issued ?s" and head1: "head_num s1 = head_num ?s"
    using arg_cong [OF nums, of last] arg_cong [OF nums, of hd] ne ne1
    by (simp_all add: issued_def head_num_def last_map list.map_sel(1) fun_eq_iff)
  from cases show ?thesis
  proof
    assume c: "fr' = framer \<sigma> \<and> frs = [] \<and> current_state s' = current_state s1 \<and> sent_states s' = sent_states s1
        \<and> sender_inv events base' H s'"
    then have "issued s' = issued ?s" "head_num s' = head_num ?s"
      using iss1 head1 by (simp_all add: issued_def head_num_def fun_eq_iff)
    moreover from this have "registry_ok zc H s' fr' reg"
      using inv c by (simp add: sys_inv_def registry_ok_def known_def)
    ultimately have "sys_inv zc base' H reg (\<sigma>\<lparr>sys_sender := s', framer := fr', in_flight := in_flight \<sigma> \<union> set frs\<rparr>)"
      using inv b c by (simp add: sys_inv_def)
    then show ?thesis by blast
  next
    assume "\<exists>inst H'. sends events user_encode_events zc mtu base' H (s1, framer \<sigma>, []) inst H' (s', fr', frs)"
    then show ?thesis using sys_inv_send [OF inv b iss1 head1 _ room(2) fit] by blast
  qed
qed

section \<open>Reachable systems\<close>

lemma sys_inv_step:
  assumes z: "zlib_ok zc zr" and "sys_step zc zr \<sigma> \<sigma>'" and inv: "sys_inv zc base H reg \<sigma>"
  shows "\<exists>base' H' reg'. sys_inv zc base' H' reg' \<sigma>'"
  using assms(2)
proof cases
  case (keys bs)
  have "sys_inv zc base H reg \<sigma>'"
    unfolding keys(1) by (rule sys_inv_type [OF inv keys(2) refl]) (simp add: push_bytes_def)
  then show ?thesis by blast
next
  case (resize w h)
  have "sys_inv zc base H reg \<sigma>'"
    unfolding resize(1) by (rule sys_inv_type [OF inv resize(2) refl]) (simp add: push_resize_def)
  then show ?thesis by blast
next
  case (shutdown now)
  have "sys_inv zc base H reg \<sigma>'"
    unfolding shutdown by (rule sys_inv_timers [OF inv]) (simp_all add: start_shutdown_def)
  then show ?thesis by blast
next
  case (heard now)
  have "sys_inv zc base H reg \<sigma>'"
    unfolding heard by (rule sys_inv_timers [OF inv]) (simp_all add: remote_heard_def)
  then show ?thesis by blast
next
  case (peer n)
  have "sys_inv zc base H reg \<sigma>'"
    unfolding peer by (rule sys_inv_timers [OF inv]) (simp_all add: set_ack_num_def)
  then show ?thesis by blast
next
  case data
  have "sys_inv zc base H reg \<sigma>'"
    unfolding data by (rule sys_inv_timers [OF inv]) (simp_all add: set_data_ack_def)
  then show ?thesis by blast
next
  case (poll now rto si w s')
  then obtain timers where "compute_timers (sys_sender \<sigma>) now rto si = (timers, s')"
    by (auto simp: wait_time_def split: prod.splits)
  note core = compute_timers_core [OF this]
  have "sys_inv zc base H reg \<sigma>'"
    unfolding poll(1) by (rule sys_inv_timers [OF inv]) (simp_all add: core)
  then show ?thesis by blast
next
  case (tick now rto si mtu s' fr' frs)
  from sys_inv_tick [OF inv tick(2-)] show ?thesis unfolding tick(1) by blast
next
  case (partial f a')
  with assemble_known(1) [OF z inv partial(2,3)] inv have "sys_inv zc base H reg \<sigma>'" by (simp add: sys_inv_def)
  then show ?thesis by blast
next
  case (deliver f inst a' now res r' u)
  from sys_inv_deliver(1) [OF z inv deliver(2-)] show ?thesis unfolding deliver(1) by blast
next
  case (ack n)
  from sys_inv_ack [OF inv ack(2)] show ?thesis unfolding ack(1) by blast
qed

lemma reachable_inv:
  assumes "zlib_ok zc zr" and "reachable zc zr \<sigma>"
  obtains base H reg where "sys_inv zc base H reg \<sigma>"
proof -
  from assms(2) have "\<exists>base H reg. sys_inv zc base H reg \<sigma>"
  proof induction
    case (start now mindelay)
    show ?case using sys_inv_init by blast
  next
    case (step \<sigma> \<sigma>')
    with sys_inv_step [OF assms(1)] show ?case by blast
  qed
  with that show ?thesis by blast
qed

section \<open>Properties\<close>

lemma sys_invD:
  assumes "sys_inv zc base H reg \<sigma>"
  shows "sender_inv events base H (sys_sender \<sigma>)" and "base @ events (current_state (sys_sender \<sigma>)) = typed \<sigma>"
    and "prefix (H n) (typed \<sigma>)" and "held (head_num (sys_sender \<sigma>)) (sys_receiver \<sigma>)"
    and "t \<in> set (received (sys_receiver \<sigma>)) \<Longrightarrow> H (ts_num t) = events (ts_state t)"
  using assms unfolding sys_inv_def in_sync_def by blast+

lemma head_held:
  assumes "sys_inv zc base H reg \<sigma>"
  obtains t where "t \<in> set (received (sys_receiver \<sigma>))" and "ts_num t = head_num (sys_sender \<sigma>)"
    and "base @ events (ts_state (hd (sent_states (sys_sender \<sigma>)))) = events (ts_state t)"
proof -
  let ?s = "sys_sender \<sigma>"
  from sys_invD(4) [OF assms] obtain t where t: "t \<in> set (received (sys_receiver \<sigma>))" "ts_num t = head_num ?s" by (auto simp: held_def)
  note si = sys_invD(1) [OF assms]
  have "H (head_num ?s) = base @ events (ts_state (hd (sent_states ?s)))"
    unfolding head_num_def by (rule sender_invD(3) [OF si]) (simp add: sender_invD(1) [OF si])
  moreover have "H (ts_num t) = events (ts_state t)" using sys_invD(5) [OF assms t(1)] .
  ultimately show ?thesis using that t by simp
qed

lemma received_prefix:
  assumes "zlib_ok zc zr" and "reachable zc zr \<sigma>" and "t \<in> set (received (sys_receiver \<sigma>))"
  shows "prefix (events (ts_state t)) (typed \<sigma>)"
proof -
  obtain base H reg where inv: "sys_inv zc base H reg \<sigma>" using reachable_inv [OF assms(1,2)] .
  show ?thesis using sys_invD(3) [OF inv, of "ts_num t"] sys_invD(5) [OF inv assms(3)] by simp
qed

lemma acknowledged_held:
  assumes "zlib_ok zc zr" and "reachable zc zr \<sigma>"
    and "current_state (sys_sender \<sigma>) = ts_state (hd (sent_states (sys_sender \<sigma>)))"
  shows "\<exists>t \<in> set (received (sys_receiver \<sigma>)). events (ts_state t) = typed \<sigma>"
proof -
  obtain base H reg where inv: "sys_inv zc base H reg \<sigma>" using reachable_inv [OF assms(1,2)] .
  from head_held [OF inv] obtain t where "t \<in> set (received (sys_receiver \<sigma>))"
    "base @ events (ts_state (hd (sent_states (sys_sender \<sigma>)))) = events (ts_state t)" .
  moreover have "base @ events (current_state (sys_sender \<sigma>)) = typed \<sigma>" using inv by (rule sys_invD)
  ultimately show ?thesis using assms(3) by auto
qed

text \<open>Input is delivered in order, exactly once and never invented: over a network that may lose,
  duplicate and reorder every fragment and acknowledgement, each state the receiver ever holds is a
  prefix of what was typed.\<close>

theorem input_is_a_prefix:
  assumes "zlib_ok zc zr" and "reachable zc zr \<sigma>" and "t \<in> set (received (sys_receiver \<sigma>))"
  shows "prefix (events (ts_state t)) (typed \<sigma>)"
  using assms by (rule received_prefix)

text \<open>Acknowledged means delivered: when the head of the sender's queue, the state the peer has
  acknowledged, equals the current state, the receiver holds everything that was typed.\<close>

theorem acknowledged_means_delivered:
  assumes "zlib_ok zc zr" and "reachable zc zr \<sigma>"
    and "current_state (sys_sender \<sigma>) = ts_state (hd (sent_states (sys_sender \<sigma>)))"
  shows "\<exists>t \<in> set (received (sys_receiver \<sigma>)). events (ts_state t) = typed \<sigma>"
  using assms by (rule acknowledged_held)

text \<open>An honest peer is never fatal: whatever the network delivers, no instruction assembled from
  the sender's fragments is refused for its protocol version or for an unparsable diff.\<close>

theorem honest_peer_never_fatal:
  assumes "zlib_ok zc zr" and "reachable zc zr \<sigma>" and "f \<in> in_flight \<sigma>"
    and "add_fragment zr (sys_assembly \<sigma>) f = (Some inst, a')"
    and "process_instruction (lift_apply user_apply_string) () (sys_receiver \<sigma>) inst now = (res, r', u)"
  shows "\<exists>outcome. res = Inr outcome"
proof -
  obtain base H reg where inv: "sys_inv zc base H reg \<sigma>" using reachable_inv [OF assms(1,2)] .
  show ?thesis by (rule sys_inv_deliver(2) [OF assms(1) inv assms(3-5)])
qed

text \<open>C11: The sender can always make progress: the receiver still holds the state at the head of the
  sender's queue, so an instruction that starts from it is never dropped for a missing reference.\<close>

theorem head_is_always_usable:
  assumes "zlib_ok zc zr" and "reachable zc zr \<sigma>" and "f \<in> in_flight \<sigma>"
    and "add_fragment zr (sys_assembly \<sigma>) f = (Some inst, a')"
    and "old_num inst = sent_state_acked (sys_sender \<sigma>)"
  shows "fst (process_instruction (lift_apply user_apply_string) () (sys_receiver \<sigma>) inst now) \<noteq> Inr NoReference"
proof -
  let ?s = "sys_sender \<sigma>" and ?r = "sys_receiver \<sigma>"
  obtain base H reg where inv: "sys_inv zc base H reg \<sigma>" using reachable_inv [OF assms(1,2)] .
  have ne: "sent_states ?s \<noteq> []" using sys_invD(1) [OF inv] by (rule sender_invD)
  then have old: "old_num inst = head_num ?s"
    using assms(5) by (cases "sent_states ?s") (auto simp: sent_state_acked_def front_num_def head_num_def)
  have "known H ?s inst" using assemble_known(2) [OF assms(1) inv assms(3,4) refl] by simp
  then have th: "throwaway_num inst \<le> old_num inst" using old by (simp add: known_def)
  from head_held [OF inv] obtain t where t: "t \<in> set (received ?r)" "ts_num t = old_num inst"
    using old by metis
  let ?r1 = "?r\<lparr>received := filter (\<lambda>s. ts_num s \<ge> throwaway_num inst) (received ?r)\<rparr>"
  have culled: "process_throwaway_until ?r (throwaway_num inst) = (True, ?r1)"
    using bexI [of "\<lambda>s. throwaway_num inst \<le> ts_num s", OF _ t(1)] t(2) th by (simp add: process_throwaway_until_def)
  have "find (\<lambda>s. ts_num s = old_num inst) (received ?r1) \<noteq> None"
    using t th by (auto simp: find_None_iff intro!: exI [of _ t])
  then obtain ref where ref: "find (\<lambda>s. ts_num s = old_num inst) (received ?r1) = Some ref" by blast
  have ins: "fst (insert_state a b c) \<noteq> NoReference" for a :: "user_stream ssp_receiver" and b c
    by (simp add: insert_state_def)
  show ?thesis
    using t culled ref ins
    by (auto simp: process_instruction_def Let_def lift_apply_def split: sum.splits prod.splits)
      (metis fst_conv)+
qed

text \<open>C12: Every tick is honest: it keeps the sender invariant, leaves the typed input and the history
  of already numbered states alone, and either stays silent or frames one instruction whose diff is
  exactly the difference between the two states its numbers name.\<close>

theorem tick_is_honest:
  assumes "sender_inv events base H s" and "has_room s"
    and "tick user_diff_from user_subtract zc s now rto si mtu fr out = (s', fr', out')"
  shows "\<exists>base' H'. sender_inv events base' H' s' \<and> (\<forall>n \<le> sent_state_last s. H' n = H n)
       \<and> base' @ events (current_state s') = base @ events (current_state s)
       \<and> (fr' = fr \<and> out' = out
          \<or> (\<exists>inst. honest user_encode_events H' inst \<and> emits zc mtu inst fr out fr' out'
               \<and> ack_num inst = sender_ack_num s \<and> throwaway_num inst = sent_state_acked s
               \<and> H' (new_num inst) = base @ events (current_state s)))"
proof -
  from us.tick_inv [OF assms] obtain base' s1 where
    b: "base' @ events (current_state s1) = base @ events (current_state s)"
      "map ts_num (sent_states s1) = map ts_num (sent_states s)" "sender_ack_num s1 = sender_ack_num s" and
    c: "fr' = fr \<and> out' = out \<and> current_state s' = current_state s1 \<and> sender_inv events base' H s'
      \<or> (\<exists>inst H'. sends events user_encode_events zc mtu base' H (s1, fr, out) inst H' (s', fr', out'))"
    by blast
  have ne: "sent_states s \<noteq> []" using assms(1) by (rule sender_invD)
  then have ne1: "sent_states s1 \<noteq> []" using arg_cong [OF b(2), of length] by auto
  have lst: "issued s1 n \<longleftrightarrow> n \<le> sent_state_last s" for n
    using arg_cong [OF b(2), of last] ne ne1 by (simp add: issued_def sent_state_last_def last_map)
  have hd1: "ts_num (hd (sent_states s1)) = sent_state_acked s"
    using arg_cong [OF b(2), of hd] ne ne1
    by (cases "sent_states s") (auto simp: list.map_sel(1) sent_state_acked_def front_num_def)
  from c show ?thesis
  proof
    assume "\<exists>inst H'. sends events user_encode_events zc mtu base' H (s1, fr, out) inst H' (s', fr', out')"
    then obtain inst H' where snd: "sends events user_encode_events zc mtu base' H (s1, fr, out) inst H' (s', fr', out')"
      by blast
    note sd = sendsD [OF snd]
    have "\<forall>n \<le> sent_state_last s. H' n = H n" using sd(2) lst by simp
    moreover have "base' @ events (current_state s') = base @ events (current_state s)" using b(1) sd(7) by simp
    moreover have "throwaway_num inst = sent_state_acked s" using sd(10) hd1 by simp
    moreover have "H' (new_num inst) = base @ events (current_state s)" using sd(4) b(1) by simp
    moreover have "ack_num inst = sender_ack_num s" using sd(11) b(3) by simp
    ultimately show ?thesis using sd(1,3,13) by blast
  qed (use b(1) in auto)
qed

text \<open>C21: Typed input goes out on time: after input has diverged from the newest sent state,
  \<open>wait_time\<close> names a wait of at most the mindelay and send-interval rules, and a tick at or after its
  end frames an instruction whose state contains everything typed so far.\<close>

theorem typed_input_on_time:
  assumes "sender_inv events base H s" and "has_room s"
    and "current_state s \<noteq> ts_state (last (sent_states s))"
    and "wait_time s now rto si = (w, s1)" and "unat now + unat w \<le> unat now'"
    and "tick user_diff_from user_subtract zc s1 now' rto' si mtu fr out = (s', fr', out')"
  shows "w \<le> sat_sub (max ((case mindelay_clock s of None \<Rightarrow> now | Some m \<Rightarrow> m) + send_mindelay s)
                        (ts_timestamp (last (sent_states s)) + si)) now
       \<and> (\<exists>inst H'. honest user_encode_events H' inst \<and> emits zc mtu inst fr out fr' out'
            \<and> (\<forall>n \<le> sent_state_last s. H' n = H n)
            \<and> H' (new_num inst) = base @ events (current_state s))"
proof -
  obtain ns na where ct: "compute_timers s now rto si = ((ns, na), s1)"
    and w: "\<And>t. ns = Some t \<Longrightarrow> w \<le> sat_sub t now"
    using wait_time_deadline [OF assms(4,5)] by metis
  note bound = w [OF compute_timers_diverged(1) [OF ct assms(3)]]
  from us.input_on_time [OF assms] obtain base' s2 inst H' where
    b: "base' @ events (current_state s2) = base @ events (current_state s)"
      "ts_num (last (sent_states s2)) = ts_num (last (sent_states s))" and
    snd: "sends events user_encode_events zc mtu base' H (s2, fr, out) inst H' (s', fr', out')" by blast
  note sd = sendsD [OF snd]
  have "sent_states s \<noteq> []" using assms(1) by (rule sender_invD)
  then have "\<forall>n \<le> sent_state_last s. H' n = H n" using sd(2) b(2) by (simp add: issued_def sent_state_last_def)
  moreover have "H' (new_num inst) = base @ events (current_state s)" using sd(4) b(1) by simp
  ultimately show ?thesis using bound sd(3,13) by blast
qed

text \<open>C22: A data acknowledgement is delayed by at most 100 ms. With an ack deadline \<open>t\<close>, which is 100 ms
  ahead when data waits for its acknowledgement and otherwise the sender's own next ack time, a loop that
  asks \<open>wait_time\<close> is told to sleep no longer than to \<open>t\<close>; the tick after it, whenever it comes,
  either frames an instruction that carries the acknowledgement number, or it comes before \<open>t\<close>, frames
  nothing and leaves a sender with the same deadline to which this applies again. So the ticks are silent
  only before \<open>t\<close>. The sender is not shutting down and has state numbers left.\<close>

theorem data_ack_on_time:
  assumes "sender_inv events base H s" and "has_room s"
    and "\<not> shutdown_in_progress s" and "sender_ack_num s \<noteq> SHUTDOWN_NUM"
    and "pending_data_ack s \<and> t = now + ACK_DELAY_MS \<or> next_ack_time s \<le> t"
    and "wait_time s now rto si = (w, s1)"
    and "tick user_diff_from user_subtract zc s1 now' rto' si mtu fr out = (s', fr', out')"
  shows "w \<le> sat_sub t now \<and>
     ((\<exists>inst H'. honest user_encode_events H' inst \<and> emits zc mtu inst fr out fr' out'
         \<and> ack_num inst = sender_ack_num s)
      \<or> now' < t \<and> fr' = fr \<and> out' = out \<and> next_ack_time s' \<le> t
        \<and> (\<exists>base'. sender_inv events base' H s') \<and> has_room s'
        \<and> \<not> shutdown_in_progress s' \<and> sender_ack_num s' = sender_ack_num s)"
  using us.ack_on_time [OF assms] sendsD(3,11,13) by metis

section \<open>A concrete run\<close>

text \<open>The key \<open>h\<close> is typed at 290 ms, sent at 300 ms in one fragment, delivered and acknowledged.\<close>

definition demo_typed :: "user_stream ssp_sender" where
  "demo_typed = set_current_state (sender_new user_stream_new 0 1) (push_bytes user_stream_new [104])"

definition demo_polled :: "user_stream ssp_sender" where
  "demo_polled = demo_typed\<lparr>mindelay_clock := Some 290\<rparr>"

definition demo_sent :: "user_stream ssp_sender" where
  "demo_sent = demo_typed\<lparr>assumed_receiver := 1, next_ack_time := 3300, sent_states :=
     [\<lparr>ts_timestamp = 0, ts_num = 0, ts_state = \<lparr>events = []\<rparr>\<rparr>,
      \<lparr>ts_timestamp = 300, ts_num = 1, ts_state = \<lparr>events = [Byte 104]\<rparr>\<rparr>]\<rparr>"

definition demo_inst :: transport_instruction where
  "demo_inst = \<lparr>protocol_version = 2, old_num = 0, new_num = 1, ack_num = 0, throwaway_num = 0,
     diff = [10, 5, 18, 3, 34, 1, 104], chaff = []\<rparr>"

definition demo_bytes :: bytes where
  "demo_bytes = [8, 2, 16, 0, 24, 1, 32, 0, 40, 0, 50, 7, 10, 5, 18, 3, 34, 1, 104, 58, 0]"

definition demo_frag :: fragment where
  "demo_frag = \<lparr>frag_id = 1, fragment_num = 0, final = True, contents = demo_bytes\<rparr>"

definition demo_framer :: fragmenter where
  "demo_framer = \<lparr>next_instruction_id = 1, last_header = Some (header_of demo_inst), last_mtu = 490\<rparr>"

lemma demo_wait: "wait_time demo_typed 290 100 20 = (1, demo_polled)"
  by code_simp

lemma demo_diff: "user_diff_from \<lparr>events = [Byte 104]\<rparr> \<lparr>events = []\<rparr> = [10, 5, 18, 3, 34, 1, 104]"
  by code_simp

lemma demo_encode: "transport_encode demo_inst = demo_bytes"
  by code_simp

lemma demo_make: "make_fragments (\<lambda>x. x) fragmenter_default demo_inst 500 = (Inr [demo_frag], demo_framer)"
  by (simp add: make_fragments_def Let_def fragmenter_default_def FRAG_HEADER_LEN_def demo_encode demo_framer_def
      demo_frag_def slice_loop.simps MAX_FRAGMENT_INDEX_def demo_bytes_def)

lemma demo_tick:
  "tick user_diff_from user_subtract (\<lambda>x. x) demo_polled 300 100 20 500 fragmenter_default []
   = (demo_sent, demo_framer, [demo_frag])"
  using demo_make
  by (simp add: tick_def demo_polled_def demo_typed_def demo_sent_def sender_new_def user_stream_new_def
      set_current_state_def push_bytes_def update_assumed_receiver_state_def rationalize_states_def
      compute_timers_def start_clocks_def next_send_at_def Let_def is_due_def ACK_INTERVAL_MS_def
      ACTIVE_RETRY_TIMEOUT_MS_def attempt_prospective_resend_optimization_def demo_diff SHUTDOWN_NUM_def
      u64_max_def send_to_receiver_def add_sent_state_def SENT_QUEUE_CAP_def send_in_fragments_def
      outgoing_def demo_inst_def MOSH_PROTOCOL_VERSION_def)

lemma demo_fits: "fits (\<lambda>x. x) [demo_frag]"
proof -
  have "length demo_bytes = 21" by (simp add: demo_bytes_def)
  then show ?thesis by (auto simp: fits_def demo_frag_def ASSEMBLY_LIMIT_def DECOMPRESS_LIMIT_def)
qed

lemma demo_decode: "transport_decode demo_bytes = Inr demo_inst"
  using transport_codec.decode_encode [of demo_inst] by (simp add: demo_encode) (simp add: demo_bytes_def)

lemma demo_assemble: "add_fragment toy_zr assembly_new demo_frag
   = (Some demo_inst, assembly_reset (assembly_new\<lparr>current_id := 1\<rparr>))"
proof -
  have len: "length demo_bytes = 21" by (simp add: demo_bytes_def)
  have z: "zlib_decompress toy_zr demo_bytes = Inr demo_bytes"
    by (simp add: zlib_decompress_def toy_zr_def len DECOMPRESS_LIMIT_def)
  have f: "frag_id demo_frag = 1" "fragment_num demo_frag = 0" "final demo_frag" "contents demo_frag = demo_bytes"
    by (simp_all add: demo_frag_def)
  show ?thesis
    by (simp add: add_fragment_def store_fragment_def note_final_def take_assembly_def assembly_new_def
        Let_def f len ASSEMBLY_LIMIT_def z demo_decode assembly_reset_def)
qed

definition demo_receiver :: "user_stream ssp_receiver" where
  "demo_receiver = \<lparr>received = [\<lparr>ts_timestamp = 0, ts_num = 0, ts_state = \<lparr>events = []\<rparr>\<rparr>,
     \<lparr>ts_timestamp = 350, ts_num = 1, ts_state = \<lparr>events = [Byte 104]\<rparr>\<rparr>], quench_until = 0\<rparr>"

lemma demo_process:
  "process_instruction (lift_apply user_apply_string) () (receiver_new user_stream_new 0) demo_inst 350
   = (Inr (Latest 1 True \<lparr>events = [Byte 104]\<rparr>), demo_receiver, ())"
proof -
  have ap: "user_apply_string \<lparr>events = []\<rparr> [10, 5, 18, 3, 34, 1, 104] = Inr \<lparr>events = [Byte 104]\<rparr>"
    using us.apply_diff [of "\<lparr>events = []\<rparr>" "\<lparr>events = [Byte 104]\<rparr>"] by (simp add: demo_diff)
  have gate: "RECEIVED_QUEUE_CAP \<noteq> 0" by (simp add: RECEIVED_QUEUE_CAP_def)
  show ?thesis
    by (simp add: process_instruction_def receiver_new_def user_stream_new_def demo_inst_def MOSH_PROTOCOL_VERSION_def
        process_throwaway_until_def gate Let_def lift_apply_def ap insert_state_def demo_receiver_def)
qed

definition demo_system :: sync_system where
  "demo_system = (sys_init 0 1)\<lparr>typed := [Byte 104], sys_sender := demo_sent, framer := demo_framer,
     in_flight := {demo_frag}\<rparr>"

definition demo_delivered :: sync_system where
  "demo_delivered = demo_system\<lparr>sys_assembly := assembly_reset (assembly_new\<lparr>current_id := 1\<rparr>),
     sys_receiver := demo_receiver, acks := {1, 0}\<rparr>"

lemma demo_reachable: "reachable (\<lambda>x. x) toy_zr demo_system"
proof -
  let ?i = "sys_init 0 1"
  let ?a = "?i\<lparr>typed := [Byte 104], sys_sender := demo_typed\<rparr>"
  let ?b = "?a\<lparr>sys_sender := demo_polled\<rparr>"
  have "sys_step (\<lambda>x. x) toy_zr ?i ?a"
    using sys_step.keys [of ?i "\<lambda>x. x" toy_zr "[104]"]
    by (simp add: sys_init_def sender_new_def demo_typed_def user_stream_new_def)
  moreover have "sys_step (\<lambda>x. x) toy_zr ?a ?b"
    using sys_step.poll [of ?a 290 100 20 1 demo_polled "\<lambda>x. x" toy_zr] by (simp add: demo_wait)
  moreover have "sys_step (\<lambda>x. x) toy_zr ?b demo_system"
  proof -
    have "has_room demo_polled" by code_simp
    then show ?thesis
      using sys_step.tick [of "\<lambda>x. x" ?b 300 100 20 500 demo_sent demo_framer "[demo_frag]" toy_zr] demo_tick demo_fits
      by (simp add: demo_system_def sys_init_def fragmenter_default_def u64_max_def)
  qed
  ultimately show ?thesis by (meson reachable.intros)
qed

lemma demo_delivered_reachable: "reachable (\<lambda>x. x) toy_zr demo_delivered"
proof (rule reachable.step [OF demo_reachable])
  show "sys_step (\<lambda>x. x) toy_zr demo_system demo_delivered"
    using sys_step.deliver [of demo_frag demo_system toy_zr demo_inst "assembly_reset (assembly_new\<lparr>current_id := 1\<rparr>)"
        350 "Inr (Latest 1 True \<lparr>events = [Byte 104]\<rparr>)" demo_receiver "()" "\<lambda>x. x"] demo_assemble demo_process
    by (simp add: demo_system_def demo_delivered_def sys_init_def latest_def demo_receiver_def)
qed

lemma demo_acked_reachable:
  "reachable (\<lambda>x. x) toy_zr (demo_delivered\<lparr>sys_sender := process_acknowledgment_through demo_sent 1\<rparr>)"
proof (rule reachable.step [OF demo_delivered_reachable])
  show "sys_step (\<lambda>x. x) toy_zr demo_delivered
      (demo_delivered\<lparr>sys_sender := process_acknowledgment_through demo_sent 1\<rparr>)"
    using sys_step.ack [of 1 demo_delivered "\<lambda>x. x" toy_zr] by (simp add: demo_delivered_def demo_system_def)
qed

theorem input_is_a_prefix_witness:
  "prefix (events \<lparr>events = [Byte 104]\<rparr>) (typed demo_delivered)"
  using input_is_a_prefix [OF toy_zlib_ok demo_delivered_reachable,
      of "\<lparr>ts_timestamp = 350, ts_num = 1, ts_state = \<lparr>events = [Byte 104]\<rparr>\<rparr>"]
  by (simp add: demo_delivered_def demo_receiver_def)

theorem acknowledged_means_delivered_witness:
  "\<exists>t \<in> set (received demo_receiver). events (ts_state t) = [Byte 104]"
  using acknowledged_means_delivered [OF toy_zlib_ok demo_acked_reachable]
  by (simp add: demo_delivered_def demo_system_def process_acknowledgment_through_def demo_sent_def demo_typed_def
      set_current_state_def push_bytes_def user_stream_new_def Let_def)

theorem honest_peer_never_fatal_witness:
  "\<exists>outcome. fst (process_instruction (lift_apply user_apply_string) () (receiver_new user_stream_new 0) demo_inst 350)
     = Inr outcome"
  using honest_peer_never_fatal [OF toy_zlib_ok demo_reachable, of demo_frag demo_inst] demo_assemble demo_process
  by (simp add: demo_system_def sys_init_def)

theorem head_is_always_usable_witness:
  "fst (process_instruction (lift_apply user_apply_string) () (receiver_new user_stream_new 0) demo_inst 350)
     \<noteq> Inr NoReference"
  using head_is_always_usable [OF toy_zlib_ok demo_reachable, of demo_frag demo_inst _ 350] demo_assemble
  by (simp add: demo_system_def sys_init_def demo_inst_def demo_sent_def sent_state_acked_def front_num_def)

lemma demo_typed_inv: "sender_inv events [] (\<lambda>_. []) demo_typed" "has_room demo_typed"
proof -
  show "sender_inv events [] (\<lambda>_. []) demo_typed"
    by (simp add: demo_typed_def sender_inv_def set_current_state_def sender_new_def push_bytes_def
        user_stream_new_def SENT_QUEUE_CAP_def SHUTDOWN_NUM_def u64_max_def)
  show "has_room demo_typed" by code_simp
qed

lemma demo_polled_inv: "sender_inv events [] (\<lambda>_. []) demo_polled" "has_room demo_polled"
  using demo_typed_inv by (simp_all add: demo_polled_def sender_inv_def has_room_def)

theorem tick_is_honest_witness:
  "\<exists>base' H'. sender_inv events base' H' demo_sent \<and> base' @ events (current_state demo_sent) = [Byte 104]"
  using tick_is_honest [OF demo_polled_inv demo_tick]
  by (auto simp: demo_polled_def demo_typed_def set_current_state_def push_bytes_def user_stream_new_def)

theorem typed_input_on_time_witness:
  "\<exists>inst H'. honest user_encode_events H' inst
     \<and> emits (\<lambda>x. x) 500 inst fragmenter_default [] demo_framer [demo_frag] \<and> H' (new_num inst) = [Byte 104]"
  using typed_input_on_time [OF demo_typed_inv _ demo_wait _ demo_tick]
  by (auto simp: demo_typed_def set_current_state_def push_bytes_def user_stream_new_def sender_new_def)

definition demo_pending :: "user_stream ssp_sender" where
  "demo_pending = set_data_ack (set_ack_num (sender_new user_stream_new 0 1) 5)"

theorem data_ack_on_time_witness:
  "\<exists>s1 s' fr' out' inst H'. wait_time demo_pending 10 100 20 = (100, s1) \<and> 100 \<le> sat_sub (10 + ACK_DELAY_MS) 10
     \<and> tick user_diff_from user_subtract (\<lambda>x. x) s1 110 100 20 500 fragmenter_default [] = (s', fr', out')
     \<and> honest user_encode_events H' inst \<and> emits (\<lambda>x. x) 500 inst fragmenter_default [] fr' out' \<and> ack_num inst = 5"
proof -
  have w: "fst (wait_time demo_pending 10 100 20) = 100" by code_simp
  obtain s1 where wait: "wait_time demo_pending 10 100 20 = (100, s1)" using w by (metis prod.collapse)
  obtain s' fr' out' where step: "tick user_diff_from user_subtract (\<lambda>x. x) s1 110 100 20 500 fragmenter_default []
      = (s', fr', out')" by (metis surj_pair)
  have inv: "sender_inv events [] (\<lambda>_. []) demo_pending"
    by (simp add: demo_pending_def sender_inv_def set_data_ack_def set_ack_num_def sender_new_def
        user_stream_new_def SENT_QUEUE_CAP_def SHUTDOWN_NUM_def u64_max_def)
  have room: "has_room demo_pending" by code_simp
  have facts: "pending_data_ack demo_pending" "\<not> shutdown_in_progress demo_pending"
      "sender_ack_num demo_pending = 5" "(5 :: u64) \<noteq> SHUTDOWN_NUM" "\<not> 110 < 10 + ACK_DELAY_MS"
    by (simp_all add: demo_pending_def set_data_ack_def set_ack_num_def sender_new_def ACK_DELAY_MS_def
        SHUTDOWN_NUM_def u64_max_def)
  from data_ack_on_time [OF inv room facts(2) _ _ wait step, of "10 + ACK_DELAY_MS"] facts wait step show ?thesis
    by auto
qed

end
