(* ===== verification/Crypto.thy ===== *)
theory Crypto
  imports Prelude
begin

text \<open>
  \<^verbatim>\<open>src/crypto.rs\<close>: nonces, the key codec, the packet header, and sealing and opening of datagrams.

  The cipher (crates \<open>ocb3\<close> and \<open>aes\<close>) and the base64 codec (crate \<open>base64ct\<close>) are not part of the
  repository and are parameters here: \<open>ocb_new\<close> builds a cipher from the 16 key bytes, \<open>enc\<close> and
  \<open>dec\<close> are \<open>Aead::encrypt\<close> and \<open>Aead::decrypt\<close> of that cipher under a 12-byte nonce,
  \<open>b64_encode\<close> and \<open>b64_decode\<close> are \<open>Base64::encode_string\<close> and \<open>Base64::decode_vec\<close>. What the
  code relies on is stated as \<open>aead_ok\<close> and \<open>base64_ok\<close>, the documented behaviour of those crates.

  The lemmas show the round trip of a datagram and of a key, that no two datagrams of a sealer
  share a nonce, the exact error of every rejected datagram, and the block budget.
\<close>

section \<open>Nonces\<close>

definition WIRE_NONCE_LEN :: nat where "WIRE_NONCE_LEN = 8"
definition NONCE_LEN :: nat where "NONCE_LEN = 12"
definition TAG_LEN :: nat where "TAG_LEN = 16"
definition MIN_DATAGRAM_LEN :: nat where "MIN_DATAGRAM_LEN = WIRE_NONCE_LEN + TAG_LEN"
definition BLOCK_LIMIT :: u64 where "BLOCK_LIMIT = push_bit 47 1"

datatype direction = ToServer | ToClient

fun opposite :: "direction \<Rightarrow> direction" where
  "opposite ToServer = ToClient"
| "opposite ToClient = ToServer"

fun direction_bit :: "direction \<Rightarrow> u64" where
  "direction_bit ToServer = 0"
| "direction_bit ToClient = 1"

definition DIRECTION_MASK :: u64 where "DIRECTION_MASK = push_bit 63 1"
definition SEQ_MASK :: u64 where "SEQ_MASK = u64_max XOR DIRECTION_MASK"

record nonce =
  nonce_value :: u64

definition nonce_new :: "direction \<Rightarrow> u64 \<Rightarrow> nonce" where
  "nonce_new direction seq =
     \<lparr>nonce_value = push_bit 63 (direction_bit direction) OR (seq AND SEQ_MASK)\<rparr>"

definition from_wire_suffix :: "bytes \<Rightarrow> nonce" where
  "from_wire_suffix bs = \<lparr>nonce_value = rd64 (take 8 bs)\<rparr>"

definition to_nonce12 :: "nonce \<Rightarrow> bytes" where
  "to_nonce12 n = replicate 4 0 @ be64 (nonce_value n)"

definition wire_suffix :: "nonce \<Rightarrow> bytes" where
  "wire_suffix n = be64 (nonce_value n)"

definition nonce_seq :: "nonce \<Rightarrow> u64" where
  "nonce_seq n = nonce_value n AND SEQ_MASK"

definition nonce_direction :: "nonce \<Rightarrow> direction" where
  "nonce_direction n = (if nonce_value n AND DIRECTION_MASK = 0 then ToServer else ToClient)"

section \<open>Errors and the session key\<close>

datatype crypto_error =
    BadKeyLength
  | BadKeyEncoding
  | BadKeyNotCanonical
  | DatagramTooShort
  | TagMismatch
  | PacketTooShort
  | DirectionMismatch
  | SequenceExhausted
  | SessionExhausted
  | EncryptFailed

record base64_key =
  key_bytes :: bytes

definition printable :: "(bytes \<Rightarrow> string) \<Rightarrow> base64_key \<Rightarrow> string" where
  "printable b64_encode self = take 22 (b64_encode (take 16 (key_bytes self)))"

definition key_parse ::
  "(bytes \<Rightarrow> string) \<Rightarrow> (string \<Rightarrow> bytes option) \<Rightarrow> string \<Rightarrow> crypto_error + base64_key" where
  "key_parse b64_encode b64_decode s =
     (if length s \<noteq> 22 then Inl BadKeyLength
      else
        let padded = s @ ''=='' in
        case b64_decode padded of
          None \<Rightarrow> Inl BadKeyEncoding
        | Some bs \<Rightarrow>
            if length bs \<noteq> 16 then Inl BadKeyLength
            else
              let parsed = \<lparr>key_bytes = bs\<rparr>
              in if printable b64_encode parsed \<noteq> s then Inl BadKeyNotCanonical else Inr parsed)"

section \<open>Packet header\<close>

record packet_header =
  timestamp :: u16
  timestamp_reply :: u16

definition header_parse :: "bytes \<Rightarrow> (packet_header \<times> bytes) option" where
  "header_parse payload =
     (if length payload < 4 then None
      else Some (\<lparr>timestamp = rd16 [payload ! 0, payload ! 1],
                  timestamp_reply = rd16 [payload ! 2, payload ! 3]\<rparr>, drop 4 payload))"

definition header_write :: "packet_header \<Rightarrow> bytes" where
  "header_write self = be16 (timestamp self) @ be16 (timestamp_reply self)"

section \<open>Sealing and opening\<close>

type_synonym 'c aead_op = "'c \<Rightarrow> bytes \<Rightarrow> bytes \<Rightarrow> bytes option"

definition new_ocb :: "(bytes \<Rightarrow> 'c) \<Rightarrow> base64_key \<Rightarrow> 'c" where
  "new_ocb ocb_new key = ocb_new (key_bytes key)"

record 'c mosh_sealer =
  seal_ocb :: 'c
  seal_direction :: direction
  next_seq :: u64
  blocks_encrypted :: u64

definition sealer_new :: "(bytes \<Rightarrow> 'c) \<Rightarrow> base64_key \<Rightarrow> direction \<Rightarrow> 'c mosh_sealer" where
  "sealer_new ocb_new key direction =
     \<lparr>seal_ocb = new_ocb ocb_new key, seal_direction = direction, next_seq = 0, blocks_encrypted = 0\<rparr>"

definition next_nonce :: "'c mosh_sealer \<Rightarrow> (crypto_error + nonce) \<times> 'c mosh_sealer" where
  "next_nonce self =
     (if next_seq self > SEQ_MASK then (Inl SequenceExhausted, self)
      else (Inr (nonce_new (seal_direction self) (next_seq self)), self\<lparr>next_seq := next_seq self + 1\<rparr>))"

text \<open>\<open>div_ceil(16)\<close> of the packet length.\<close>

definition packet_blocks :: "bytes \<Rightarrow> u64" where
  "packet_blocks packet =
     (let n = of_nat (length packet) :: u64 in n div 16 + (if n mod 16 = 0 then 0 else 1))"

definition seal ::
  "'c aead_op \<Rightarrow> 'c mosh_sealer \<Rightarrow> packet_header \<Rightarrow> bytes \<Rightarrow> (crypto_error + bytes) \<times> 'c mosh_sealer" where
  "seal enc self header fragment =
     (let packet = header_write header @ fragment;
          self1 = self\<lparr>blocks_encrypted := blocks_encrypted self + packet_blocks packet\<rparr>
      in if blocks_encrypted self1 \<ge> BLOCK_LIMIT then (Inl SessionExhausted, self1)
         else
           case next_nonce self1 of
             (Inl e, self2) \<Rightarrow> (Inl e, self2)
           | (Inr nonce, self2) \<Rightarrow>
               (case enc (seal_ocb self2) (to_nonce12 nonce) packet of
                  None \<Rightarrow> (Inl EncryptFailed, self2)
                | Some ct_and_tag \<Rightarrow> (Inr (wire_suffix nonce @ ct_and_tag), self2)))"

record 'c mosh_opener =
  open_ocb :: 'c
  peer_direction :: direction

definition opener_new :: "(bytes \<Rightarrow> 'c) \<Rightarrow> base64_key \<Rightarrow> direction \<Rightarrow> 'c mosh_opener" where
  "opener_new ocb_new key peer =
     \<lparr>open_ocb = new_ocb ocb_new key, peer_direction = peer\<rparr>"

definition open_datagram ::
  "'c aead_op \<Rightarrow> 'c mosh_opener \<Rightarrow> bytes \<Rightarrow> crypto_error + (u64 \<times> packet_header \<times> bytes)" where
  "open_datagram dec self datagram =
     (if length datagram < MIN_DATAGRAM_LEN then Inl DatagramTooShort
      else
        let nonce = from_wire_suffix (take WIRE_NONCE_LEN datagram) in
        if nonce_direction nonce \<noteq> peer_direction self then Inl DirectionMismatch
        else
          case dec (open_ocb self) (to_nonce12 nonce) (drop WIRE_NONCE_LEN datagram) of
            None \<Rightarrow> Inl TagMismatch
          | Some packet \<Rightarrow>
              (case header_parse packet of
                 None \<Rightarrow> Inl PacketTooShort
               | Some (header, fragment) \<Rightarrow> Inr (nonce_seq nonce, header, fragment)))"

section \<open>What the code relies on\<close>

text \<open>Decryption undoes encryption under the same cipher and nonce, and the tag adds 16 bytes.\<close>

definition aead_ok :: "'c aead_op \<Rightarrow> 'c aead_op \<Rightarrow> bool" where
  "aead_ok enc dec \<longleftrightarrow>
     (\<forall>c n p ct. enc c n p = Some ct \<longrightarrow> dec c n ct = Some p \<and> length ct = length p + TAG_LEN)"

text \<open>Base64 of 16 bytes is 24 characters ending in two padding characters, and decodes back.\<close>

definition base64_ok :: "(bytes \<Rightarrow> string) \<Rightarrow> (string \<Rightarrow> bytes option) \<Rightarrow> bool" where
  "base64_ok b64_encode b64_decode \<longleftrightarrow>
     (\<forall>bs. length bs = 16 \<longrightarrow>
        b64_decode (b64_encode bs) = Some bs \<and> length (b64_encode bs) = 24 \<and>
        drop 22 (b64_encode bs) = ''=='')"

section \<open>Nonce layout\<close>

lemma bit_DIRECTION_MASK: "bit DIRECTION_MASK n \<longleftrightarrow> n = 63"
  unfolding DIRECTION_MASK_def bit_push_bit_iff bit_1_iff by auto

lemma bit_SEQ_MASK: "bit SEQ_MASK n \<longleftrightarrow> n < 63"
  unfolding SEQ_MASK_def u64_max_def bit_xor_iff bit_DIRECTION_MASK bit_minus_1_iff by auto

lemma SEQ_MASK_mask: "SEQ_MASK = mask 63"
  by (rule bit_word_eqI) (simp add: bit_SEQ_MASK bit_mask_iff)

lemma unat_SEQ_MASK: "unat SEQ_MASK = 2 ^ 63 - 1"
  by (simp add: SEQ_MASK_mask mask_eq_exp_minus_1)

lemma seq_le_mask: "s \<le> SEQ_MASK \<Longrightarrow> s AND SEQ_MASK = s"
proof -
  assume "s \<le> SEQ_MASK"
  then have "unat s < 2 ^ 63" by (simp add: word_le_nat_alt unat_SEQ_MASK)
  then have "s < 2 ^ 63" by (simp add: word_less_nat_alt)
  then have "take_bit 63 s = s" by (simp only: take_bit_eq_mod mod_word_less)
  then show ?thesis by (simp add: SEQ_MASK_mask take_bit_eq_mask)
qed

lemma nonce_seq_new: "s \<le> SEQ_MASK \<Longrightarrow> nonce_seq (nonce_new d s) = s"
proof -
  assume s: "s \<le> SEQ_MASK"
  have "(push_bit 63 (direction_bit d) OR (s AND SEQ_MASK)) AND SEQ_MASK = s AND SEQ_MASK"
    by (rule bit_word_eqI) (auto simp: bit_and_iff bit_or_iff bit_push_bit_iff bit_SEQ_MASK)
  with s show ?thesis by (simp add: nonce_seq_def nonce_new_def seq_le_mask)
qed

lemma nonce_direction_new [simp]: "nonce_direction (nonce_new d s) = d"
proof -
  have low: "(s AND SEQ_MASK) AND DIRECTION_MASK = 0"
    by (rule bit_word_eqI) (simp add: bit_and_iff bit_SEQ_MASK bit_DIRECTION_MASK)
  have high: "(DIRECTION_MASK OR (s AND SEQ_MASK)) AND DIRECTION_MASK = DIRECTION_MASK"
    by (rule bit_word_eqI) (auto simp: bit_and_iff bit_or_iff)
  have "DIRECTION_MASK \<noteq> 0" by (simp add: DIRECTION_MASK_def)
  show ?thesis
  proof (cases d)
    case ToServer
    with low show ?thesis by (simp add: nonce_direction_def nonce_new_def)
  next
    case ToClient
    have "nonce_value (nonce_new ToClient s) = DIRECTION_MASK OR (s AND SEQ_MASK)"
      by (simp add: nonce_new_def DIRECTION_MASK_def)
    with high \<open>DIRECTION_MASK \<noteq> 0\<close> ToClient show ?thesis by (simp add: nonce_direction_def)
  qed
qed

lemma from_wire_suffix_wire [codec_simps]: "from_wire_suffix (wire_suffix n) = n"
  by (simp add: from_wire_suffix_def wire_suffix_def codec_simps)

lemma length_wire_suffix [simp]: "length (wire_suffix n) = 8"
  by (simp add: wire_suffix_def)

lemma wire_suffix_inj: "wire_suffix n = wire_suffix n' \<Longrightarrow> n = n'"
  by (metis from_wire_suffix_wire)

lemma length_to_nonce12: "length (to_nonce12 n) = NONCE_LEN"
  by (simp add: to_nonce12_def NONCE_LEN_def)

section \<open>Header and key\<close>

lemma length_header_write [simp]: "length (header_write h) = 4"
  by (simp add: header_write_def)

lemma be16_two: obtains a b where "be16 w = [a, b]"
  using be16.put_width [of w] by (metis (no_types, opaque_lifting) One_nat_def Suc_1 length_0_conv length_Suc_conv)

lemma header_parse_write [codec_simps]: "header_parse (header_write h @ rest) = Some (h, rest)"
proof -
  obtain a b where t: "be16 (timestamp h) = [a, b]" by (rule be16_two)
  obtain c d where r: "be16 (timestamp_reply h) = [c, d]" by (rule be16_two)
  have "rd16 [a, b] = timestamp h" "rd16 [c, d] = timestamp_reply h"
    by (simp_all add: t [symmetric] r [symmetric] codec_simps)
  then show ?thesis
    by (simp add: header_parse_def header_write_def t r)
qed

lemma key_parse_sound:
  assumes "key_parse b64e b64d s = Inr k"
  shows "printable b64e k = s" and "length (key_bytes k) = 16"
  using assms by (auto simp: key_parse_def Let_def split: if_splits option.splits)

lemma key_parse_complete:
  assumes ok: "base64_ok b64e b64d" and k: "length (key_bytes k) = 16"
  shows "key_parse b64e b64d (printable b64e k) = Inr k"
proof -
  let ?e = "b64e (key_bytes k)"
  from ok k have e: "b64d ?e = Some (key_bytes k)" "length ?e = 24" "drop 22 ?e = ''==''"
    by (auto simp: base64_ok_def)
  have "take 22 ?e @ ''=='' = ?e" using e(3) by (metis append_take_drop_id)
  with e k show ?thesis
    by (simp add: key_parse_def printable_def Let_def)
qed

section \<open>Sealing\<close>

lemma seal_cases:
  assumes "seal enc self header fragment = (r, self')"
  obtains (budget) "r = Inl SessionExhausted" "next_seq self' = next_seq self"
      "BLOCK_LIMIT \<le> blocks_encrypted self'"
    | (exhausted) "r = Inl SequenceExhausted" "next_seq self' = next_seq self" "SEQ_MASK < next_seq self"
    | (failed) "r = Inl EncryptFailed" "next_seq self' = next_seq self + 1" "next_seq self \<le> SEQ_MASK"
    | (sealed) ct where
        "r = Inr (wire_suffix (nonce_new (seal_direction self) (next_seq self)) @ ct)"
        "enc (seal_ocb self) (to_nonce12 (nonce_new (seal_direction self) (next_seq self)))
           (header_write header @ fragment) = Some ct"
        "next_seq self' = next_seq self + 1" "next_seq self \<le> SEQ_MASK"
        "blocks_encrypted self' = blocks_encrypted self + packet_blocks (header_write header @ fragment)"
        "blocks_encrypted self' < BLOCK_LIMIT"
  using assms
  by (auto simp: seal_def next_nonce_def Let_def not_le not_less split: if_splits option.splits)

lemma seal_frame:
  "seal enc self header fragment = (r, self') \<Longrightarrow>
     seal_direction self' = seal_direction self \<and> seal_ocb self' = seal_ocb self"
  by (auto simp: seal_def next_nonce_def Let_def split: if_splits option.splits)

text \<open>A sequence of seal calls on one sealer, as the session makes them.\<close>

fun seal_all :: "'c aead_op \<Rightarrow> 'c mosh_sealer \<Rightarrow> (packet_header \<times> bytes) list \<Rightarrow> (crypto_error + bytes) list" where
  "seal_all enc self [] = []"
| "seal_all enc self ((h, f) # ps) =
     (case seal enc self h f of (r, self') \<Rightarrow> r # seal_all enc self' ps)"

definition datagrams :: "(crypto_error + bytes) list \<Rightarrow> bytes list" where
  "datagrams rs = List.map_filter (case_sum (\<lambda>_. None) Some) rs"

lemma datagrams_simps [simp]:
  "datagrams [] = []" "datagrams (Inl e # rs) = datagrams rs" "datagrams (Inr d # rs) = d # datagrams rs"
  by (simp_all add: datagrams_def List.map_filter_def)

lemma succ_seq: "s \<le> SEQ_MASK \<Longrightarrow> unat (s + 1) = unat s + 1"
  by (simp add: word_le_nat_alt unat_SEQ_MASK unat_word_ariths)

lemma datagram_nonce:
  "take 8 (wire_suffix n @ ct) = wire_suffix n"
  by simp

lemma seal_all_nonces:
  assumes "d \<in> set (datagrams (seal_all enc self ps))"
  shows "\<exists>s. unat (next_seq self) \<le> unat s \<and> s \<le> SEQ_MASK \<and>
           take 8 d = wire_suffix (nonce_new (seal_direction self) s)"
  using assms
proof (induction ps arbitrary: self)
  case Nil
  then show ?case by simp
next
  case (Cons hf ps)
  obtain h f where hf: "hf = (h, f)" by fastforce
  obtain r self' where s: "seal enc self h f = (r, self')" by fastforce
  note fr = seal_frame [OF s]
  have IH: "\<exists>t. unat (next_seq self) \<le> unat t \<and> t \<le> SEQ_MASK \<and>
      take 8 d = wire_suffix (nonce_new (seal_direction self) t)"
    if "d \<in> set (datagrams (seal_all enc self' ps))"
    using Cons.IH [OF that] fr
    by (cases rule: seal_cases [OF s]) (auto simp: succ_seq intro: Suc_leD)
  show ?case
    by (cases rule: seal_cases [OF s])
      (use Cons.prems hf s IH in \<open>auto simp: word_le_nat_alt\<close>)
qed

lemma nonce_new_inj: "s \<le> SEQ_MASK \<Longrightarrow> t \<le> SEQ_MASK \<Longrightarrow> nonce_new d s = nonce_new d t \<Longrightarrow> s = t"
  by (metis nonce_seq_new)

lemma seal_all_distinct: "distinct (map (take 8) (datagrams (seal_all enc self ps)))"
proof (induction ps arbitrary: self)
  case Nil
  then show ?case by simp
next
  case (Cons hf ps)
  obtain h f where hf: "hf = (h, f)" by fastforce
  obtain r self' where s: "seal enc self h f = (r, self')" by fastforce
  from s show ?case
  proof (cases rule: seal_cases)
    case (sealed ct)
    have "take 8 d \<noteq> wire_suffix (nonce_new (seal_direction self) (next_seq self))"
      if "d \<in> set (datagrams (seal_all enc self' ps))" for d
    proof -
      from seal_all_nonces [OF that] obtain t where
        t: "unat (next_seq self') \<le> unat t" "t \<le> SEQ_MASK"
          "take 8 d = wire_suffix (nonce_new (seal_direction self) t)"
        using seal_frame [OF s] by auto
      with sealed have "next_seq self \<noteq> t" by (auto simp: succ_seq)
      with t sealed show ?thesis by (metis nonce_new_inj wire_suffix_inj)
    qed
    with sealed s hf Cons.IH [of self'] show ?thesis by (auto simp: image_iff) metis
  qed (use hf s Cons.IH [of self'] in auto)
qed

text \<open>The cipher's nonce is the one on the wire, behind four zero bytes.\<close>

lemma seal_all_encrypted:
  assumes "d \<in> set (datagrams (seal_all enc self ps))"
  shows "length (take 8 d) = 8 \<and>
    (\<exists>(h, f) \<in> set ps. enc (seal_ocb self) (replicate 4 0 @ take 8 d) (header_write h @ f) = Some (drop 8 d))"
  using assms
proof (induction ps arbitrary: self)
  case (Cons hf ps)
  obtain h f where hf: "hf = (h, f)" by fastforce
  obtain r self' where s: "seal enc self h f = (r, self')" by fastforce
  have IH: ?case if "d \<in> set (datagrams (seal_all enc self' ps))"
    using Cons.IH [OF that] seal_frame [OF s] by auto
  from s show ?case
  proof (cases rule: seal_cases)
    case (sealed ct)
    then show ?thesis using Cons.prems hf s IH by (auto simp: to_nonce12_def wire_suffix_def codec_simps)
  qed (use Cons.prems hf s IH in auto)
qed simp

section \<open>Opening\<close>

lemma sealed_length:
  assumes "aead_ok enc dec" and "seal enc self h f = (Inr d, self')"
  shows "length d = WIRE_NONCE_LEN + 4 + length f + TAG_LEN"
  using assms(2)
  by (cases rule: seal_cases) (use assms(1) in \<open>auto simp: aead_ok_def WIRE_NONCE_LEN_def\<close>)

lemma open_sealed:
  assumes "aead_ok enc dec"
    and "seal enc self header fragment = (Inr d, self')"
    and "open_ocb opener = seal_ocb self" and "peer_direction opener = seal_direction self"
  shows "open_datagram dec opener d = Inr (next_seq self, header, fragment)"
  using assms(2)
proof (cases rule: seal_cases)
  case (sealed ct)
  from sealed_length [OF assms(1,2)] have "\<not> length d < MIN_DATAGRAM_LEN"
    by (simp add: MIN_DATAGRAM_LEN_def)
  moreover from sealed assms(1) have "dec (seal_ocb self)
      (to_nonce12 (nonce_new (seal_direction self) (next_seq self))) ct = Some (header_write header @ fragment)"
    by (auto simp: aead_ok_def)
  ultimately show ?thesis
    using sealed assms(3,4)
    by (simp add: open_datagram_def WIRE_NONCE_LEN_def codec_simps nonce_seq_new Let_def)
qed simp_all

text \<open>C13: A datagram sealed for one direction opens, under the same cipher and that peer direction,
  to exactly the sequence number, header and fragment that went in.\<close>

theorem seal_then_open:
  assumes "aead_ok enc dec"
    and "seal enc self header fragment = (Inr d, self')"
    and "open_ocb opener = seal_ocb self" and "peer_direction opener = seal_direction self"
  shows "open_datagram dec opener d = Inr (next_seq self, header, fragment)"
  using assms by (rule open_sealed)

text \<open>A cipher that prepends a zero tag: enough to see the hypotheses hold together.\<close>

definition toy_enc :: "unit aead_op" where
  "toy_enc c n p = Some (replicate 16 0 @ p)"

definition toy_dec :: "unit aead_op" where
  "toy_dec c n ct = (if take 16 ct = replicate 16 0 then Some (drop 16 ct) else None)"

lemma toy_aead_ok: "aead_ok toy_enc toy_dec"
  by (auto simp: aead_ok_def toy_enc_def toy_dec_def TAG_LEN_def)

definition toy_key :: base64_key where
  "toy_key = \<lparr>key_bytes = replicate 16 0\<rparr>"

definition toy_sealer :: "unit mosh_sealer" where
  "toy_sealer = sealer_new (\<lambda>_. ()) toy_key ToServer"

definition toy_header :: packet_header where
  "toy_header = \<lparr>timestamp = 1, timestamp_reply = 0xFFFF\<rparr>"

lemma toy_seal:
  "seal toy_enc toy_sealer toy_header [7] = (Inr (replicate 24 0 @ header_write toy_header @ [7]),
     toy_sealer\<lparr>blocks_encrypted := 1, next_seq := 1\<rparr>)"
  by code_simp

theorem seal_then_open_witness:
  "open_datagram toy_dec (opener_new (\<lambda>_. ()) toy_key ToServer)
     (replicate 24 0 @ header_write toy_header @ [7]) = Inr (0, toy_header, [7])"
  using seal_then_open [OF toy_aead_ok toy_seal, of "opener_new (\<lambda>_. ()) toy_key ToServer"]
  by (simp add: opener_new_def toy_sealer_def sealer_new_def new_ocb_def)

text \<open>C39: Our own datagrams reflected back at us are rejected for their direction bit, before the
  cipher is even asked.\<close>

theorem reflected_datagram_rejected:
  assumes "aead_ok enc dec"
    and "seal enc self header fragment = (Inr d, self')"
    and "peer_direction opener = opposite (seal_direction self)"
  shows "open_datagram any_dec opener d = Inl DirectionMismatch"
  using assms(2)
proof (cases rule: seal_cases)
  case (sealed ct)
  from sealed_length [OF assms(1,2)] have "\<not> length d < MIN_DATAGRAM_LEN"
    by (simp add: MIN_DATAGRAM_LEN_def)
  moreover have "opposite (seal_direction self) \<noteq> seal_direction self"
    by (cases "seal_direction self") simp_all
  ultimately show ?thesis
    using sealed assms(3) by (simp add: open_datagram_def WIRE_NONCE_LEN_def codec_simps Let_def)
qed simp_all

theorem reflected_datagram_rejected_witness:
  "open_datagram toy_dec (opener_new (\<lambda>_. ()) toy_key ToClient)
     (replicate 24 0 @ header_write toy_header @ [7]) = Inl DirectionMismatch"
  using reflected_datagram_rejected [OF toy_aead_ok toy_seal,
      of "opener_new (\<lambda>_. ()) toy_key ToClient" toy_dec]
  by (simp add: opener_new_def toy_sealer_def sealer_new_def)

text \<open>C14: Nonce safety of a whole session: the client's and the server's sealers share one key, and over any
  sequence of seal calls on both sides, failed calls included, the datagrams that leave were encrypted
  under 12-byte cipher nonces that are all different, each of which the datagram carries on the wire.\<close>

theorem nonces_never_reused:
  "\<exists>nonces. distinct nonces \<and>
     list_all2 (\<lambda>n d. length n = NONCE_LEN \<and> drop 4 n = take 8 d \<and>
         (\<exists>header fragment. (header, fragment) \<in> set (ps @ qs) \<and> enc (new_ocb ocb_new key) n (header_write header @ fragment) = Some (drop 8 d)))
       nonces
       (datagrams (seal_all enc (sealer_new ocb_new key ToServer) ps) @
        datagrams (seal_all enc (sealer_new ocb_new key ToClient) qs))"
proof -
  let ?c = "sealer_new ocb_new key ToServer" and ?s = "sealer_new ocb_new key ToClient"
  let ?ds = "datagrams (seal_all enc ?c ps) @ datagrams (seal_all enc ?s qs)" and ?n = "\<lambda>d. replicate 4 0 @ take 8 d"
  have "take 8 d \<noteq> take 8 e"
    if de: "d \<in> set (datagrams (seal_all enc ?c ps))" "e \<in> set (datagrams (seal_all enc ?s qs))" for d e
  proof -
    obtain s t where "take 8 d = wire_suffix (nonce_new ToServer s)"
      "take 8 e = wire_suffix (nonce_new ToClient t)"
      using seal_all_nonces [OF de(1)] seal_all_nonces [OF de(2)]
      by (auto simp: sealer_new_def)
    then show ?thesis
      by (metis direction.distinct(1) nonce_direction_new wire_suffix_inj)
  qed
  then have "distinct (map (take 8) ?ds)"
    using seal_all_distinct [of enc ?c ps] seal_all_distinct [of enc ?s qs]
    by (auto simp: distinct_append)
  then have "distinct (map ((@) (replicate 4 0)) (map (take 8) ?ds))"
    by (subst distinct_map) (rule conjI, assumption, simp add: inj_on_def)
  then have "distinct (map ?n ?ds)" by (simp only: map_map comp_def)
  moreover have "length (?n d) = NONCE_LEN \<and> drop 4 (?n d) = take 8 d \<and>
      (\<exists>header fragment. (header, fragment) \<in> set (ps @ qs) \<and>
         enc (new_ocb ocb_new key) (?n d) (header_write header @ fragment) = Some (drop 8 d))"
    if d: "d \<in> set ?ds" for d
  proof -
    from d consider "d \<in> set (datagrams (seal_all enc ?c ps))" | "d \<in> set (datagrams (seal_all enc ?s qs))" by auto
    then have "length (take 8 d) = 8 \<and> (\<exists>(h, f) \<in> set (ps @ qs). enc (new_ocb ocb_new key) (?n d) (header_write h @ f) = Some (drop 8 d))"
    proof cases
      case 1
      from seal_all_encrypted [OF 1] show ?thesis by (auto simp: sealer_new_def)
    next
      case 2
      from seal_all_encrypted [OF 2] show ?thesis by (auto simp: sealer_new_def)
    qed
    then show ?thesis by (auto simp: NONCE_LEN_def)
  qed
  ultimately show ?thesis
    by (intro exI [of _ "map ?n ?ds"] conjI) (assumption, unfold list_all2_map1, rule list.rel_refl_strong, blast)
qed

text \<open>The per-key budgets are exact: a seal succeeds only while the block counter stays below
  \<open>2^47\<close> and the sequence number within 63 bits; it then advances the sequence by one, and each
  refusal names its budget.\<close>

theorem seal_budgets:
  assumes "seal enc self header fragment = (r, self')"
  shows "((\<exists>d. r = Inr d) \<longrightarrow>
           next_seq self \<le> SEQ_MASK \<and> next_seq self' = next_seq self + 1 \<and>
           blocks_encrypted self' = blocks_encrypted self + packet_blocks (header_write header @ fragment) \<and>
           blocks_encrypted self' < BLOCK_LIMIT) \<and>
         (r = Inl SessionExhausted \<longleftrightarrow>
           BLOCK_LIMIT \<le> blocks_encrypted self + packet_blocks (header_write header @ fragment)) \<and>
         (r = Inl SequenceExhausted \<longleftrightarrow>
           blocks_encrypted self + packet_blocks (header_write header @ fragment) < BLOCK_LIMIT \<and>
           SEQ_MASK < next_seq self)"
  using assms
  by (auto simp: seal_def next_nonce_def Let_def not_le not_less split: if_splits option.splits)

theorem seal_budgets_witness:
  "next_seq (toy_sealer\<lparr>blocks_encrypted := 1, next_seq := 1\<rparr>) = next_seq toy_sealer + 1"
  using seal_budgets [OF toy_seal] by simp

text \<open>The key codec is canonical: a string parses to a key exactly when it is the printable form
  of a 16-byte key, and it then prints back to itself.\<close>

theorem key_codec_canonical:
  assumes "base64_ok b64e b64d"
  shows "key_parse b64e b64d s = Inr k \<longleftrightarrow> length (key_bytes k) = 16 \<and> printable b64e k = s"
  using key_parse_sound key_parse_complete [OF assms] by blast

text \<open>An instance of the base64 contract: hexadecimal digits do not fit, so the witness packs each
  byte into one character.\<close>

definition toy_b64e :: "bytes \<Rightarrow> string" where
  "toy_b64e bs = map (\<lambda>b. char_of (unat b)) bs @ ''AAAAAA=='' "

definition toy_b64d :: "string \<Rightarrow> bytes option" where
  "toy_b64d s = Some (map (\<lambda>c. of_nat (of_char c)) (take 16 s))"

lemma toy_base64_ok: "base64_ok toy_b64e toy_b64d"
proof -
  have "of_nat (of_char (char_of (unat b) :: char)) = b" for b :: u8
    using unsigned_less [where 'a = nat, of b] by simp
  then have "map (\<lambda>c. of_nat (of_char c)) (map (\<lambda>b. char_of (unat b) :: char) bs) = bs" for bs :: bytes
    by (simp add: comp_def)
  then show ?thesis
    by (auto simp: base64_ok_def toy_b64e_def toy_b64d_def simp del: map_map)
qed

theorem key_codec_canonical_witness:
  "key_parse toy_b64e toy_b64d (printable toy_b64e toy_key) = Inr toy_key"
  using key_codec_canonical [OF toy_base64_ok, of "printable toy_b64e toy_key" toy_key]
  by (simp add: toy_key_def)

end
