(* ===== verification/Host_Log.thy ===== *)
theory Host_Log
  imports Sync_State
begin

text \<open>
  \<^verbatim>\<open>src/ssp.rs\<close> lines 170-349: the event log of the host stream and the received host state.

  A node is an immutable \<open>Arc\<close>; what the code observes of it beyond its contents is its address
  (\<open>suffix_over\<close> compares pointers). A node here carries the address it was allocated at, and the
  allocator is the next free address, threaded through every push. Cloning a log copies the handle
  and shares the nodes. A live node is never at the address of another live node, which is the
  coherence predicate below; \<open>push\<close> establishes it and nothing breaks it.

  The lemmas show that \<open>suffix_over\<close>, which never compares events, is nevertheless exact: it returns
  a suffix precisely when the base log is an ancestor, and that suffix is what the log has beyond
  the base.
\<close>

datatype host_event =
    Bytes bytes
  | HostResize i32 i32

datatype log_node = LogNode (addr: nat) (parent: "log_node option") (event: host_event)

record event_log =
  log_node :: "log_node option"
  log_len :: nat

definition event_log_new :: event_log where
  "event_log_new = \<lparr>log_node = None, log_len = 0\<rparr>"

definition log_is_empty :: "event_log \<Rightarrow> bool" where
  "log_is_empty self = (log_len self = 0)"

definition log_push :: "nat \<Rightarrow> event_log \<Rightarrow> host_event \<Rightarrow> event_log \<times> nat" where
  "log_push free self ev =
     (self\<lparr>log_node := Some (LogNode free (log_node self) ev), log_len := log_len self + 1\<rparr>, free + 1)"

text \<open>The walk of \<open>iter\<close> from the newest node to the root.\<close>

fun walk :: "log_node option \<Rightarrow> host_event list" where
  "walk None = []"
| "walk (Some (LogNode a p ev)) = ev # walk p"

definition log_iter :: "event_log \<Rightarrow> host_event list" where
  "log_iter self = rev (walk (log_node self))"

text \<open>The two loops of \<open>suffix_over\<close>, each running \<open>self.len - base.len\<close> rounds; \<open>None\<close> is the early
  return of the \<open>?\<close> operator.\<close>

fun step_back :: "nat \<Rightarrow> log_node option \<Rightarrow> log_node option option" where
  "step_back 0 cursor = Some cursor"
| "step_back (Suc n) None = None"
| "step_back (Suc n) (Some nd) = step_back n (parent nd)"

fun collect_back :: "nat \<Rightarrow> log_node option \<Rightarrow> host_event list option" where
  "collect_back 0 cursor = Some []"
| "collect_back (Suc n) None = None"
| "collect_back (Suc n) (Some nd) = map_option ((#) (event nd)) (collect_back n (parent nd))"

definition suffix_over :: "event_log \<Rightarrow> event_log \<Rightarrow> host_event list option" where
  "suffix_over self base =
     (if log_len base > log_len self then None
      else
        case step_back (log_len self - log_len base) (log_node self) of
          None \<Rightarrow> None
        | Some cursor \<Rightarrow>
            let shares_trunk = (case (log_node base, cursor) of
                                  (None, None) \<Rightarrow> True
                                | (Some a, Some b) \<Rightarrow> addr a = addr b
                                | _ \<Rightarrow> False)
            in if \<not> shares_trunk then None
               else map_option rev (collect_back (log_len self - log_len base) (log_node self)))"

record host_stream_state =
  host_log :: event_log
  echo_ack :: u64

definition host_stream_new :: host_stream_state where
  "host_stream_new = \<lparr>host_log = event_log_new, echo_ack = 0\<rparr>"

fun event_byte_len :: "host_event \<Rightarrow> nat" where
  "event_byte_len (Bytes b) = length b"
| "event_byte_len (HostResize _ _) = 0"

definition byte_len :: "host_stream_state \<Rightarrow> nat" where
  "byte_len self = sum_list (map event_byte_len (log_iter (host_log self)))"

fun apply_host_instruction ::
  "host_stream_state \<times> nat \<Rightarrow> host_instruction \<Rightarrow> host_stream_state \<times> nat" where
  "apply_host_instruction (self, free) (HostBytes bs) =
     (if bs \<noteq> [] then
        (case log_push free (host_log self) (Bytes bs) of (l, free') \<Rightarrow> (self\<lparr>host_log := l\<rparr>, free'))
      else (self, free))"
| "apply_host_instruction (self, free) (HResize width height) =
     (case log_push free (host_log self) (HostResize width height) of
        (l, free') \<Rightarrow> (self\<lparr>host_log := l\<rparr>, free'))"
| "apply_host_instruction (self, free) (EchoAck num) = (self\<lparr>echo_ack := max (echo_ack self) num\<rparr>, free)"

definition host_apply_string ::
  "nat \<Rightarrow> host_stream_state \<Rightarrow> bytes \<Rightarrow> (wire_error + host_stream_state) \<times> nat" where
  "host_apply_string free self d =
     (case host_decode d of
        Inl e \<Rightarrow> (Inl e, free)
      | Inr message \<Rightarrow>
          (case foldl apply_host_instruction (self, free) (host_instructions message) of
             (self', free') \<Rightarrow> (Inr self', free')))"

section \<open>Nodes, lengths and addresses\<close>

fun chain :: "log_node option \<Rightarrow> log_node list" where
  "chain None = []"
| "chain (Some (LogNode a p ev)) = LogNode a p ev # chain p"

text \<open>A log handle is well formed when its length counts its nodes.\<close>

definition log_ok :: "event_log \<Rightarrow> bool" where
  "log_ok l \<longleftrightarrow> log_len l = length (chain (log_node l))"

text \<open>The allocator: every node of the log was allocated below \<open>free\<close>.\<close>

definition log_below :: "nat \<Rightarrow> event_log \<Rightarrow> bool" where
  "log_below free l \<longleftrightarrow> (\<forall>n \<in> set (chain (log_node l)). addr n < free)"

text \<open>Two logs are coherent when an address names the same node in both.\<close>

definition coherent :: "event_log \<Rightarrow> event_log \<Rightarrow> bool" where
  "coherent l m \<longleftrightarrow>
     (\<forall>a \<in> set (chain (log_node l)). \<forall>b \<in> set (chain (log_node m)). addr a = addr b \<longrightarrow> a = b)"

definition log_family :: "nat \<Rightarrow> event_log set \<Rightarrow> bool" where
  "log_family free L \<longleftrightarrow> (\<forall>l \<in> L. log_ok l \<and> log_below free l) \<and> (\<forall>l \<in> L. \<forall>m \<in> L. coherent l m)"

lemma chain_Some: "chain (Some nd) = nd # chain (parent nd)"
  by (cases nd) simp

lemma walk_chain: "walk c = map event (chain c)"
  by (induction c rule: walk.induct) simp_all

lemma length_walk: "length (walk c) = length (chain c)"
  by (simp add: walk_chain)

lemma log_iter_push: "log_iter (fst (log_push free l ev)) = log_iter l @ [ev]"
  by (simp add: log_iter_def log_push_def)

lemma chain_push: "chain (log_node (fst (log_push free l ev)))
    = LogNode free (log_node l) ev # chain (log_node l)"
  by (simp add: log_push_def)

lemma log_ok_push: "log_ok l \<Longrightarrow> log_ok (fst (log_push free l ev))"
  by (simp add: log_ok_def log_push_def)

lemma step_back_drop:
  "n \<le> length (chain c) \<Longrightarrow> \<exists>d. step_back n c = Some d \<and> chain d = drop n (chain c)"
proof (induction n arbitrary: c)
  case 0
  then show ?case by simp
next
  case (Suc n)
  then obtain nd where c: "c = Some nd" by (cases c) auto
  with Suc show ?case by (simp add: chain_Some)
qed

lemma collect_back_take:
  "n \<le> length (chain c) \<Longrightarrow> collect_back n c = Some (map event (take n (chain c)))"
proof (induction n arbitrary: c)
  case 0
  then show ?case by simp
next
  case (Suc n)
  then obtain nd where c: "c = Some nd" by (cases c) auto
  with Suc show ?case by (simp add: chain_Some)
qed

lemma chain_inj: "chain c = chain d \<Longrightarrow> c = d"
  by (cases c; cases d) (simp_all add: chain_Some)

section \<open>Exactness of the pointer comparison\<close>

lemma chain_nil_iff [simp]: "chain c = [] \<longleftrightarrow> c = None"
  by (cases c) (simp_all add: chain_Some)

lemma suffix_over_iff:
  assumes "log_ok self" and "log_ok base" and "coherent self base"
  shows "suffix_over self base =
           (if \<exists>newer. chain (log_node self) = newer @ chain (log_node base)
            then Some (drop (log_len base) (log_iter self)) else None)"
proof (cases "log_len base > log_len self")
  case True
  then have "\<nexists>newer. chain (log_node self) = newer @ chain (log_node base)"
    using assms by (auto simp: log_ok_def)
  with True show ?thesis by (simp add: suffix_over_def)
next
  case False
  let ?n = "log_len self - log_len base" and ?c = "chain (log_node self)" and ?b = "chain (log_node base)"
  have n: "?n \<le> length ?c" using assms(1) by (simp add: log_ok_def)
  from step_back_drop [OF n] obtain d where d: "step_back ?n (log_node self) = Some d" "chain d = drop ?n ?c"
    by blast
  have len: "length (chain d) = length ?b" using d assms False by (simp add: log_ok_def)
  have same: "(case (log_node base, d) of (None, None) \<Rightarrow> True | (Some a, Some b) \<Rightarrow> addr a = addr b | _ \<Rightarrow> False)
      \<longleftrightarrow> d = log_node base"
  proof (cases "log_node base")
    case None
    with len have "d = None" by simp
    with None show ?thesis by simp
  next
    case (Some a)
    with len obtain b where b: "d = Some b" by (cases d) (simp_all add: chain_Some)
    have "b \<in> set ?c" using d(2) b by (metis chain_Some in_set_dropD list.set_intros(1))
    moreover have "a \<in> set ?b" by (simp add: Some chain_Some)
    ultimately have "addr b = addr a \<longrightarrow> b = a" using assms(3) by (auto simp: coherent_def)
    with Some b show ?thesis by auto
  qed
  have anc: "d = log_node base \<longleftrightarrow> (\<exists>newer. ?c = newer @ ?b)"
  proof
    assume "d = log_node base"
    then have "?c = take ?n ?c @ ?b" using d(2) by (metis append_take_drop_id)
    then show "\<exists>newer. ?c = newer @ ?b" by blast
  next
    assume "\<exists>newer. ?c = newer @ ?b"
    then have "drop ?n ?c = ?b" using assms by (auto simp: log_ok_def)
    with d(2) show "d = log_node base" by (metis chain_inj)
  qed
  have "rev (map event (take ?n ?c)) = drop (log_len base) (log_iter self)"
    using False assms(1) by (simp add: log_iter_def walk_chain log_ok_def rev_take rev_map drop_map)
  with False d same anc collect_back_take [OF n] show ?thesis
    by (simp add: suffix_over_def Let_def)
qed

lemma suffix_over_SomeD:
  assumes "log_ok self" and "log_ok base" and "coherent self base" and "suffix_over self base = Some s"
  shows "log_iter self = log_iter base @ s"
proof -
  from assms obtain newer where n: "chain (log_node self) = newer @ chain (log_node base)"
    and s: "s = drop (log_len base) (log_iter self)"
    by (auto simp: suffix_over_iff split: if_splits)
  have "take (log_len base) (log_iter self) = log_iter base"
    using n assms(2) by (simp add: log_iter_def walk_chain log_ok_def)
  with s show ?thesis by (metis append_take_drop_id)
qed

section \<open>Applying host messages\<close>

fun host_instruction_events :: "host_instruction \<Rightarrow> host_event list" where
  "host_instruction_events (HostBytes bs) = (if bs = [] then [] else [Bytes bs])"
| "host_instruction_events (HResize w h) = [HostResize w h]"
| "host_instruction_events (EchoAck n) = []"

fun host_instruction_ack :: "u64 \<Rightarrow> host_instruction \<Rightarrow> u64" where
  "host_instruction_ack a (EchoAck n) = max a n"
| "host_instruction_ack a _ = a"

text \<open>\<open>extends free l l' free'\<close>: \<open>l'\<close> is \<open>l\<close> with nodes on top that were allocated from \<open>free\<close> up to
  \<open>free'\<close>.\<close>

definition extends :: "nat \<Rightarrow> event_log \<Rightarrow> event_log \<Rightarrow> nat \<Rightarrow> bool" where
  "extends free l l' free' \<longleftrightarrow> free \<le> free' \<and> (log_ok l \<longrightarrow> log_ok l') \<and>
     (\<exists>newer. chain (log_node l') = newer @ chain (log_node l) \<and>
        distinct (map addr newer) \<and> (\<forall>n \<in> set newer. free \<le> addr n \<and> addr n < free'))"

lemma extends_refl [simp]: "extends free l l free"
  by (simp add: extends_def)

lemma extends_push: "log_push free l ev = (l', free') \<Longrightarrow> extends free l l' free'"
  using chain_push [of free l ev] log_ok_push [of l free ev]
  by (auto simp: extends_def log_push_def intro!: exI [of _ "[LogNode free (log_node l) ev]"])

lemma extends_trans:
  assumes "extends f1 l1 l2 f2" and "extends f2 l2 l3 f3"
  shows "extends f1 l1 l3 f3"
proof -
  from assms obtain n1 n2 where
    n1: "chain (log_node l2) = n1 @ chain (log_node l1)" "distinct (map addr n1)"
      "\<forall>n \<in> set n1. f1 \<le> addr n \<and> addr n < f2" and
    n2: "chain (log_node l3) = n2 @ chain (log_node l2)" "distinct (map addr n2)"
      "\<forall>n \<in> set n2. f2 \<le> addr n \<and> addr n < f3" and
    le: "f1 \<le> f2" "f2 \<le> f3" "log_ok l1 \<longrightarrow> log_ok l3"
    by (auto simp: extends_def)
  have "distinct (map addr (n2 @ n1))"
    using n1(2,3) n2(2,3) by fastforce
  moreover have "\<forall>n \<in> set (n2 @ n1). f1 \<le> addr n \<and> addr n < f3"
    using n1(3) n2(3) le by fastforce
  ultimately show ?thesis
    using n1(1) n2(1) le unfolding extends_def
    by (intro conjI exI [of _ "n2 @ n1"]) simp_all
qed

lemma apply_host_step:
  "apply_host_instruction (s, free) i = (s', free') \<Longrightarrow>
     extends free (host_log s) (host_log s') free' \<and>
     log_iter (host_log s') = log_iter (host_log s) @ host_instruction_events i \<and>
     echo_ack s' = host_instruction_ack (echo_ack s) i"
  using log_iter_push [of free "host_log s"] extends_push [of free "host_log s"]
  by (cases i) (auto split: if_splits prod.splits, (metis fst_conv)+)

lemma apply_host_steps:
  "foldl apply_host_instruction (s, free) is = (s', free') \<Longrightarrow>
     extends free (host_log s) (host_log s') free' \<and>
     log_iter (host_log s') = log_iter (host_log s) @ concat (map host_instruction_events is) \<and>
     echo_ack s' = foldl host_instruction_ack (echo_ack s) is"
proof (induction "is" arbitrary: s free)
  case Nil
  then show ?case by simp
next
  case (Cons i "is")
  obtain s1 f1 where st: "apply_host_instruction (s, free) i = (s1, f1)" by fastforce
  with Cons.prems have rest: "foldl apply_host_instruction (s1, f1) is = (s', free')" by simp
  from apply_host_step [OF st] Cons.IH [OF rest] show ?case
    by (auto intro: extends_trans)
qed

lemma echo_ack_mono: "a \<le> foldl host_instruction_ack a is"
proof (induction "is" arbitrary: a)
  case Nil
  then show ?case by simp
next
  case (Cons i "is")
  have "a \<le> host_instruction_ack a i" by (cases i) simp_all
  also have "\<dots> \<le> foldl host_instruction_ack (host_instruction_ack a i) is" by (rule Cons.IH)
  finally show ?case by simp
qed

lemma log_family_extend:
  assumes fam: "log_family free L" and l: "l \<in> L" and ext: "extends free l l' free'"
  shows "log_family free' (insert l' L)"
proof -
  from ext obtain newer where ch: "chain (log_node l') = newer @ chain (log_node l)"
    and dist: "distinct (map addr newer)" and fresh: "\<forall>n \<in> set newer. free \<le> addr n \<and> addr n < free'"
    and le: "free \<le> free'" and ok: "log_ok l \<longrightarrow> log_ok l'"
    by (auto simp: extends_def)
  have old: "\<And>m n. m \<in> L \<Longrightarrow> n \<in> set (chain (log_node m)) \<Longrightarrow> addr n < free"
    using fam by (auto simp: log_family_def log_below_def)
  have ch_set: "set (chain (log_node l')) = set newer \<union> set (chain (log_node l))" using ch by simp
  have below: "log_below free' m" if "m \<in> insert l' L" for m
    using that old [OF l] old fresh le by (fastforce simp: log_below_def ch_set)
  have apart: "addr a \<noteq> addr b" if "m \<in> L" "a \<in> set newer" "b \<in> set (chain (log_node m))" for a b m
    using old [OF that(1,3)] fresh that(2) by fastforce
  have coh: "coherent l' m \<and> coherent m l'" if "m \<in> L" for m
  proof -
    have "coherent l m" "coherent m l" using fam l that by (auto simp: log_family_def)
    then show ?thesis
      using apart [OF that] unfolding coherent_def ch_set by (metis Un_iff)
  qed
  have "coherent l' l'"
    using coh [OF l] dist apart [OF l] unfolding coherent_def ch_set distinct_map inj_on_def
    by (metis Un_iff)
  with fam coh below ok l show ?thesis
    by (auto simp: log_family_def)
qed

lemma log_familyD:
  "log_family free L \<Longrightarrow> l \<in> L \<Longrightarrow> log_ok l" "log_family free L \<Longrightarrow> l \<in> L \<Longrightarrow> m \<in> L \<Longrightarrow> coherent l m"
  by (auto simp: log_family_def)

lemma log_family_new [inv_intros]: "log_family free {event_log_new}"
  by (simp add: log_family_def event_log_new_def log_ok_def log_below_def coherent_def)

lemma log_family_subset: "log_family free L \<Longrightarrow> M \<subseteq> L \<Longrightarrow> log_family free M"
  by (auto simp: log_family_def)

lemma extends_suffix:
  assumes "log_ok l" and "extends free l l' free'" and "coherent l' l"
  shows "suffix_over l' l = Some (drop (log_len l) (log_iter l'))"
  using assms by (subst suffix_over_iff) (auto simp: extends_def)

lemma log_iter_len: "log_ok l \<Longrightarrow> length (log_iter l) = log_len l"
  by (simp add: log_iter_def log_ok_def length_walk)

lemma host_apply_string_effect:
  assumes fam: "log_family free L" and l: "host_log self \<in> L"
    and ap: "host_apply_string free self d = (Inr self', free')"
  obtains m where "host_decode d = Inr m"
    and "log_family free' (insert (host_log self') L)" and "extends free (host_log self) (host_log self') free'"
    and "log_iter (host_log self') = log_iter (host_log self) @ concat (map host_instruction_events (host_instructions m))"
    and "echo_ack self' = foldl host_instruction_ack (echo_ack self) (host_instructions m)"
proof -
  from ap obtain m where m: "host_decode d = Inr m"
    and st: "foldl apply_host_instruction (self, free) (host_instructions m) = (self', free')"
    by (auto simp: host_apply_string_def split: sum.splits prod.splits)
  from apply_host_steps [OF st] log_family_extend [OF fam l] that [OF m] show thesis by blast
qed

text \<open>C38: The pointer comparison of \<open>suffix_over\<close> is exact although it never looks at an event: among
  logs that grew by pushing onto one another, it answers exactly when the node chain of the base is
  the older end of the log's own chain, that is when the log was pushed from the base, and the
  answer is what the log has beyond it. This is about nodes: a log whose events happen to begin with
  those of the base but were pushed separately gets no answer, and is replayed from the start.\<close>

theorem suffix_over_exact:
  assumes "log_family free L" and "self \<in> L" and "base \<in> L"
  shows "(suffix_over self base \<noteq> None \<longleftrightarrow>
            (\<exists>newer. chain (log_node self) = newer @ chain (log_node base))) \<and>
         (\<forall>s. suffix_over self base = Some s \<longrightarrow> log_iter self = log_iter base @ s)"
proof -
  note ok = log_familyD(1) [OF assms(1,2)] log_familyD(1) [OF assms(1,3)] log_familyD(2) [OF assms]
  show ?thesis
    using suffix_over_iff [OF ok] suffix_over_SomeD [OF ok] by auto
qed

text \<open>Two branches over one trunk, for the witnesses: the trunk holds one event.\<close>

definition trunk :: event_log where
  "trunk = fst (log_push 0 event_log_new (Bytes [1]))"

definition branch :: event_log where
  "branch = fst (log_push 1 trunk (HostResize 80 24))"

lemma branch_family: "log_family 2 {branch, trunk, event_log_new}"
proof -
  have t: "log_push 0 event_log_new (Bytes [1]) = (trunk, 1)"
    and b: "log_push 1 trunk (HostResize 80 24) = (branch, 2)"
    by (simp_all add: trunk_def branch_def log_push_def)
  have "log_family 1 {trunk, event_log_new}"
    using log_family_extend [OF log_family_new _ extends_push [OF t]] by simp
  then show ?thesis
    using log_family_extend [OF _ _ extends_push [OF b]] by simp
qed

theorem suffix_over_exact_witness:
  "suffix_over branch trunk = Some [HostResize 80 24] \<and> log_iter branch = log_iter trunk @ [HostResize 80 24]"
proof -
  have "suffix_over branch trunk = Some [HostResize 80 24]" by code_simp
  with suffix_over_exact [OF branch_family, of branch trunk] show ?thesis by simp
qed

text \<open>The same event pushed onto the empty log a second time: equal events, but no ancestor.\<close>

lemma equal_events_no_ancestor:
  "log_iter (fst (log_push 1 event_log_new (Bytes [1]))) = log_iter trunk
   \<and> suffix_over (fst (log_push 1 event_log_new (Bytes [1]))) trunk = None"
  unfolding trunk_def by code_simp

text \<open>Applying a host message appends exactly the events of its instructions, in order, to the
  branch it is applied to, leaves every other log alone, is visible to the display as a pure
  suffix over the old position, and never lowers the echo ack.\<close>

theorem host_apply_string_appends:
  assumes "log_family free L" and "host_log self \<in> L"
    and "host_apply_string free self d = (Inr self', free')" and "host_decode d = Inr m"
  shows "log_iter (host_log self') = log_iter (host_log self) @ concat (map host_instruction_events (host_instructions m)) \<and>
         suffix_over (host_log self') (host_log self) = Some (concat (map host_instruction_events (host_instructions m))) \<and>
         log_family free' (insert (host_log self') L) \<and> echo_ack self \<le> echo_ack self'"
proof -
  obtain fam: "log_family free' (insert (host_log self') L)"
    and ext: "extends free (host_log self) (host_log self') free'"
    and it: "log_iter (host_log self') = log_iter (host_log self) @ concat (map host_instruction_events (host_instructions m))"
    and ea: "echo_ack self' = foldl host_instruction_ack (echo_ack self) (host_instructions m)"
    by (rule host_apply_string_effect [OF assms(1-3)]) (use assms(4) in auto)
  have ok: "log_ok (host_log self)" using assms(1,2) by (rule log_familyD)
  have "coherent (host_log self') (host_log self)"
    using log_familyD(2) [OF fam, of "host_log self'" "host_log self"] assms(2) by simp
  from extends_suffix [OF ok ext this] it log_iter_len [OF ok]
  have "suffix_over (host_log self') (host_log self) = Some (concat (map host_instruction_events (host_instructions m)))"
    by simp
  with fam it ea echo_ack_mono show ?thesis by simp
qed

definition sample_host_message :: host_message where
  "sample_host_message = \<lparr>host_instructions = [HostBytes [72, 105], EchoAck 4]\<rparr>"

theorem host_apply_string_appends_witness:
  "log_iter (host_log (\<lparr>host_log = fst (log_push 0 event_log_new (Bytes [72, 105])), echo_ack = 4\<rparr>)) = [Bytes [72, 105]]"
proof -
  have "host_encode sample_host_message = [10, 6, 18, 4, 34, 2, 72, 105, 10, 4, 58, 2, 64, 4]" by code_simp
  then have dec: "host_decode (host_encode sample_host_message) = Inr sample_host_message"
    by (intro host_codec.decode_encode) simp
  have ap: "host_apply_string 0 host_stream_new (host_encode sample_host_message)
      = (Inr \<lparr>host_log = fst (log_push 0 event_log_new (Bytes [72, 105])), echo_ack = 4\<rparr>, 1)"
    by (simp add: host_apply_string_def dec)
      (simp add: sample_host_message_def log_push_def host_stream_new_def)
  show ?thesis
    using host_apply_string_appends [OF log_family_new _ ap dec]
    by (simp add: host_stream_new_def sample_host_message_def event_log_new_def log_iter_def)
qed

end
