(* ===== verification/Prediction.thy ===== *)
theory Prediction
  imports Prelude
begin

text \<open>
  \<^verbatim>\<open>src/session.rs\<close> lines 112-191, 588-600 and 1108-1147: the local-echo overlay.

  A cell carries a screen position and the character guessed there; \<open>frames\<close> holds, in the same
  order, the user-stream state each cell was typed under. Coordinates are \<open>i32\<close> patterns, compared
  as signed numbers and added with wrap-around. The lemmas show that the frame list stays sorted and
  aligned with the cells (which is what \<open>partition_point\<close> requires), that an echo acknowledgement
  retires exactly the confirmed cells, and that guesses stay on the largest screen there has been.
\<close>

record predicted_cell =
  cell_row :: i32
  cell_col :: i32
  cell_ch :: u32

record prediction_state =
  pred_enabled :: bool
  pred_cells :: "predicted_cell list"
  pred_frames :: "u64 list"
  pred_cursor :: "(i32 \<times> i32) option"

definition PASTE_THRESHOLD :: nat where "PASTE_THRESHOLD = 100"

definition prediction_new :: "bool \<Rightarrow> prediction_state" where
  "prediction_new prediction_on =
     \<lparr>pred_enabled = prediction_on, pred_cells = [], pred_frames = [], pred_cursor = None\<rparr>"

definition signed_min :: "i32 \<Rightarrow> i32 \<Rightarrow> i32" where
  "signed_min a b = (if sint b < sint a then b else a)"

definition shadow :: "prediction_state \<Rightarrow> i32 \<times> i32" where
  "shadow self = (case pred_cursor self of Some c \<Rightarrow> c | None \<Rightarrow> (0, 0))"

definition feed_return :: "prediction_state \<Rightarrow> i32 \<Rightarrow> prediction_state" where
  "feed_return self rows =
     (let (_, row) = shadow self in self\<lparr>pred_cursor := Some (0, signed_min (row + 1) (rows - 1))\<rparr>)"

definition feed_backspace :: "prediction_state \<Rightarrow> prediction_state" where
  "feed_backspace self =
     (if pred_cells self = [] then self
      else let l = last (pred_cells self)
           in self\<lparr>pred_cursor := Some (cell_col l, cell_row l),
                   pred_cells := butlast (pred_cells self), pred_frames := butlast (pred_frames self)\<rparr>)"

definition feed_printable :: "prediction_state \<Rightarrow> i32 \<Rightarrow> u64 \<Rightarrow> u8 \<Rightarrow> prediction_state" where
  "feed_printable self cols frame b =
     (let (col, row) = shadow self in
      if sint col < sint (cols - 1) then
        self\<lparr>pred_cells := pred_cells self @ [\<lparr>cell_row = row, cell_col = col, cell_ch = ucast b\<rparr>],
             pred_frames := pred_frames self @ [frame], pred_cursor := Some (col + 1, row)\<rparr>
      else self)"

fun prediction_feed :: "prediction_state \<Rightarrow> i32 \<Rightarrow> i32 \<Rightarrow> u64 \<Rightarrow> bytes \<Rightarrow> prediction_state" where
  "prediction_feed self cols rows frame [] = self"
| "prediction_feed self cols rows frame (b # bs) =
     (if b = 0x0D then prediction_feed (feed_return self rows) cols rows frame bs
      else if b = 0x7F then prediction_feed (feed_backspace self) cols rows frame bs
      else if 0x20 \<le> b \<and> b < 0x7F then prediction_feed (feed_printable self cols frame b) cols rows frame bs
      else self)"

text \<open>\<open>partition_point\<close> on a list whose matching elements come first.\<close>

definition confirmed_prefix_len :: "prediction_state \<Rightarrow> u64 \<Rightarrow> nat" where
  "confirmed_prefix_len self ack = length (takeWhile (\<lambda>f. f \<le> ack) (pred_frames self))"

definition prediction_clear :: "prediction_state \<Rightarrow> prediction_state" where
  "prediction_clear self = self\<lparr>pred_cells := [], pred_frames := [], pred_cursor := None\<rparr>"

text \<open>
  \<open>predict_input\<close>, with the geometry and the cursor the display reports and the frame
  \<open>sent_state_last() + 1\<close> as arguments.
\<close>

definition predict_input ::
  "prediction_state \<Rightarrow> i32 \<Rightarrow> i32 \<Rightarrow> i32 \<times> i32 \<Rightarrow> u64 \<Rightarrow> bytes \<Rightarrow> prediction_state" where
  "predict_input self cols rows cursor frame bs =
     (if length bs > PASTE_THRESHOLD then self
      else if \<not> pred_enabled self then self
      else
        let self1 = (if pred_cursor self = None then self\<lparr>pred_cursor := Some cursor\<rparr> else self)
        in prediction_feed self1 cols rows frame bs)"

definition retire_predictions :: "prediction_state \<Rightarrow> u64 \<Rightarrow> bool \<times> prediction_state" where
  "retire_predictions self ack =
     (let tk = confirmed_prefix_len self ack
      in (tk > 0, self\<lparr>pred_cells := drop tk (pred_cells self), pred_frames := drop tk (pred_frames self)\<rparr>))"

definition set_prediction :: "prediction_state \<Rightarrow> bool \<Rightarrow> prediction_state" where
  "set_prediction self enabled =
     (let self1 = self\<lparr>pred_enabled := enabled\<rparr> in if \<not> enabled then prediction_clear self1 else self1)"

section \<open>Cells and frames stay aligned\<close>

definition prediction_inv :: "u64 \<Rightarrow> prediction_state \<Rightarrow> bool" where
  "prediction_inv bound p \<longleftrightarrow> length (pred_cells p) = length (pred_frames p) \<and>
     sorted (pred_frames p) \<and> (\<forall>f \<in> set (pred_frames p). f \<le> bound)"

lemma prediction_inv_new [inv_intros]: "prediction_inv bound (prediction_new on)"
  by (simp add: prediction_inv_def prediction_new_def)

lemma prediction_inv_mono: "prediction_inv b p \<Longrightarrow> b \<le> b' \<Longrightarrow> prediction_inv b' p"
  by (auto simp: prediction_inv_def)

lemma sorted_butlast: "sorted xs \<Longrightarrow> sorted (butlast xs)"
  by (simp add: butlast_conv_take)

lemma feed_return_inv [inv_intros]: "prediction_inv b p \<Longrightarrow> prediction_inv b (feed_return p rows)"
  by (simp add: prediction_inv_def feed_return_def split: prod.split)

lemma feed_backspace_inv [inv_intros]: "prediction_inv b p \<Longrightarrow> prediction_inv b (feed_backspace p)"
  by (auto simp: prediction_inv_def feed_backspace_def Let_def sorted_butlast dest: in_set_butlastD)

lemma feed_printable_inv [inv_intros]: "prediction_inv b p \<Longrightarrow> prediction_inv b (feed_printable p cols b c)"
  by (auto simp: prediction_inv_def feed_printable_def sorted_append split: prod.split)

lemma prediction_feed_inv [inv_intros]:
  "prediction_inv frame p \<Longrightarrow> prediction_inv frame (prediction_feed p cols rows frame bs)"
  by (induction p cols rows frame bs rule: prediction_feed.induct) (simp_all add: inv_intros)

lemma predict_input_inv:
  assumes "prediction_inv b p" and "b \<le> frame"
  shows "prediction_inv frame (predict_input p cols rows c frame bs)"
proof -
  have "prediction_inv frame p" using assms by (rule prediction_inv_mono)
  then have "prediction_inv frame (if pred_cursor p = None then p\<lparr>pred_cursor := Some c\<rparr> else p)"
    by (simp add: prediction_inv_def)
  with \<open>prediction_inv frame p\<close> show ?thesis by (simp add: predict_input_def Let_def inv_intros)
qed

lemma drop_confirmed:
  assumes "length cs = length fs" and "sorted (fs :: 'a::linorder list)"
  shows "zip (drop (length (takeWhile (\<lambda>f. f \<le> a) fs)) cs) (drop (length (takeWhile (\<lambda>f. f \<le> a) fs)) fs)
       = filter (\<lambda>(c, f). \<not> f \<le> a) (zip cs fs)"
  using assms
proof (induction cs fs rule: list_induct2)
  case (Cons c cs f fs)
  then show ?case by (fastforce simp: filter_empty_conv dest: set_zip_rightD intro: sym [OF filter_True])
qed simp

lemma retire_inv [inv_intros]: "prediction_inv b p \<Longrightarrow> prediction_inv b (snd (retire_predictions p ack))"
  by (auto simp: prediction_inv_def retire_predictions_def Let_def sorted_wrt_drop dest: in_set_dropD)

lemma set_prediction_inv [inv_intros]: "prediction_inv b p \<Longrightarrow> prediction_inv b (set_prediction p on)"
  by (simp add: prediction_inv_def set_prediction_def prediction_clear_def Let_def)

lemma retire_exact:
  assumes "prediction_inv bound p"
  shows "zip (pred_cells (snd (retire_predictions p ack))) (pred_frames (snd (retire_predictions p ack)))
           = filter (\<lambda>(c, f). \<not> f \<le> ack) (zip (pred_cells p) (pred_frames p))"
    and "fst (retire_predictions p ack) \<longleftrightarrow> (\<exists>f \<in> set (pred_frames p). f \<le> ack)"
proof -
  from assms have inv: "length (pred_cells p) = length (pred_frames p)" "sorted (pred_frames p)"
    by (simp_all add: prediction_inv_def)
  show "zip (pred_cells (snd (retire_predictions p ack))) (pred_frames (snd (retire_predictions p ack)))
      = filter (\<lambda>(c, f). \<not> f \<le> ack) (zip (pred_cells p) (pred_frames p))"
    using drop_confirmed [OF inv, of ack] by (simp add: retire_predictions_def confirmed_prefix_len_def Let_def)
  show "fst (retire_predictions p ack) \<longleftrightarrow> (\<exists>f \<in> set (pred_frames p). f \<le> ack)"
    using inv(2) by (cases "pred_frames p") (auto simp: retire_predictions_def confirmed_prefix_len_def Let_def)
qed

text \<open>C33: An echo acknowledgement retires exactly the guesses typed under the frames it confirms: the
  cells that remain are those of later frames, in order, and the caller is told to repaint exactly
  when something was retired.\<close>

theorem echo_ack_retires_exactly:
  assumes "prediction_inv bound p"
  shows "zip (pred_cells (snd (retire_predictions p ack))) (pred_frames (snd (retire_predictions p ack)))
           = filter (\<lambda>(c, f). \<not> f \<le> ack) (zip (pred_cells p) (pred_frames p)) \<and>
         (fst (retire_predictions p ack) \<longleftrightarrow> (\<exists>f \<in> set (pred_frames p). f \<le> ack))"
  by (intro conjI retire_exact [OF assms])

definition two_guesses :: prediction_state where
  "two_guesses = prediction_feed (prediction_feed ((prediction_new True)\<lparr>pred_cursor := Some (0, 0)\<rparr>) 20 4 5 [97, 98, 99]) 20 4 6 [127, 100]"

theorem echo_ack_retires_exactly_witness:
  "zip (pred_cells (snd (retire_predictions two_guesses 5))) (pred_frames (snd (retire_predictions two_guesses 5)))
     = filter (\<lambda>(c, f). \<not> f \<le> 5) (zip (pred_cells two_guesses) (pred_frames two_guesses))"
proof (rule conjunct1 [OF echo_ack_retires_exactly])
  have "prediction_inv 5 ((prediction_new True)\<lparr>pred_cursor := Some (0, 0)\<rparr>)"
    by (simp add: prediction_inv_def prediction_new_def)
  then have "prediction_inv 5 (prediction_feed ((prediction_new True)\<lparr>pred_cursor := Some (0, 0)\<rparr>) 20 4 5 [97, 98, 99])"
    by (rule prediction_feed_inv)
  then show "prediction_inv 6 two_guesses"
    unfolding two_guesses_def by (intro prediction_feed_inv) (rule prediction_inv_mono, assumption, simp)
qed

section \<open>Guesses stay on the screen\<close>

definition inside :: "i32 \<Rightarrow> i32 \<Rightarrow> i32 \<Rightarrow> i32 \<Rightarrow> bool" where
  "inside cols rows col row \<longleftrightarrow> 0 \<le> sint col \<and> sint col < sint cols \<and> 0 \<le> sint row \<and> sint row < sint rows"

definition on_screen :: "i32 \<Rightarrow> i32 \<Rightarrow> prediction_state \<Rightarrow> bool" where
  "on_screen cols rows p \<longleftrightarrow>
     (\<forall>c \<in> set (pred_cells p). inside cols rows (cell_col c) (cell_row c)) \<and>
     (case pred_cursor p of None \<Rightarrow> True | Some (col, row) \<Rightarrow> inside cols rows col row)"

text \<open>Adding or subtracting one does not wrap away from the ends of the range.\<close>

lemma sint_step:
  "sint a < sint b \<Longrightarrow> sint (a + 1 :: i32) = sint a + 1"
  "0 \<le> sint b \<Longrightarrow> sint (b - 1 :: i32) = sint b - 1"
proof -
  have r: "- (2 ^ 31) \<le> sint x \<and> sint x < 2 ^ 31" for x :: i32
    using sint_greater_eq [of x] sint_less [of x] by simp
  have fit: "signed_take_bit 31 k = k" if "- (2 ^ 31) \<le> k" "k < 2 ^ 31" for k :: int
    using that by (simp add: signed_take_bit_int_eq_self)
  show "sint (a + 1 :: i32) = sint a + 1" if "sint a < sint b"
    using that r [of a] r [of b] by (simp add: sint_word_ariths fit)
  show "sint (b - 1 :: i32) = sint b - 1" if "0 \<le> sint b"
    using that r [of b] by (simp add: sint_word_ariths fit)
qed

lemma inside_size: "inside cols rows col row \<Longrightarrow> inside cols rows 0 0"
  by (auto simp: inside_def)

lemma shadow_inside:
  "on_screen cols rows p \<Longrightarrow> inside cols rows 0 0 \<Longrightarrow> shadow p = (col, row) \<Longrightarrow> inside cols rows col row"
  by (auto simp: shadow_def on_screen_def split: option.splits)

text \<open>A geometry that is no larger in either direction.\<close>

definition no_larger :: "i32 \<Rightarrow> i32 \<Rightarrow> i32 \<Rightarrow> i32 \<Rightarrow> bool" where
  "no_larger cols rows C R \<longleftrightarrow> sint cols \<le> sint C \<and> sint rows \<le> sint R"

lemma inside_larger: "inside cols rows col row \<Longrightarrow> no_larger cols rows C R \<Longrightarrow> inside C R col row"
  by (simp add: inside_def no_larger_def)

lemma inside_return:
  assumes "inside C R col row" and "inside cols rows 0 0" and "no_larger cols rows C R"
  shows "inside C R 0 (signed_min (row + 1) (rows - 1))"
  using assms sint_step(1) [of row R] sint_step(2) [of rows]
  by (auto simp: inside_def no_larger_def signed_min_def)

lemma inside_advance:
  assumes "inside C R col row" and "sint col < sint (cols - 1)" and "inside cols rows 0 0" and "no_larger cols rows C R"
  shows "inside C R (col + 1) row"
  using assms sint_step(1) [of col C] sint_step(2) [of cols] by (auto simp: inside_def no_larger_def)

lemma feed_on_screen:
  assumes "inside cols rows 0 0" and "no_larger cols rows C R"
  shows "on_screen C R p \<Longrightarrow> on_screen C R (prediction_feed p cols rows frame bs)"
  using assms
proof (induction p cols rows frame bs rule: prediction_feed.induct)
  case (1 self cols rows frame)
  then show ?case by simp
next
  case (2 self cols rows frame b bs)
  note shadow = shadow_inside [OF "2.prems"(1) inside_larger [OF "2.prems"(2,3)]]
  have "on_screen C R (feed_return self rows)"
    using "2.prems" shadow
    by (auto simp: feed_return_def on_screen_def inside_return split: prod.split)
  moreover have "on_screen C R (feed_backspace self)"
    using "2.prems" by (auto simp: feed_backspace_def on_screen_def Let_def dest: in_set_butlastD)
  moreover have "on_screen C R (feed_printable self cols frame b)"
    using "2.prems" shadow
    by (auto simp: feed_printable_def on_screen_def inside_advance split: prod.split)
  ultimately show ?case using "2.IH" "2.prems" by simp
qed

text \<open>What happens to the overlay of a session: typed bytes, with the geometry and the cursor that the
  display reports then, echo acknowledgements, and the embedder switching prediction on or off.\<close>

datatype overlay_op = Typed i32 i32 "i32 \<times> i32" u64 bytes | Confirmed u64 | Switched bool

fun overlay_step :: "prediction_state \<Rightarrow> overlay_op \<Rightarrow> prediction_state" where
  "overlay_step p (Typed cols rows cursor frame bs) = predict_input p cols rows cursor frame bs"
| "overlay_step p (Confirmed ack) = snd (retire_predictions p ack)"
| "overlay_step p (Switched on) = set_prediction p on"

fun seen_within :: "i32 \<Rightarrow> i32 \<Rightarrow> overlay_op \<Rightarrow> bool" where
  "seen_within C R (Typed cols rows cursor frame bs) \<longleftrightarrow>
     inside cols rows (fst cursor) (snd cursor) \<and> no_larger cols rows C R"
| "seen_within C R _ \<longleftrightarrow> True"

lemma overlay_step_on_screen: "on_screen C R p \<Longrightarrow> seen_within C R op \<Longrightarrow> on_screen C R (overlay_step p op)"
proof (cases op)
  case (Typed cols rows cursor frame bs)
  assume p: "on_screen C R p" and r: "seen_within C R op"
  obtain col row where c: "cursor = (col, row)" by fastforce
  have ins: "inside cols rows col row" and le: "no_larger cols rows C R" using r Typed c by simp_all
  have "on_screen C R (if pred_cursor p = None then p\<lparr>pred_cursor := Some (col, row)\<rparr> else p)"
    using p inside_larger [OF ins le] by (simp add: on_screen_def)
  from feed_on_screen [OF inside_size [OF ins] le this] p Typed c show ?thesis
    by (simp add: predict_input_def Let_def)
qed (auto simp: on_screen_def retire_predictions_def set_prediction_def prediction_clear_def Let_def
    dest: in_set_dropD)

text \<open>C34: Guesses stay on the largest screen: through any sequence of typing, echo acknowledgements and
  switching prediction on and off, from the overlay a session starts with, no guess and no place for
  the next guess lies outside a geometry that none of the geometries seen while typing exceeds, provided
  the display reports a cursor inside the geometry it reports. On a screen that has never shrunk
  that is the present screen; after a shrinking resize guesses may lie outside, because the shadow
  cursor is kept.\<close>

theorem predictions_on_screen:
  assumes "list_all (seen_within C R) ops"
  shows "on_screen C R (foldl overlay_step (prediction_new on) ops)"
proof -
  have "on_screen C R p \<Longrightarrow> on_screen C R (foldl overlay_step p ops)" for p
    using assms by (induction ops arbitrary: p) (simp_all add: overlay_step_on_screen)
  moreover have "on_screen C R (prediction_new on)" by (simp add: on_screen_def prediction_new_def)
  ultimately show ?thesis .
qed

theorem predictions_on_screen_witness:
  "on_screen 80 24 (foldl overlay_step (prediction_new True)
     [Typed 80 24 (3, 7) 1 [108, 115, 13], Confirmed 1, Typed 20 5 (0, 4) 2 [120, 127], Switched False])"
  by (rule predictions_on_screen) (simp add: inside_def no_larger_def)

text \<open>
  The shadow cursor outlives the guesses: retiring cells does not forget it, so a run of guesses that
  starts after everything was confirmed is placed at the shadow cursor of the previous run and not
  where the display cursor is. Here two characters are typed at row 0 and confirmed, the display
  cursor has moved to row 9, and the next guess is placed on row 0.
\<close>

lemma shadow_cursor_survives_retirement:
  "pred_cursor (snd (retire_predictions p ack)) = pred_cursor p"
  by (simp add: retire_predictions_def Let_def)

lemma next_run_ignores_display_cursor:
  "let p = snd (retire_predictions (predict_input (prediction_new True) 80 24 (0, 0) 1 [108, 115]) 1)
   in pred_cells p = [] \<and>
      pred_cells (predict_input p 80 24 (2, 9) 2 [120]) = [\<lparr>cell_row = 0, cell_col = 2, cell_ch = 120\<rparr>]"
  by code_simp

end
