(* ===== verification/Timing.thy ===== *)
theory Timing
  imports Prelude Complex_Main
begin

text \<open>
  The timing rules of \<^verbatim>\<open>src/session.rs\<close> (lines 767-782 and the round-trip estimator inside
  \<open>handle_datagram\<close>, 975-992) and \<open>send_interval_ms\<close> of \<^verbatim>\<open>src/ssp.rs\<close>.

  A finite \<open>f64\<close> is a rational number; every arithmetic operation rounds its exact result to the
  nearest double, ties to even (\<open>f64_round\<close>). Overflow to infinity is outside the model; the bounds
  proved here keep every value below 25000. \<open>ceil\<close>, \<open>round\<close>, \<open>clamp\<close> and the conversions are exact.
\<close>

section \<open>Double precision\<close>

type_synonym f64 = rat

function bit_len :: "int \<Rightarrow> nat" where
  "bit_len n = (if n \<le> 0 then 0 else Suc (bit_len (n div 2)))"
  by pat_completeness auto
termination by (relation "measure nat") auto

declare bit_len.simps [simp del]

definition round_half_even :: "rat \<Rightarrow> int" where
  "round_half_even y =
     (let f = \<lfloor>y\<rfloor>; r = y - of_int f
      in if r < 1 / 2 then f else if r > 1 / 2 then f + 1 else if even f then f else f + 1)"

text \<open>The doubles around \<open>x\<close> are the multiples of \<open>2 ^ k / 2 ^ 1074\<close>: 53 significant bits, and none
  smaller than the least subnormal.\<close>

definition ulp_exponent :: "rat \<Rightarrow> nat" where
  "ulp_exponent x = bit_len \<lfloor>\<bar>x\<bar> * 2 ^ 1074\<rfloor> - 53"

definition f64_round :: "rat \<Rightarrow> f64" where
  "f64_round x =
     (let u = 2 ^ ulp_exponent x / 2 ^ 1074 in of_int (round_half_even (x / u)) * u)"

definition f64_add :: "f64 \<Rightarrow> f64 \<Rightarrow> f64" where "f64_add a b = f64_round (a + b)"
definition f64_sub :: "f64 \<Rightarrow> f64 \<Rightarrow> f64" where "f64_sub a b = f64_round (a - b)"
definition f64_mul :: "f64 \<Rightarrow> f64 \<Rightarrow> f64" where "f64_mul a b = f64_round (a * b)"
definition f64_div :: "f64 \<Rightarrow> f64 \<Rightarrow> f64" where "f64_div a b = f64_round (a / b)"

definition f64_clamp :: "f64 \<Rightarrow> f64 \<Rightarrow> f64 \<Rightarrow> f64" where
  "f64_clamp x lo hi = (if x < lo then lo else if x > hi then hi else x)"

text \<open>\<open>as u64\<close> truncates and saturates; \<open>round\<close> takes halves away from zero.\<close>

definition f64_as_u64 :: "f64 \<Rightarrow> u64" where
  "f64_as_u64 x = (if x < 0 then 0 else if x \<ge> 2 ^ 64 then u64_max else of_int \<lfloor>x\<rfloor>)"

definition f64_round_int :: "f64 \<Rightarrow> f64" where
  "f64_round_int x = (if x < 0 then - of_int \<lfloor>1 / 2 - x\<rfloor> else of_int \<lfloor>x + 1 / 2\<rfloor>)"

definition u64_as_f64 :: "u64 \<Rightarrow> f64" where
  "u64_as_f64 n = f64_round (of_nat (unat n))"

section \<open>The rules\<close>

definition RTT_MAX_SAMPLE :: u64 where "RTT_MAX_SAMPLE = 5000"

definition timestamp16 :: "u64 \<Rightarrow> u16" where
  "timestamp16 now = (let ts = ucast (now mod 65536) :: u16 in if ts = u16_max then 0 else ts)"

definition send_interval_ms :: "f64 \<Rightarrow> u64" where
  "send_interval_ms srtt_ms = f64_as_u64 (f64_clamp (of_int \<lceil>f64_div srtt_ms 2\<rceil>) 20 250)"

definition rto_ms :: "f64 \<Rightarrow> f64 \<Rightarrow> u64" where
  "rto_ms srtt rttvar = f64_as_u64 (f64_clamp (of_int \<lceil>f64_add srtt (f64_mul 4 rttvar)\<rceil>) 50 1000)"

text \<open>The estimator: smoothed round trip, its deviation, and whether a sample was ever taken.\<close>

record rtt_estimator =
  srtt :: f64
  rttvar :: f64
  rtt_hit :: bool

definition rtt_new :: rtt_estimator where
  "rtt_new = \<lparr>srtt = 1000, rttvar = 500, rtt_hit = False\<rparr>"

definition rtt_update :: "rtt_estimator \<Rightarrow> f64 \<Rightarrow> rtt_estimator" where
  "rtt_update e r =
     (if \<not> rtt_hit e then e\<lparr>srtt := r, rttvar := f64_div r 2, rtt_hit := True\<rparr>
      else e\<lparr>rttvar := f64_add (f64_mul (3 / 4) (rttvar e)) (f64_mul (1 / 4) \<bar>f64_sub (srtt e) r\<bar>),
             srtt := f64_add (f64_mul (7 / 8) (srtt e)) (f64_mul (1 / 8) r)\<rparr>)"

text \<open>The sample of a timestamp reply, in the 16-bit clock; \<open>None\<close> where it is ignored as too old.\<close>

definition rtt_sample :: "u64 \<Rightarrow> u16 \<Rightarrow> f64 option" where
  "rtt_sample now reply =
     (let sample = ucast (timestamp16 now - reply) :: u64
      in if sample < RTT_MAX_SAMPLE then Some (u64_as_f64 sample) else None)"

section \<open>Rounding respects integer bounds\<close>

lemma round_half_even_bounds:
  "y \<le> of_int m \<Longrightarrow> round_half_even y \<le> m" "of_int m \<le> y \<Longrightarrow> m \<le> round_half_even y"
proof -
  have fl: "of_int \<lfloor>y\<rfloor> \<le> y" "y < of_int \<lfloor>y\<rfloor> + 1" by linarith+
  show "round_half_even y \<le> m" if "y \<le> of_int m"
  proof (cases "y = of_int \<lfloor>y\<rfloor>")
    case True
    then have "y - of_int \<lfloor>y\<rfloor> < 1 / 2" by simp
    then have "round_half_even y = \<lfloor>y\<rfloor>" by (simp add: round_half_even_def Let_def)
    with that show ?thesis by (simp add: floor_le_iff)
  next
    case False
    with fl(1) that have "of_int \<lfloor>y\<rfloor> < (of_int m :: rat)" by linarith
    then show ?thesis by (auto simp: round_half_even_def Let_def)
  qed
  show "m \<le> round_half_even y" if "of_int m \<le> y"
    using that by (auto simp: round_half_even_def Let_def le_floor_iff) (simp_all add: le_floor_iff add_increasing2 less_imp_le)
qed

lemma bit_len_bound: "n < 2 ^ k \<Longrightarrow> bit_len n \<le> k"
proof (induction k arbitrary: n)
  case 0
  then show ?case by (simp add: bit_len.simps)
next
  case (Suc k)
  then have "bit_len (n div 2) \<le> k" by simp
  then show ?case by (subst bit_len.simps) simp
qed

lemma ulp_small:
  assumes "\<bar>x\<bar> < 2 ^ 53"
  shows "ulp_exponent x \<le> 1074"
proof -
  have "\<bar>x\<bar> * 2 ^ 1074 < 2 ^ 53 * 2 ^ 1074"
    by (rule mult_strict_right_mono [OF assms]) simp
  then have "\<bar>x\<bar> * 2 ^ 1074 < of_int (2 ^ 1127)" by (simp flip: power_add)
  then have "\<lfloor>\<bar>x\<bar> * 2 ^ 1074\<rfloor> < 2 ^ 1127" by (simp only: floor_less_iff)
  then have "bit_len \<lfloor>\<bar>x\<bar> * 2 ^ 1074\<rfloor> \<le> 1127" by (rule bit_len_bound)
  then show ?thesis by (simp add: ulp_exponent_def)
qed

lemma f64_round_bounds:
  assumes "\<bar>x\<bar> < 2 ^ 53"
  shows "x \<le> of_int m \<Longrightarrow> f64_round x \<le> of_int m" and "of_int m \<le> x \<Longrightarrow> of_int m \<le> f64_round x"
proof -
  define k where "k = 1074 - ulp_exponent x"
  have u: "2 ^ ulp_exponent x / 2 ^ 1074 = (1 / 2 ^ k :: rat)"
    using ulp_small [OF assms] by (simp add: k_def power_diff)
  have fr: "f64_round x = of_int (round_half_even (x * 2 ^ k)) / 2 ^ k"
    unfolding f64_round_def Let_def u by simp
  have p: "(0 :: rat) < 2 ^ k" by simp
  show "f64_round x \<le> of_int m" if "x \<le> of_int m"
  proof -
    from that have "x * 2 ^ k \<le> of_int (m * 2 ^ k)" by simp
    then have "round_half_even (x * 2 ^ k) \<le> m * 2 ^ k" by (rule round_half_even_bounds)
    then have "(of_int (round_half_even (x * 2 ^ k)) :: rat) \<le> of_int (m * 2 ^ k)" by (simp only: of_int_le_iff)
    then show ?thesis using p by (simp add: fr pos_divide_le_eq)
  qed
  show "of_int m \<le> f64_round x" if "of_int m \<le> x"
  proof -
    from that have "of_int (m * 2 ^ k) \<le> x * 2 ^ k" by simp
    then have "m * 2 ^ k \<le> round_half_even (x * 2 ^ k)" by (rule round_half_even_bounds)
    then have "(of_int (m * 2 ^ k) :: rat) \<le> of_int (round_half_even (x * 2 ^ k))" by (simp only: of_int_le_iff)
    then show ?thesis using p by (simp add: fr pos_le_divide_eq)
  qed
qed

lemma f64_round_int_exact: "\<bar>m\<bar> < 2 ^ 53 \<Longrightarrow> f64_round (of_int m) = of_int m"
proof -
  assume "\<bar>m\<bar> < 2 ^ 53"
  then have "of_int \<bar>m\<bar> < (of_int (2 ^ 53) :: rat)" by (simp only: of_int_less_iff)
  then have "\<bar>of_int m :: rat\<bar> < 2 ^ 53" by simp
  then show ?thesis by (intro antisym f64_round_bounds) simp_all
qed

lemma f64_round_range:
  assumes "of_int lo \<le> x" and "x \<le> of_int hi" and "- (2 ^ 53) < lo" and "hi < 2 ^ 53"
  shows "of_int lo \<le> f64_round x \<and> f64_round x \<le> of_int hi"
proof -
  have "(of_int (- (2 ^ 53)) :: rat) < of_int lo" "(of_int hi :: rat) < of_int (2 ^ 53)"
    using assms(3,4) by (simp_all only: of_int_less_iff)
  then have "\<bar>x\<bar> < 2 ^ 53" using assms(1,2) by (simp only: of_int_minus of_int_power of_int_numeral)
  with assms(1,2) show ?thesis by (intro conjI f64_round_bounds)
qed

section \<open>Bounds\<close>

definition rtt_ok :: "rtt_estimator \<Rightarrow> bool" where
  "rtt_ok e \<longleftrightarrow> 0 \<le> srtt e \<and> srtt e \<le> 5000 \<and> 0 \<le> rttvar e \<and> rttvar e \<le> 5000"

lemma rtt_ok_new [inv_intros]: "rtt_ok rtt_new"
  by (simp add: rtt_ok_def rtt_new_def)

lemma weighted_bound:
  assumes "0 \<le> a" "a \<le> 5000" "0 \<le> b" "b \<le> 5000" and "of_int m = wa * (5000 :: rat)" "of_int n = wb * (5000 :: rat)"
    and "0 \<le> wa" "0 \<le> wb" "wa + wb = 1"
  shows "0 \<le> f64_add (f64_mul wa a) (f64_mul wb b) \<and> f64_add (f64_mul wa a) (f64_mul wb b) \<le> 5000"
proof -
  have "wa * 5000 \<le> 1 * (5000 :: rat)" "wb * 5000 \<le> 1 * (5000 :: rat)" using assms(7-9) by auto
  then have "of_int m \<le> (of_int 5000 :: rat)" "of_int n \<le> (of_int 5000 :: rat)" using assms(5,6) by simp_all
  then have mn: "m \<le> 5000" "n \<le> 5000" by (simp_all only: of_int_le_iff)
  have "wa * a \<le> of_int m" using assms by (simp add: mult_left_mono)
  moreover have "wb * b \<le> of_int n" using assms by (simp add: mult_left_mono)
  ultimately have "0 \<le> f64_mul wa a \<and> f64_mul wa a \<le> of_int m" "0 \<le> f64_mul wb b \<and> f64_mul wb b \<le> of_int n"
    using assms f64_round_range [of 0 "wa * a" m] f64_round_range [of 0 "wb * b" n] mn
    by (simp_all add: f64_mul_def)
  moreover have "of_int m + of_int n = (5000 :: rat)" using assms(5,6,9) by (simp flip: distrib_right)
  ultimately show ?thesis
    using f64_round_range [of 0 "f64_mul wa a + f64_mul wb b" 5000] by (simp add: f64_add_def)
qed

lemma rtt_update_ok [inv_intros]:
  assumes "rtt_ok e" and "0 \<le> r" and "r \<le> 5000"
  shows "rtt_ok (rtt_update e r)"
proof -
  have "0 \<le> f64_div r 2 \<and> f64_div r 2 \<le> 5000"
    using assms f64_round_range [of 0 "r / 2" 5000] by (simp add: f64_div_def)
  moreover have "\<bar>f64_sub (srtt e) r\<bar> \<le> 5000"
    using assms f64_round_range [of "- 5000" "srtt e - r" 5000] by (auto simp: f64_sub_def rtt_ok_def)
  ultimately show ?thesis
    using assms weighted_bound [of "rttvar e" "\<bar>f64_sub (srtt e) r\<bar>" 3750 "3 / 4" 1250 "1 / 4"]
      weighted_bound [of "srtt e" r 4375 "7 / 8" 625 "1 / 8"]
    by (auto simp: rtt_ok_def rtt_update_def)
qed

lemma rtt_sample_range: "rtt_sample now reply = Some r \<Longrightarrow> 0 \<le> r \<and> r \<le> 5000"
proof -
  assume "rtt_sample now reply = Some r"
  then obtain n :: u64 where n: "n < 5000" "r = u64_as_f64 n"
    by (auto simp: rtt_sample_def Let_def RTT_MAX_SAMPLE_def split: if_splits)
  then have "unat n \<le> 5000" by (simp add: word_less_nat_alt)
  then have "(of_nat (unat n) :: rat) \<le> of_nat 5000" by (simp only: of_nat_le_iff)
  moreover have "(0 :: rat) \<le> of_nat (unat n)" by (rule of_nat_0_le_iff)
  ultimately show ?thesis
    using f64_round_range [of 0 "of_nat (unat n)" 5000] n by (simp add: u64_as_f64_def)
qed

lemma clamp_as_u64:
  assumes "0 \<le> lo" and "lo \<le> hi" and "hi < 2 ^ 64"
  shows "lo \<le> uint (f64_as_u64 (f64_clamp x (of_int lo) (of_int hi))) \<and>
         uint (f64_as_u64 (f64_clamp x (of_int lo) (of_int hi))) \<le> hi"
proof -
  let ?c = "f64_clamp x (of_int lo) (of_int hi)"
  have "(of_int lo :: rat) \<le> of_int hi" "(0 :: rat) \<le> of_int lo" using assms by (simp_all only: of_int_le_iff of_int_0_le_iff)
  then have c: "of_int lo \<le> ?c" "?c \<le> of_int hi" "0 \<le> ?c" by (auto simp: f64_clamp_def)
  have "(of_int hi :: rat) < of_int (2 ^ 64)" using assms(3) by (simp only: of_int_less_iff)
  then have "?c < 2 ^ 64" using c(2) by simp
  then have "f64_as_u64 ?c = of_int \<lfloor>?c\<rfloor>" using c(3) by (simp add: f64_as_u64_def)
  moreover have f: "lo \<le> \<lfloor>?c\<rfloor>" "\<lfloor>?c\<rfloor> \<le> hi"
    using c(1,2) by (simp_all add: le_floor_iff floor_le_iff)
  moreover have "take_bit 64 \<lfloor>?c\<rfloor> = \<lfloor>?c\<rfloor>" by (rule take_bit_int_eq_self) (use f assms in linarith)+
  ultimately show ?thesis using f c(3) by (simp add: unsigned_of_int)
qed

lemma rto_range: "50 \<le> uint (rto_ms s v) \<and> uint (rto_ms s v) \<le> 1000"
  using clamp_as_u64 [of 50 1000] by (simp add: rto_ms_def)

lemma send_interval_range: "20 \<le> uint (send_interval_ms s) \<and> uint (send_interval_ms s) \<le> 250"
  using clamp_as_u64 [of 20 250] by (simp add: send_interval_ms_def)

section \<open>What a sample measures\<close>

lemma timestamp16_ucast:
  assumes "ucast now \<noteq> u16_max"
  shows "timestamp16 now = ucast now"
proof -
  have "now mod 65536 = take_bit 16 now" by (simp add: take_bit_eq_mod)
  then have "(ucast (now mod 65536) :: u16) = ucast now"
    by (simp add: bit_eq_iff bit_ucast_iff bit_take_bit_iff)
  with assms show ?thesis by (simp add: timestamp16_def)
qed

lemma ucast_down_add: "(ucast (a + b :: u64) :: u16) = ucast a + ucast b"
proof transfer
  fix a b :: int
  have "take_bit 16 (take_bit 16 (take_bit 64 a) + take_bit 16 (take_bit 64 b)) = take_bit 16 (take_bit 64 a + take_bit 64 b)"
    by (rule take_bit_add)
  then show "take_bit LENGTH(16) (take_bit LENGTH(64) (a + b))
      = take_bit LENGTH(16) (take_bit LENGTH(64) a + take_bit LENGTH(64) b)"
    by (simp add: take_bit_add)
qed

lemma ucast_up_down: "(ucast (ucast h :: u64) :: u16) = h"
  by (rule bit_word_eqI) (simp add: bit_ucast_iff)

text \<open>C32: A timestamp reply measures the round trip, across wrap-around of the 16-bit clock: a stamp
  taken at \<open>sent\<close>, held by the peer for \<open>held\<close> milliseconds and echoed advanced by that time, gives
  exactly the milliseconds spent on the way, if that is under five seconds and neither clock reading
  is the value reserved for "no timestamp".\<close>

theorem rtt_sample_exact:
  assumes "ucast sent \<noteq> u16_max" and "ucast now \<noteq> u16_max" and "now = sent + ucast held + trip"
    and "trip < RTT_MAX_SAMPLE"
  shows "rtt_sample now (timestamp16 sent + held) = Some (of_nat (unat trip))"
proof -
  have small: "unat trip < 5000" using assms(4) by (simp add: RTT_MAX_SAMPLE_def word_less_nat_alt)
  have "timestamp16 now - (timestamp16 sent + held) = ucast trip"
    by (simp add: timestamp16_ucast assms(1,2)) (simp add: assms(3) ucast_down_add ucast_up_down)
  moreover have "(ucast (ucast trip :: u16) :: u64) = trip"
    using small by (intro word_unat_eq_iff [THEN iffD2]) (simp add: unsigned_ucast_eq unsigned_take_bit_eq take_bit_nat_eq_self)
  moreover have "u64_as_f64 trip = of_nat (unat trip)"
    unfolding u64_as_f64_def using f64_round_int_exact [of "uint trip"] assms(4)
    by (simp add: RTT_MAX_SAMPLE_def word_less_def)
  ultimately show ?thesis using assms(4) by (simp add: rtt_sample_def Let_def)
qed

theorem rtt_sample_exact_witness:
  "rtt_sample 65576 (timestamp16 65500 + 16) = Some (of_nat (unat (60 :: u64)))"
proof (rule rtt_sample_exact)
  show "(ucast (65500 :: u64) :: u16) \<noteq> u16_max" by code_simp
  show "(ucast (65576 :: u64) :: u16) \<noteq> u16_max" by code_simp
  show "(65576 :: u64) = 65500 + ucast (16 :: u16) + 60" by code_simp
  show "(60 :: u64) < RTT_MAX_SAMPLE" by code_simp
qed

text \<open>The estimator and the timers it drives stay in their ranges whatever timestamps arrive: the
  smoothed round trip and its deviation within five seconds, the retransmission timeout between
  50 ms and one second, the frame interval between 20 ms and a quarter of a second.\<close>

theorem rtt_bounds:
  "let e = foldl rtt_update rtt_new (List.map_filter (\<lambda>(now, reply). rtt_sample now reply) samples)
   in 0 \<le> srtt e \<and> srtt e \<le> 5000 \<and> 0 \<le> rttvar e \<and> rttvar e \<le> 5000 \<and>
      50 \<le> uint (rto_ms (srtt e) (rttvar e)) \<and> uint (rto_ms (srtt e) (rttvar e)) \<le> 1000 \<and>
      20 \<le> uint (send_interval_ms (srtt e)) \<and> uint (send_interval_ms (srtt e)) \<le> 250"
proof -
  have "rtt_ok (foldl rtt_update e (List.map_filter (\<lambda>(now, reply). rtt_sample now reply) samples))"
    if "rtt_ok e" for e
    using that
  proof (induction samples arbitrary: e)
    case Nil
    then show ?case by (simp add: List.map_filter_simps)
  next
    case (Cons s samples)
    then show ?case
      by (cases s) (auto simp: List.map_filter_simps rtt_update_ok dest: rtt_sample_range split: option.split)
  qed
  from this [OF rtt_ok_new] show ?thesis
    using rto_range send_interval_range by (simp add: Let_def rtt_ok_def)
qed

end
