(* ===== verification/Session_Loop.thy ===== *)
theory Session_Loop
  imports Crypto Host_Log Ssp_Sender Ssp_Receiver Prediction Timing
begin

text \<open>
  \<^verbatim>\<open>src/session.rs\<close> lines 34-110, 193-227 and 636-1172: the session loop, which drives the sealing,
  framing and synchronization engines over sockets.

  The state the loop shares with the handle (behind an \<open>Arc\<close>, an atomic or the command channel) is
  \<open>session_world\<close>; \<open>session_loop\<close> extends it by the loop's own fields. What the operating system
  decides is an argument: \<open>env\<close> holds the embedder's display, the cipher, the compressor and the platform,
  and a \<open>wake\<close> holds what one round of the loop meets from outside: the clock at each reading, the
  commands of the calls made since the last round, the result of each \<open>send_to\<close>, of \<open>bind\<close>, and of each \<open>recv_from\<close>. Sockets are numbered. Events and datagrams
  handed to the outside are appended to \<open>loop_events\<close> and \<open>sent_datagrams\<close>. The \<open>MOSH_TRACE\<close>
  output to standard error is left out. A \<open>usize\<close> that the display sees is a \<open>u64\<close>.
\<close>

definition PORT_HOP_INTERVAL_MS :: u64 where "PORT_HOP_INTERVAL_MS = 10000"
definition MAX_PORTS_OPEN :: nat where "MAX_PORTS_OPEN = 10"
definition MAX_OLD_SOCKET_AGE_MS :: u64 where "MAX_OLD_SOCKET_AGE_MS = 60000"
definition POLL_CAP_MS :: u64 where "POLL_CAP_MS = 50"
definition OLD_SOCKET_DRAIN_CAP :: nat where "OLD_SOCKET_DRAIN_CAP = 64"
definition TS_FRESH_MS :: u64 where "TS_FRESH_MS = 1000"
definition DEFAULT_SEND_MTU :: nat where "DEFAULT_SEND_MTU = 500"

datatype socket_addr = V4 "32 word" u16 | V6 "128 word" u16

fun mtu_for :: "socket_addr \<Rightarrow> nat" where
  "mtu_for (V4 _ _) = 1280 - 20 - 8"
| "mtu_for (V6 _ _) = 1280 - 40 - 16 - 8"

datatype session_command =
    Input bytes
  | ResizeTo i32 i32
  | StartShutdown
  | Terminate

datatype session_event =
    ScreenChanged u64
  | Ended bool "string option"

record link_health =
  since_heard_ms :: u64
  since_ack_ms :: u64
  health_never_heard :: bool
  rtt_ms :: "u64 option"
  health_rto_ms :: u64

text \<open>The embedder's display, a value of type \<open>'d\<close> with these operations.\<close>

record 'd mosh_display =
  new_blank :: "u64 \<Rightarrow> u64 \<Rightarrow> 'd"
  display_feed :: "'d \<Rightarrow> bytes \<Rightarrow> 'd"
  display_resize :: "'d \<Rightarrow> u64 \<Rightarrow> u64 \<Rightarrow> 'd"
  display_cols :: "'d \<Rightarrow> u64"
  display_rows :: "'d \<Rightarrow> u64"
  display_cursor :: "'d \<Rightarrow> i32 \<times> i32 \<times> bool"

record shared =
  frame_version :: u64
  last_heard_ms :: u64
  last_roundtrip_ms :: u64
  never_heard :: bool
  now_ms :: u64
  ports_opened :: u64
  user_acked :: u64
  capture_host_bytes :: bool
  rtt_ms_biased :: u64
  shared_rto_ms :: u64

definition link_health_of :: "shared \<Rightarrow> link_health" where
  "link_health_of self =
     \<lparr>since_heard_ms = sat_sub (now_ms self) (last_heard_ms self),
      since_ack_ms = sat_sub (now_ms self) (last_roundtrip_ms self),
      health_never_heard = never_heard self,
      rtt_ms = (if rtt_ms_biased self = 0 then None else Some (rtt_ms_biased self - 1)),
      health_rto_ms = shared_rto_ms self\<rparr>"

record 'd session_world =
  shared_of :: shared
  display :: 'd
  pending_bytes :: bytes
  prediction :: prediction_state
  commands :: "session_command list"

record ('c, 'd) session_loop = "'d session_world" +
  socks :: "nat list"
  target_addr :: socket_addr
  loop_mtu :: nat
  sealer :: "'c mosh_sealer"
  opener :: "'c mosh_opener"
  sender :: "user_stream ssp_sender"
  receiver :: "host_stream_state ssp_receiver"
  next_addr :: nat
  engine_at :: event_log
  loop_fragmenter :: fragmenter
  assembly :: fragment_assembly
  loop_events :: "session_event list"
  sent_datagrams :: "(nat \<times> bytes) list"
  read_timeout :: u64
  expected_receiver_seq :: u64
  saved_timestamp :: "(u16 \<times> u64) option"
  loop_rtt :: rtt_estimator
  last_port_choice :: u64
  last_roundtrip_success :: u64
  hop_interval_ms :: u64
  fatal :: "string option"

datatype platform = MacOs | OtherUnix | NotUnix

record ('c, 'd) env =
  env_enc :: "'c aead_op"
  env_dec :: "'c aead_op"
  env_zc :: "bytes \<Rightarrow> bytes"
  env_zr :: zlib_read
  env_display :: "'d mosh_display"
  env_platform :: platform

text \<open>The result of \<open>send_to\<close>: sent, or an I/O error with its raw OS error number, if it has one.\<close>

datatype send_result = SendOk | SendErr "i32 option"

text \<open>The three definitions of \<open>EMSGSIZE\<close>, one of which is compiled in.\<close>

fun EMSGSIZE :: "platform \<Rightarrow> i32" where
  "EMSGSIZE MacOs = 40"
| "EMSGSIZE OtherUnix = 90"
| "EMSGSIZE NotUnix = - 1"

definition is_emsgsize :: "platform \<Rightarrow> i32 option \<Rightarrow> bool" where
  "is_emsgsize p raw_os_error \<longleftrightarrow> raw_os_error = Some (EMSGSIZE p)"

text \<open>A received datagram with the two clock readings made while it is handled.\<close>

type_synonym arrival = "bytes \<times> u64 \<times> u64"

record wake =
  wake_now :: u64
  wake_commands :: "session_command list"
  wake_sends :: "nat \<Rightarrow> u64 \<times> u64 \<times> send_result"
  wake_bind :: "nat option"
  wake_newest :: "arrival option"
  wake_old :: "nat \<Rightarrow> arrival list"

section \<open>Displaying the host stream\<close>

fun feed_display ::
  "'d mosh_display \<Rightarrow> ('d, 'z) session_world_scheme \<Rightarrow> 'd \<Rightarrow> host_event \<Rightarrow> 'd \<times> ('d, 'z) session_world_scheme" where
  "feed_display ops self d (Bytes bs) =
     (display_feed ops d bs,
      if capture_host_bytes (shared_of self) then self\<lparr>pending_bytes := pending_bytes self @ bs\<rparr> else self)"
| "feed_display ops self d (HostResize width height) =
     (display_resize ops d (scast width) (scast height), self)"

fun feed_events ::
  "'d mosh_display \<Rightarrow> ('d, 'z) session_world_scheme \<Rightarrow> 'd \<Rightarrow> host_event list \<Rightarrow> 'd \<times> ('d, 'z) session_world_scheme" where
  "feed_events ops self d [] = (d, self)"
| "feed_events ops self d (ev # evs) =
     (case feed_display ops self d ev of (d', self') \<Rightarrow> feed_events ops self' d' evs)"

text \<open>Advance the display to the newest state: feed the suffix, or rebuild after a branch.\<close>

definition advance_display ::
  "'d mosh_display \<Rightarrow> ('c, 'd) session_loop \<Rightarrow> event_log \<Rightarrow> bool \<times> ('c, 'd) session_loop" where
  "advance_display ops self newest =
     (case suffix_over newest (engine_at self) of
        Some suf \<Rightarrow>
          if suf \<noteq> [] then
            (case feed_events ops self (display self) suf of
               (d, self1) \<Rightarrow> (True, self1\<lparr>display := d, engine_at := newest\<rparr>))
          else (False, self)
      | None \<Rightarrow>
          let fresh = new_blank ops (display_cols ops (display self)) (display_rows ops (display self))
          in case feed_events ops self fresh (log_iter newest) of
               (d, self1) \<Rightarrow> (True, self1\<lparr>display := d, engine_at := newest\<rparr>))"

section \<open>Sending\<close>

definition rto :: "('c, 'd) session_loop \<Rightarrow> u64" where
  "rto self = rto_ms (srtt (loop_rtt self)) (rttvar (loop_rtt self))"

definition send_interval :: "('c, 'd) session_loop \<Rightarrow> u64" where
  "send_interval self = send_interval_ms (srtt (loop_rtt self))"

definition fragment_mtu :: "('c, 'd) session_loop \<Rightarrow> nat" where
  "fragment_mtu self = loop_mtu self - (12 + 16)"

text \<open>Echo the peer's timestamp, advanced by how long it was held, while fresh and only once.\<close>

definition outgoing_reply :: "('c, 'd) session_loop \<Rightarrow> u64 \<Rightarrow> u16 option \<times> ('c, 'd) session_loop" where
  "outgoing_reply self now =
     (case saved_timestamp self of
        Some (ts, received_at) \<Rightarrow>
          if now - received_at < TS_FRESH_MS
          then (Some (ts + ucast (now - received_at)), self\<lparr>saved_timestamp := None\<rparr>)
          else (None, self)
      | None \<Rightarrow> (None, self))"

definition send_fragment ::
  "('c, 'd) env \<Rightarrow> ('c, 'd) session_loop \<Rightarrow> fragment \<Rightarrow> u64 \<times> u64 \<times> send_result \<Rightarrow> ('c, 'd) session_loop" where
  "send_fragment e self frag clocks =
     (case clocks of (now, now', res) \<Rightarrow>
      case outgoing_reply self now of (reply, self1) \<Rightarrow>
      let header = \<lparr>timestamp = timestamp16 now', timestamp_reply = (case reply of Some r \<Rightarrow> r | None \<Rightarrow> u16_max)\<rparr>
      in case seal (env_enc e) (sealer self1) header (fragment_tostring frag) of
           (Inl _, sealer') \<Rightarrow>
             self1\<lparr>sealer := sealer', fatal := Some ''mosh: session exhausted its key budget''\<rparr>
         | (Inr datagram, sealer') \<Rightarrow>
             let self2 = self1\<lparr>sealer := sealer',
                               sent_datagrams := sent_datagrams self1 @ [(last (socks self1), datagram)]\<rparr>
             in case res of
                  SendErr e' \<Rightarrow> if is_emsgsize (env_platform e) e' then self2\<lparr>loop_mtu := DEFAULT_SEND_MTU\<rparr> else self2
                | SendOk \<Rightarrow> self2)"

fun send_fragments ::
  "('c, 'd) env \<Rightarrow> ('c, 'd) session_loop \<Rightarrow> fragment list \<Rightarrow> (nat \<Rightarrow> u64 \<times> u64 \<times> send_result) \<Rightarrow> ('c, 'd) session_loop" where
  "send_fragments e self [] clocks = self"
| "send_fragments e self (frag # frags) clocks =
     send_fragments e (send_fragment e self frag (clocks 0)) frags (\<lambda>k. clocks (Suc k))"

section \<open>Receiving\<close>

text \<open>What each receiver outcome does to the sender.\<close>

fun apply_recv_outcome :: "'s ssp_sender \<Rightarrow> 'r recv_outcome \<Rightarrow> u64 \<Rightarrow> 's ssp_sender" where
  "apply_recv_outcome s (Latest num had_diff _) now =
     (let s1 = remote_heard (set_ack_num s num) now in if had_diff then set_data_ack s1 else s1)"
| "apply_recv_outcome s (OutOfOrder _ _) now = s"
| "apply_recv_outcome s Duplicate now = s"
| "apply_recv_outcome s NoReference now = s"
| "apply_recv_outcome s Quenched now = s"

text \<open>The part behind the sequence gate: proof of life, the timestamp to echo, the round-trip sample.\<close>

definition note_reply :: "('c, 'd) session_loop \<Rightarrow> u16 \<Rightarrow> u64 \<Rightarrow> ('c, 'd) session_loop" where
  "note_reply self reply now' =
     (if reply = u16_max then self
      else case rtt_sample now' reply of
             None \<Rightarrow> self
           | Some r \<Rightarrow>
               let est = rtt_update (loop_rtt self) r
               in self\<lparr>loop_rtt := est,
                       shared_of := (shared_of self)\<lparr>rtt_ms_biased := f64_as_u64 (f64_round_int (srtt est)) + 1\<rparr>\<rparr>)"

definition note_fresh :: "('c, 'd) session_loop \<Rightarrow> u64 \<Rightarrow> packet_header \<Rightarrow> u64 \<Rightarrow> u64 \<Rightarrow> ('c, 'd) session_loop" where
  "note_fresh self seq header now now' =
     (let self1 = self\<lparr>expected_receiver_seq := seq + 1,
                       shared_of := (shared_of self)\<lparr>last_heard_ms := now\<rparr>\<rparr>;
          self2 = (if timestamp header \<noteq> u16_max
                   then self1\<lparr>saved_timestamp := Some (timestamp header, now)\<rparr> else self1)
      in note_reply self2 (timestamp_reply header) now')"

fun ssp_error_string :: "ssp_error \<Rightarrow> string" where
  "ssp_error_string (ProtocolVersion v) = ''peer protocol_version '' @ show_nat (unat v) @ '' != 2''"
| "ssp_error_string (BadDiff e) = ''state diff failed to parse: '' @ e"

definition session_retire :: "('d, 'z) session_world_scheme \<Rightarrow> u64 \<Rightarrow> bool \<times> ('d, 'z) session_world_scheme" where
  "session_retire self ack =
     (case retire_predictions (prediction self) ack of (drained, p) \<Rightarrow> (drained, self\<lparr>prediction := p\<rparr>))"

definition bump_frame :: "('d, 'z) session_world_scheme \<Rightarrow> ('d, 'z) session_world_scheme" where
  "bump_frame self = self\<lparr>shared_of := (shared_of self)\<lparr>frame_version := frame_version (shared_of self) + 1\<rparr>\<rparr>"

definition emit :: "('c, 'd) session_loop \<Rightarrow> session_event \<Rightarrow> ('c, 'd) session_loop" where
  "emit self ev = self\<lparr>loop_events := loop_events self @ [ev]\<rparr>"

text \<open>
  The calls of the handle that reach the loop: each queues a command, and \<open>resize\<close> has changed the
  display by then.
\<close>

definition command :: "('d, 'z) session_world_scheme \<Rightarrow> session_command \<Rightarrow> ('d, 'z) session_world_scheme" where
  "command self c = self\<lparr>commands := commands self @ [c]\<rparr>"

definition resize_session ::
  "'d mosh_display \<Rightarrow> ('d, 'z) session_world_scheme \<Rightarrow> i32 \<Rightarrow> i32 \<Rightarrow> ('d, 'z) session_world_scheme" where
  "resize_session ops self width height =
     (let self1 = (if sint width \<ge> 2 \<and> sint height \<ge> 2
                   then bump_frame (self\<lparr>display := display_resize ops (display self) (scast width) (scast height)\<rparr>)
                   else self)
      in command self1 (ResizeTo width height))"

fun called :: "'d mosh_display \<Rightarrow> ('d, 'z) session_world_scheme \<Rightarrow> session_command \<Rightarrow> ('d, 'z) session_world_scheme" where
  "called ops self (ResizeTo width height) = resize_session ops self width height"
| "called ops self c = command self c"

definition show_latest ::
  "'d mosh_display \<Rightarrow> ('c, 'd) session_loop \<Rightarrow> u64 \<Rightarrow> ('c, 'd) session_loop" where
  "show_latest ops self num =
     (let self1 = self\<lparr>shared_of := (shared_of self)\<lparr>never_heard := False\<rparr>\<rparr>
      in case advance_display ops self1 (host_log (latest_state (receiver self1))) of
           (fed, self2) \<Rightarrow>
             (case session_retire self2 (echo_ack (latest_state (receiver self2))) of
                (drained, self3) \<Rightarrow>
                  if drained \<or> fed then emit (bump_frame self3) (ScreenChanged num) else self3))"

text \<open>The acknowledgement an instruction carries.\<close>

definition note_ack :: "('c, 'd) session_loop \<Rightarrow> u64 \<Rightarrow> ('c, 'd) session_loop" where
  "note_ack self ack =
     (let s = process_acknowledgment_through (sender self) ack; t = sent_state_acked_timestamp s
      in self\<lparr>sender := s, last_roundtrip_success := t,
              shared_of := (shared_of self)\<lparr>user_acked := sent_state_acked s, last_roundtrip_ms := t\<rparr>\<rparr>)"

definition handle_instruction ::
  "('c, 'd) env \<Rightarrow> ('c, 'd) session_loop \<Rightarrow> transport_instruction \<Rightarrow> u64 \<Rightarrow> ('c, 'd) session_loop" where
  "handle_instruction e self inst now =
     (if protocol_version inst \<noteq> MOSH_PROTOCOL_VERSION then
        self\<lparr>fatal := Some (''mosh: '' @ ssp_error_string (ProtocolVersion (protocol_version inst)))\<rparr>
      else
        let self1 = note_ack self (ack_num inst)
        in case process_instruction host_apply_string (next_addr self1) (receiver self1) inst now of
             (outcome, receiver', free') \<Rightarrow>
               let self2 = self1\<lparr>receiver := receiver', next_addr := free'\<rparr>
               in (case outcome of
                     Inr (Latest num had_diff s) \<Rightarrow>
                       show_latest (env_display e)
                         (self2\<lparr>sender := apply_recv_outcome (sender self2) (Latest num had_diff s) now\<rparr>) num
                   | Inr (OutOfOrder num had_diff) \<Rightarrow>
                       self2\<lparr>sender := apply_recv_outcome (sender self2) (OutOfOrder num had_diff :: host_stream_state recv_outcome) now\<rparr>
                   | Inr _ \<Rightarrow> self2
                   | Inl err \<Rightarrow> self2\<lparr>fatal := Some (''mosh: '' @ ssp_error_string err)\<rparr>))"

definition handle_fragment ::
  "('c, 'd) env \<Rightarrow> ('c, 'd) session_loop \<Rightarrow> fragment \<Rightarrow> u64 \<Rightarrow> ('c, 'd) session_loop" where
  "handle_fragment e self frag now =
     (case add_fragment (env_zr e) (assembly self) frag of
        (None, a) \<Rightarrow> self\<lparr>assembly := a\<rparr>
      | (Some inst, a) \<Rightarrow> handle_instruction e (self\<lparr>assembly := a\<rparr>) inst now)"

definition handle_datagram :: "('c, 'd) env \<Rightarrow> ('c, 'd) session_loop \<Rightarrow> arrival \<Rightarrow> ('c, 'd) session_loop" where
  "handle_datagram e self arr =
     (case arr of (bs, now, now') \<Rightarrow>
      case open_datagram (env_dec e) (opener self) bs of
        Inl _ \<Rightarrow> self
      | Inr (seq, header, payload) \<Rightarrow>
          let self1 = (if seq \<ge> expected_receiver_seq self then note_fresh self seq header now now' else self)
          in case fragment_parse payload of
               Inl _ \<Rightarrow> self1
             | Inr frag \<Rightarrow> handle_fragment e self1 frag now)"

text \<open>What \<open>recv_from\<close> leaves of a datagram in the receive buffer.\<close>

definition RECV_BUFFER_LEN :: nat where "RECV_BUFFER_LEN = 2048"

definition read_datagram :: "arrival \<Rightarrow> arrival" where
  "read_datagram a = (case a of (bs, clocks) \<Rightarrow> (take RECV_BUFFER_LEN bs, clocks))"

text \<open>The non-blocking drain of one old socket, and of all of them from the newest down.\<close>

fun drain_socket ::
  "('c, 'd) env \<Rightarrow> ('c, 'd) session_loop \<Rightarrow> nat \<Rightarrow> arrival list \<Rightarrow> nat \<times> ('c, 'd) session_loop" where
  "drain_socket e self drained [] = (drained, self)"
| "drain_socket e self drained (a # arrivals) =
     (let self1 = handle_datagram e self (read_datagram a); drained1 = drained + 1
      in if drained1 \<ge> OLD_SOCKET_DRAIN_CAP then (drained1, self1)
         else drain_socket e self1 drained1 arrivals)"

fun drain_sockets ::
  "('c, 'd) env \<Rightarrow> ('c, 'd) session_loop \<Rightarrow> nat \<Rightarrow> (nat \<Rightarrow> arrival list) \<Rightarrow> nat list \<Rightarrow> nat \<times> ('c, 'd) session_loop" where
  "drain_sockets e self drained old [] = (drained, self)"
| "drain_sockets e self drained old (idx # idxs) =
     (case drain_socket e self drained (old idx) of
        (drained1, self1) \<Rightarrow> drain_sockets e self1 drained1 old idxs)"

definition receive :: "('c, 'd) env \<Rightarrow> ('c, 'd) session_loop \<Rightarrow> u64 \<Rightarrow> wake \<Rightarrow> ('c, 'd) session_loop" where
  "receive e self wait_ms w =
     (let self1 = self\<lparr>read_timeout := wait_ms\<rparr>;
          self2 = (case wake_newest w of Some a \<Rightarrow> handle_datagram e self1 (read_datagram a) | None \<Rightarrow> self1)
      in if length (socks self2) > 1
         then snd (drain_sockets e self2 0 (wake_old w) (rev [0..<length (socks self2) - 1]))
         else self2)"

section \<open>Commands and sockets\<close>

definition session_predict ::
  "'d mosh_display \<Rightarrow> ('c, 'd) session_loop \<Rightarrow> bytes \<Rightarrow> ('c, 'd) session_loop" where
  "session_predict ops self bs =
     (case display_cursor ops (display self) of (col, row, _) \<Rightarrow>
      self\<lparr>prediction := predict_input (prediction self)
             (ucast (display_cols ops (display self))) (ucast (display_rows ops (display self)))
             (col, row) (sent_state_last (sender self) + 1) bs\<rparr>)"

definition handle_command ::
  "'d mosh_display \<Rightarrow> ('c, 'd) session_loop \<Rightarrow> u64 \<Rightarrow> session_command \<Rightarrow> ('c, 'd) session_loop" where
  "handle_command ops self now c =
     (case c of
        Input bs \<Rightarrow>
          if \<not> shutdown_in_progress (sender self) then
            session_predict ops
              (self\<lparr>sender := set_current_state (sender self) (push_bytes (current_state (sender self)) bs)\<rparr>) bs
          else self
      | ResizeTo width height \<Rightarrow>
          if \<not> shutdown_in_progress (sender self) then
            self\<lparr>sender := set_current_state (sender self) (push_resize (current_state (sender self)) width height)\<rparr>
          else self
      | StartShutdown \<Rightarrow> self\<lparr>sender := start_shutdown (sender self) now\<rparr>
      | Terminate \<Rightarrow> self)"

fun drain_loop ::
  "'d mosh_display \<Rightarrow> ('c, 'd) session_loop \<Rightarrow> u64 \<Rightarrow> session_command list \<Rightarrow> bool \<times> ('c, 'd) session_loop" where
  "drain_loop ops self now [] = (True, self\<lparr>commands := []\<rparr>)"
| "drain_loop ops self now (c # cs) =
     (if c = Terminate then (False, self\<lparr>commands := cs\<rparr>)
      else drain_loop ops (handle_command ops self now c) now cs)"

definition drain_commands :: "'d mosh_display \<Rightarrow> ('c, 'd) session_loop \<Rightarrow> u64 \<Rightarrow> bool \<times> ('c, 'd) session_loop" where
  "drain_commands ops self now = drain_loop ops self now (commands self)"

definition maybe_hop_port :: "('c, 'd) session_loop \<Rightarrow> u64 \<Rightarrow> nat option \<Rightarrow> ('c, 'd) session_loop" where
  "maybe_hop_port self now bound =
     (if now - last_port_choice self \<le> hop_interval_ms self then self
      else if now - last_roundtrip_success self \<le> hop_interval_ms self then self
      else case bound of
             Some s \<Rightarrow>
               self\<lparr>socks := socks self @ [s], last_port_choice := now,
                    shared_of := (shared_of self)\<lparr>ports_opened := ports_opened (shared_of self) + 1\<rparr>\<rparr>
           | None \<Rightarrow> self)"

fun drop_oldest :: "nat list \<Rightarrow> nat list" where
  "drop_oldest ss = (if length ss > MAX_PORTS_OPEN then drop_oldest (drop 1 ss) else ss)"

declare drop_oldest.simps [simp del]

definition prune_sockets :: "('c, 'd) session_loop \<Rightarrow> u64 \<Rightarrow> ('c, 'd) session_loop" where
  "prune_sockets self now =
     (let ss = socks self;
          ss1 = (if length ss > 1 \<and> now - last_port_choice self > MAX_OLD_SOCKET_AGE_MS
                 then drop (length ss - 1) ss else ss)
      in self\<lparr>socks := drop_oldest ss1\<rparr>)"

section \<open>The loop\<close>

definition run_tick :: "('c, 'd) env \<Rightarrow> ('c, 'd) session_loop \<Rightarrow> u64 \<Rightarrow> fragment list \<times> ('c, 'd) session_loop" where
  "run_tick e self now =
     (let r = rto self; self1 = self\<lparr>shared_of := (shared_of self)\<lparr>shared_rto_ms := r\<rparr>\<rparr>
      in case tick user_diff_from user_subtract (env_zc e) (sender self1) now r (send_interval self1)
                (fragment_mtu self1) (loop_fragmenter self1) [] of
           (s, fr, out) \<Rightarrow> (out, self1\<lparr>sender := s, loop_fragmenter := fr\<rparr>))"

definition run_wait :: "('c, 'd) session_loop \<Rightarrow> u64 \<Rightarrow> u64 \<times> ('c, 'd) session_loop" where
  "run_wait self now =
     (case wait_time (sender self) now (rto self) (send_interval self) of
        (w, s) \<Rightarrow> (min (max w 1) POLL_CAP_MS, self\<lparr>sender := s\<rparr>))"

text \<open>The start of a round: the clock is read, and the handle has been called since the last one.\<close>

definition woken :: "'d mosh_display \<Rightarrow> ('c, 'd) session_loop \<Rightarrow> wake \<Rightarrow> ('c, 'd) session_loop" where
  "woken ops self w =
     foldl (called ops) (self\<lparr>shared_of := (shared_of self)\<lparr>now_ms := wake_now w\<rparr>\<rparr>) (wake_commands w)"

text \<open>One round of \<open>run\<close>; the flag tells whether the loop goes on.\<close>

definition run_round :: "('c, 'd) env \<Rightarrow> ('c, 'd) session_loop \<Rightarrow> wake \<Rightarrow> bool \<times> ('c, 'd) session_loop" where
  "run_round e self w =
     (let now = wake_now w;
          self0 = woken (env_display e) self w
      in case drain_commands (env_display e) self0 now of
           (False, self1) \<Rightarrow> (False, self1)
         | (True, self1) \<Rightarrow>
             (case fatal self1 of
                Some err \<Rightarrow> (False, emit self1 (Ended False (Some err)))
              | None \<Rightarrow>
                  (case run_tick e self1 now of (out, self2) \<Rightarrow>
                   let self3 = send_fragments e self2 out (wake_sends w);
                       self4 = prune_sockets (maybe_hop_port self3 now (wake_bind w)) now
                   in if counterparty_shutdown_acknowledged (loop_fragmenter self4) then
                        (False, emit self4 (Ended True None))
                      else if shutdown_in_progress (sender self4) \<and>
                              (shutdown_acknowledged (sender self4) \<or> shutdown_ack_timed_out (sender self4) now) then
                        (False, emit self4 (Ended (shutdown_acknowledged (sender self4)) None))
                      else case run_wait self4 now of (wt, self5) \<Rightarrow> (True, receive e self5 wt w))))"

fun run :: "('c, 'd) env \<Rightarrow> ('c, 'd) session_loop \<Rightarrow> wake list \<Rightarrow> bool \<times> ('c, 'd) session_loop" where
  "run e self [] = (True, self)"
| "run e self (w # ws) =
     (case run_round e self w of (True, self1) \<Rightarrow> run e self1 ws | (False, self1) \<Rightarrow> (False, self1))"

end
