(* ===== verification/Session.thy ===== *)
theory Session
  imports Session_Loop
begin

text \<open>
  What the session loop keeps. An invariant of the loop is a predicate that every handler preserves;
  the locale \<open>loop_invariant\<close> states the handlers' obligations once and derives that whole rounds
  and whole runs preserve it. The predicate is indexed by a number of rounds, because the state
  numbers of the sender are finite: only ticks count, and only up to \<open>limit\<close>.
\<close>

section \<open>The stages of a round\<close>

text \<open>The calls of the handle change the display, the frame version and the queue of commands.\<close>

lemma called_eq:
  "\<exists>v d. called ops s c = s\<lparr>shared_of := (shared_of s)\<lparr>frame_version := v\<rparr>, display := d, commands := commands s @ [c]\<rparr>"
proof -
  have "called ops s c = s\<lparr>shared_of := (shared_of s)\<lparr>frame_version := frame_version (shared_of (called ops s c))\<rparr>,
      display := display (called ops s c), commands := commands s @ [c]\<rparr>"
    by (cases c) (simp_all add: command_def resize_session_def bump_frame_def)
  then show ?thesis by blast
qed

lemma calls_eq:
  "\<exists>v d. foldl (called ops) s cs
     = s\<lparr>shared_of := (shared_of s)\<lparr>frame_version := v\<rparr>, display := d, commands := commands s @ cs\<rparr>"
proof (induction cs arbitrary: s)
  case Nil
  have "s = s\<lparr>shared_of := (shared_of s)\<lparr>frame_version := frame_version (shared_of s)\<rparr>, display := display s, commands := commands s\<rparr>"
    by simp
  then show ?case by (metis append_Nil2 foldl_Nil)
next
  case (Cons c cs)
  from called_eq [of ops s c] obtain v d where
    c: "called ops s c = s\<lparr>shared_of := (shared_of s)\<lparr>frame_version := v\<rparr>, display := d, commands := commands s @ [c]\<rparr>" by blast
  from Cons.IH [of "called ops s c"] show ?case unfolding c foldl_Cons by simp
qed

lemma woken_eq:
  "\<exists>v d. woken ops s w
     = s\<lparr>shared_of := (shared_of s)\<lparr>now_ms := wake_now w, frame_version := v\<rparr>, display := d, commands := commands s @ wake_commands w\<rparr>"
  using calls_eq [of ops "s\<lparr>shared_of := (shared_of s)\<lparr>now_ms := wake_now w\<rparr>\<rparr>" "wake_commands w"] by (simp add: woken_def)

lemma resize_session_frame [simp]:
  "socks (resize_session ops s cols rows) = socks s" "loop_mtu (resize_session ops s cols rows) = loop_mtu s"
  "sender (resize_session ops s cols rows) = sender s" "prediction (resize_session ops s cols rows) = prediction s"
  "loop_rtt (resize_session ops s cols rows) = loop_rtt s"
  by (simp_all add: resize_session_def command_def bump_frame_def Let_def)

lemma woken_frame [simp]:
  "commands (woken ops s w) = commands s @ wake_commands w" "socks (woken ops s w) = socks s" "loop_mtu (woken ops s w) = loop_mtu s"
  "sender (woken ops s w) = sender s" "receiver (woken ops s w) = receiver s" "next_addr (woken ops s w) = next_addr s"
  "engine_at (woken ops s w) = engine_at s" "prediction (woken ops s w) = prediction s" "assembly (woken ops s w) = assembly s"
  "loop_fragmenter (woken ops s w) = loop_fragmenter s" "sealer (woken ops s w) = sealer s" "opener (woken ops s w) = opener s"
  "sent_datagrams (woken ops s w) = sent_datagrams s" "loop_events (woken ops s w) = loop_events s" "fatal (woken ops s w) = fatal s"
  "loop_rtt (woken ops s w) = loop_rtt s"
  using woken_eq [of ops s w] by auto

lemma calls_calm:
  "\<forall>width height. ResizeTo width height \<notin> set cs \<Longrightarrow> foldl (called ops) s cs = s\<lparr>commands := commands s @ cs\<rparr>"
proof (induction cs arbitrary: s)
  case (Cons c cs)
  have "called ops s c = command s c" using Cons.prems by (cases c) auto
  with Cons show ?case by (simp add: command_def)
qed simp

lemma woken_calm:
  "\<forall>width height. ResizeTo width height \<notin> set (wake_commands w) \<Longrightarrow>
   woken ops s w = s\<lparr>shared_of := (shared_of s)\<lparr>now_ms := wake_now w\<rparr>, commands := commands s @ wake_commands w\<rparr>"
  by (simp add: woken_def calls_calm)

text \<open>The commands are drained (\<open>s1\<close>), the sender ticks (\<open>s2\<close>), the fragments go out and the sockets are
  looked after (\<open>s4\<close>), the wait is computed (\<open>s5\<close>); the flags and events follow.\<close>

lemma run_round_split:
  obtains (stages) go s1 out s2 s4 wt s5 where
    "drain_commands (env_display e) (woken (env_display e) s w) (wake_now w) = (go, s1)"
    "run_tick e s1 (wake_now w) = (out, s2)"
    "s4 = prune_sockets (maybe_hop_port (send_fragments e s2 out (wake_sends w)) (wake_now w) (wake_bind w)) (wake_now w)"
    "run_wait s4 (wake_now w) = (wt, s5)"
    "run_round e s w =
       (if \<not> go then (False, s1)
        else case fatal s1 of
               Some err \<Rightarrow> (False, emit s1 (Ended False (Some err)))
             | None \<Rightarrow>
                 if counterparty_shutdown_acknowledged (loop_fragmenter s4) then (False, emit s4 (Ended True None))
                 else if shutdown_in_progress (sender s4) \<and>
                         (shutdown_acknowledged (sender s4) \<or> shutdown_ack_timed_out (sender s4) (wake_now w))
                 then (False, emit s4 (Ended (shutdown_acknowledged (sender s4)) None))
                 else (True, receive e s5 wt w))"
proof -
  obtain go s1 where d: "drain_commands (env_display e) (woken (env_display e) s w) (wake_now w) = (go, s1)" by fastforce
  obtain out s2 where t: "run_tick e s1 (wake_now w) = (out, s2)" by fastforce
  define s4 where "s4 = prune_sockets (maybe_hop_port (send_fragments e s2 out (wake_sends w)) (wake_now w) (wake_bind w)) (wake_now w)"
  obtain wt s5 where wt: "run_wait s4 (wake_now w) = (wt, s5)" by fastforce
  show thesis
    by (rule that [OF d t s4_def wt])
      (auto simp: run_round_def Let_def d t s4_def [symmetric] wt split: bool.split option.split)
qed

section \<open>What feeding the display does\<close>

fun replay :: "'d mosh_display \<Rightarrow> 'd \<Rightarrow> host_event list \<Rightarrow> 'd" where
  "replay ops d [] = d"
| "replay ops d (Bytes bs # evs) = replay ops (display_feed ops d bs) evs"
| "replay ops d (HostResize width height # evs) = replay ops (display_resize ops d (scast width) (scast height)) evs"

lemma replay_append: "replay ops d (xs @ ys) = replay ops (replay ops d xs) ys"
  by (induction ops d xs rule: replay.induct) simp_all

text \<open>One event of \<open>feed_display\<close>, up to the access to the host bytes.\<close>

fun draw :: "'d mosh_display \<Rightarrow> 'd \<Rightarrow> host_event \<Rightarrow> 'd" where
  "draw ops d (Bytes bs) = display_feed ops d bs"
| "draw ops d (HostResize w h) = display_resize ops d (scast w) (scast h)"

lemma replay_draw: "replay ops d (ev # evs) = replay ops (draw ops d ev) evs"
  by (cases ev) simp_all

text \<open>
  A display made from the one supplied, or from a blank one, by drawing the events of a list in order,
  each once, with local resizes to permitted sizes anywhere between them.
\<close>

inductive mixed :: "'d mosh_display \<Rightarrow> (i32 \<Rightarrow> i32 \<Rightarrow> bool) \<Rightarrow> 'd \<Rightarrow> 'd \<Rightarrow> host_event list \<Rightarrow> bool"
  for ops :: "'d mosh_display" and permitted :: "i32 \<Rightarrow> i32 \<Rightarrow> bool" and d0 :: 'd where
  supplied: "mixed ops permitted d0 d0 []"
| blank: "mixed ops permitted d0 (new_blank ops cols rows) []"
| event: "mixed ops permitted d0 d evs \<Longrightarrow> mixed ops permitted d0 (draw ops d ev) (evs @ [ev])"
| resized: "mixed ops permitted d0 d evs \<Longrightarrow> permitted w h \<Longrightarrow>
     mixed ops permitted d0 (display_resize ops d (scast w) (scast h)) evs"

lemma mixed_replay: "mixed ops R d0 d xs \<Longrightarrow> mixed ops R d0 (replay ops d ys) (xs @ ys)"
proof (induction ys arbitrary: d xs)
  case (Cons ev ys)
  from Cons.IH [OF mixed.event [OF Cons.prems, of ev]] show ?case by (simp add: replay_draw del: replay.simps)
qed simp

lemma mixed_mono: "mixed ops R d0 d evs \<Longrightarrow> (\<And>w h. R w h \<Longrightarrow> Q w h) \<Longrightarrow> mixed ops Q d0 d evs"
  by (induction rule: mixed.induct) (auto intro: mixed.intros)

lemma mixed_unresized:
  assumes "mixed ops R d0 d evs" and "\<And>w h. \<not> R w h"
  shows "\<exists>d1. (d1 = d0 \<or> (\<exists>cols rows. d1 = new_blank ops cols rows)) \<and> d = replay ops d1 evs"
  using assms(1)
proof induction
  case (event d evs ev)
  then obtain d1 where "d1 = d0 \<or> (\<exists>cols rows. d1 = new_blank ops cols rows)" "d = replay ops d1 evs" by blast
  moreover have "draw ops (replay ops d1 evs) ev = replay ops d1 (evs @ [ev])" by (cases ev) (simp_all add: replay_append)
  ultimately show ?case by metis
qed (use assms(2) in auto)

fun host_bytes :: "host_event list \<Rightarrow> bytes" where
  "host_bytes [] = []"
| "host_bytes (Bytes bs # evs) = bs @ host_bytes evs"
| "host_bytes (HostResize _ _ # evs) = host_bytes evs"

definition captured :: "('d, 'z) session_world_scheme \<Rightarrow> host_event list \<Rightarrow> bytes" where
  "captured s evs = (if capture_host_bytes (shared_of s) then host_bytes evs else [])"

lemma captured_same [simp]: "captured (s\<lparr>pending_bytes := pb\<rparr>) evs = captured s evs"
  by (simp add: captured_def)

lemma feed_events_eq:
  "feed_events ops s d evs = (replay ops d evs, s\<lparr>pending_bytes := pending_bytes s @ captured s evs\<rparr>)"
proof (induction evs arbitrary: s d)
  case (Cons ev evs)
  then show ?case by (cases ev) (simp_all add: captured_def)
qed (simp add: captured_def)

lemma advance_display_eq:
  "advance_display ops s newest =
     (case suffix_over newest (engine_at s) of
        Some [] \<Rightarrow> (False, s)
      | Some suf \<Rightarrow>
          (True, s\<lparr>display := replay ops (display s) suf, pending_bytes := pending_bytes s @ captured s suf,
                   engine_at := newest\<rparr>)
      | None \<Rightarrow>
          (True, s\<lparr>display := replay ops (new_blank ops (display_cols ops (display s)) (display_rows ops (display s))) (log_iter newest),
                   pending_bytes := pending_bytes s @ captured s (log_iter newest), engine_at := newest\<rparr>))"
  by (auto simp: advance_display_def feed_events_eq Let_def split: option.split list.split)

lemma show_latest_frame [simp]:
  "socks (show_latest ops s num) = socks s" "loop_rtt (show_latest ops s num) = loop_rtt s"
  "loop_mtu (show_latest ops s num) = loop_mtu s" "sender (show_latest ops s num) = sender s"
  "receiver (show_latest ops s num) = receiver s" "next_addr (show_latest ops s num) = next_addr s"
  "fatal (show_latest ops s num) = fatal s" "expected_receiver_seq (show_latest ops s num) = expected_receiver_seq s"
  "saved_timestamp (show_latest ops s num) = saved_timestamp s"
  "last_heard_ms (shared_of (show_latest ops s num)) = last_heard_ms (shared_of s)"
  "rtt_ms_biased (shared_of (show_latest ops s num)) = rtt_ms_biased (shared_of s)"
  by (auto simp: show_latest_def Let_def advance_display_eq session_retire_def bump_frame_def emit_def
      split: option.split list.split prod.split)

lemma note_ack_frame [simp]:
  "socks (note_ack s ack) = socks s" "loop_rtt (note_ack s ack) = loop_rtt s" "loop_mtu (note_ack s ack) = loop_mtu s"
  "receiver (note_ack s ack) = receiver s" "next_addr (note_ack s ack) = next_addr s" "fatal (note_ack s ack) = fatal s"
  "expected_receiver_seq (note_ack s ack) = expected_receiver_seq s" "saved_timestamp (note_ack s ack) = saved_timestamp s"
  "last_heard_ms (shared_of (note_ack s ack)) = last_heard_ms (shared_of s)"
  "rtt_ms_biased (shared_of (note_ack s ack)) = rtt_ms_biased (shared_of s)"
  "engine_at (note_ack s ack) = engine_at s" "display (note_ack s ack) = display s" "prediction (note_ack s ack) = prediction s"
  "loop_events (note_ack s ack) = loop_events s" "pending_bytes (note_ack s ack) = pending_bytes s"
  "sender (note_ack s ack) = process_acknowledgment_through (sender s) ack"
  by (simp_all add: note_ack_def Let_def)

text \<open>Handling an instruction never touches the link: sockets, timing, and the sequence gate.\<close>

lemma handle_instruction_frame [simp]:
  "socks (handle_instruction e s inst now) = socks s" "loop_rtt (handle_instruction e s inst now) = loop_rtt s"
  "loop_mtu (handle_instruction e s inst now) = loop_mtu s"
  "expected_receiver_seq (handle_instruction e s inst now) = expected_receiver_seq s"
  "saved_timestamp (handle_instruction e s inst now) = saved_timestamp s"
  "last_heard_ms (shared_of (handle_instruction e s inst now)) = last_heard_ms (shared_of s)"
  "rtt_ms_biased (shared_of (handle_instruction e s inst now)) = rtt_ms_biased (shared_of s)"
  by (auto simp: handle_instruction_def Let_def split: prod.split sum.split recv_outcome.split)

text \<open>The shape of the sender's queue, as far as bounds need it.\<close>

definition queue_ok :: "'s ssp_sender \<Rightarrow> bool" where
  "queue_ok s \<longleftrightarrow> sent_states s \<noteq> [] \<and> length (sent_states s) \<le> SENT_QUEUE_CAP"

section \<open>The link\<close>

definition link_inv :: "('c, 'd) session_loop \<Rightarrow> bool" where
  "link_inv s \<longleftrightarrow> socks s \<noteq> [] \<and> length (socks s) \<le> MAX_PORTS_OPEN \<and> rtt_ok (loop_rtt s) \<and>
     loop_mtu s \<in> {1252, 1216, DEFAULT_SEND_MTU}"

lemma link_inv_cong:
  "socks t = socks s \<Longrightarrow> loop_rtt t = loop_rtt s \<Longrightarrow> loop_mtu t = loop_mtu s \<Longrightarrow> link_inv t = link_inv s"
  by (simp add: link_inv_def)

lemma drop_oldest_eq: "drop_oldest ss = drop (length ss - MAX_PORTS_OPEN) ss"
proof (induction ss rule: drop_oldest.induct)
  case (1 ss)
  show ?case
  proof (cases "length ss > MAX_PORTS_OPEN")
    case True
    with 1 have "drop_oldest ss = drop (length (drop 1 ss) - MAX_PORTS_OPEN) (drop 1 ss)"
      by (subst drop_oldest.simps) simp
    also have "\<dots> = drop (length ss - MAX_PORTS_OPEN) ss" using True by (simp add: drop_drop Suc_diff_Suc)
    finally show ?thesis .
  qed (subst drop_oldest.simps, simp)
qed

lemma note_fresh_rtt: "rtt_ok (loop_rtt s) \<Longrightarrow> rtt_ok (loop_rtt (note_fresh s seq header now now'))"
  by (auto simp: note_fresh_def note_reply_def Let_def split: option.split dest: rtt_sample_range intro!: rtt_update_ok)

lemma note_fresh_frame [simp]:
  "socks (note_fresh s seq header now now') = socks s" "loop_mtu (note_fresh s seq header now now') = loop_mtu s"
  "sender (note_fresh s seq header now now') = sender s" "receiver (note_fresh s seq header now now') = receiver s"
  "next_addr (note_fresh s seq header now now') = next_addr s" "engine_at (note_fresh s seq header now now') = engine_at s"
  "display (note_fresh s seq header now now') = display s" "prediction (note_fresh s seq header now now') = prediction s"
  "loop_events (note_fresh s seq header now now') = loop_events s" "fatal (note_fresh s seq header now now') = fatal s"
  "pending_bytes (note_fresh s seq header now now') = pending_bytes s"
  by (simp_all add: note_fresh_def note_reply_def Let_def split: option.split)

lemma session_predict_frame [simp]:
  "socks (session_predict ops s bs) = socks s" "loop_rtt (session_predict ops s bs) = loop_rtt s"
  "loop_mtu (session_predict ops s bs) = loop_mtu s" "sender (session_predict ops s bs) = sender s"
  "receiver (session_predict ops s bs) = receiver s" "next_addr (session_predict ops s bs) = next_addr s"
  "engine_at (session_predict ops s bs) = engine_at s" "display (session_predict ops s bs) = display s"
  "loop_events (session_predict ops s bs) = loop_events s" "fatal (session_predict ops s bs) = fatal s"
  "commands (session_predict ops s bs) = commands s" "pending_bytes (session_predict ops s bs) = pending_bytes s"
  by (simp_all add: session_predict_def split: prod.split)

lemma handle_command_frame [simp]:
  "socks (handle_command ops s now c) = socks s" "loop_rtt (handle_command ops s now c) = loop_rtt s"
  "loop_mtu (handle_command ops s now c) = loop_mtu s" "receiver (handle_command ops s now c) = receiver s"
  "next_addr (handle_command ops s now c) = next_addr s" "engine_at (handle_command ops s now c) = engine_at s"
  "display (handle_command ops s now c) = display s" "loop_events (handle_command ops s now c) = loop_events s"
  "fatal (handle_command ops s now c) = fatal s"
  by (simp_all add: handle_command_def split: session_command.split)

lemma run_tick_frame:
  assumes "run_tick e s now = (out, s')"
  shows "socks s' = socks s" "loop_rtt s' = loop_rtt s" "loop_mtu s' = loop_mtu s" "receiver s' = receiver s"
    "next_addr s' = next_addr s" "engine_at s' = engine_at s" "display s' = display s" "prediction s' = prediction s"
    "loop_events s' = loop_events s" "fatal s' = fatal s"
  using assms by (auto simp: run_tick_def Let_def split: prod.splits)

lemma outgoing_reply_eq: "\<exists>st. snd (outgoing_reply s now) = s\<lparr>saved_timestamp := st\<rparr>"
  by (rule exI [of _ "saved_timestamp (snd (outgoing_reply s now))"])
    (simp add: outgoing_reply_def split: option.split prod.split)

lemma send_fragment_eq:
  "\<exists>st k m f dgs. send_fragment e s frag clk =
     s\<lparr>saved_timestamp := st, sealer := k, loop_mtu := m, fatal := f, sent_datagrams := sent_datagrams s @ dgs\<rparr> \<and>
     m \<in> {loop_mtu s, DEFAULT_SEND_MTU} \<and>
     (\<forall>(i, d) \<in> set dgs. i = last (socks s) \<and>
        (\<exists>header k'. seal (env_enc e) (sealer s) header (fragment_tostring frag) = (Inr d, k')))"
proof -
  obtain now now' res where c: "clk = (now, now', res)" by (cases clk) auto
  obtain reply s1 where r: "outgoing_reply s now = (reply, s1)" by fastforce
  with outgoing_reply_eq [of s now] obtain st where s1: "s1 = s\<lparr>saved_timestamp := st\<rparr>" by auto
  let ?h = "\<lparr>timestamp = timestamp16 now', timestamp_reply = (case reply of Some r \<Rightarrow> r | None \<Rightarrow> u16_max)\<rparr>"
  obtain x k where sl: "seal (env_enc e) (sealer s) ?h (fragment_tostring frag) = (x, k)" by fastforce
  show ?thesis
  proof (cases x)
    case (Inl err)
    then have eq: "send_fragment e s frag clk = s\<lparr>saved_timestamp := st, sealer := k, loop_mtu := loop_mtu s,
        fatal := Some ''mosh: session exhausted its key budget'', sent_datagrams := sent_datagrams s @ []\<rparr>"
      using sl by (simp add: send_fragment_def c r s1 Let_def)
    show ?thesis by (intro exI conjI, rule eq) simp_all
  next
    case (Inr d)
    then have eq: "send_fragment e s frag clk = s\<lparr>saved_timestamp := st, sealer := k,
        loop_mtu := (case res of SendErr raw \<Rightarrow> if is_emsgsize (env_platform e) raw then DEFAULT_SEND_MTU else loop_mtu s | SendOk \<Rightarrow> loop_mtu s),
        fatal := fatal s, sent_datagrams := sent_datagrams s @ [(last (socks s), d)]\<rparr>"
      using sl by (simp add: send_fragment_def c r s1 Let_def split: send_result.split)
    show ?thesis by (intro exI conjI, rule eq) (use sl Inr in \<open>auto split: send_result.split\<close>)
  qed
qed

lemma send_fragment_frame [simp]:
  "socks (send_fragment e s frag clk) = socks s" "loop_rtt (send_fragment e s frag clk) = loop_rtt s"
  "sender (send_fragment e s frag clk) = sender s" "receiver (send_fragment e s frag clk) = receiver s"
  "next_addr (send_fragment e s frag clk) = next_addr s" "engine_at (send_fragment e s frag clk) = engine_at s"
  "display (send_fragment e s frag clk) = display s" "prediction (send_fragment e s frag clk) = prediction s"
  "loop_events (send_fragment e s frag clk) = loop_events s"
  "loop_fragmenter (send_fragment e s frag clk) = loop_fragmenter s"
  using send_fragment_eq [of e s frag clk] by auto

lemma hop_frame [simp]:
  "loop_rtt (maybe_hop_port s now b) = loop_rtt s" "loop_mtu (maybe_hop_port s now b) = loop_mtu s"
  "sender (maybe_hop_port s now b) = sender s" "receiver (maybe_hop_port s now b) = receiver s"
  "next_addr (maybe_hop_port s now b) = next_addr s" "engine_at (maybe_hop_port s now b) = engine_at s"
  "display (maybe_hop_port s now b) = display s" "prediction (maybe_hop_port s now b) = prediction s"
  "loop_events (maybe_hop_port s now b) = loop_events s" "loop_fragmenter (maybe_hop_port s now b) = loop_fragmenter s"
  "sent_datagrams (maybe_hop_port s now b) = sent_datagrams s"
  by (simp_all add: maybe_hop_port_def split: option.split)

lemma prune_frame [simp]:
  "loop_rtt (prune_sockets s now) = loop_rtt s" "loop_mtu (prune_sockets s now) = loop_mtu s"
  "sender (prune_sockets s now) = sender s" "receiver (prune_sockets s now) = receiver s"
  "next_addr (prune_sockets s now) = next_addr s" "engine_at (prune_sockets s now) = engine_at s"
  "display (prune_sockets s now) = display s" "prediction (prune_sockets s now) = prediction s"
  "loop_events (prune_sockets s now) = loop_events s" "loop_fragmenter (prune_sockets s now) = loop_fragmenter s"
  "sent_datagrams (prune_sockets s now) = sent_datagrams s"
  by (simp_all add: prune_sockets_def Let_def)

lemma prune_socks:
  assumes "socks s \<noteq> []"
  shows "socks (prune_sockets s now) \<noteq> [] \<and> length (socks (prune_sockets s now)) \<le> MAX_PORTS_OPEN"
proof -
  have "0 < length (socks s)" using assms by simp
  then show ?thesis
    by (simp add: prune_sockets_def Let_def drop_oldest_eq MAX_PORTS_OPEN_def del: length_greater_0_conv) linarith
qed

lemma hop_socks: "socks s \<noteq> [] \<Longrightarrow> socks (maybe_hop_port s now b) \<noteq> []"
  by (simp add: maybe_hop_port_def split: option.split)

lemma run_wait_frame [simp]:
  "socks (snd (run_wait s now)) = socks s" "loop_rtt (snd (run_wait s now)) = loop_rtt s"
  "loop_mtu (snd (run_wait s now)) = loop_mtu s" "receiver (snd (run_wait s now)) = receiver s"
  "next_addr (snd (run_wait s now)) = next_addr s" "engine_at (snd (run_wait s now)) = engine_at s"
  "display (snd (run_wait s now)) = display s" "prediction (snd (run_wait s now)) = prediction s"
  "loop_events (snd (run_wait s now)) = loop_events s" "sent_datagrams (snd (run_wait s now)) = sent_datagrams s"
  by (simp_all add: run_wait_def split: prod.split)

text \<open>What draining the commands of a round leaves alone.\<close>

lemma drain_quiet: "loop_events (snd (drain_loop ops s now cs)) = loop_events s"
  by (induction cs arbitrary: s) simp_all

lemma drain_stops: "fst (drain_loop ops s now cs) \<longleftrightarrow> Terminate \<notin> set cs"
  by (induction cs arbitrary: s) auto

lemma drain_commands_left: "fst (drain_loop ops s now cs) \<Longrightarrow> commands (snd (drain_loop ops s now cs)) = []"
  by (induction cs arbitrary: s) (simp_all split: if_splits)

lemma handle_command_sent: "sent_datagrams (handle_command ops s now c) = sent_datagrams s"
  by (auto simp: handle_command_def session_predict_def split: session_command.split prod.split)

lemma drain_sent: "sent_datagrams (snd (drain_loop ops s now cs)) = sent_datagrams s"
  by (induction cs arbitrary: s) (simp_all add: handle_command_sent)

lemma queue_command: "queue_ok (sender s) \<Longrightarrow> queue_ok (sender (handle_command ops s now c))"
  by (simp add: handle_command_def queue_ok_def set_current_state_def start_shutdown_def split: session_command.split)

lemma drain_frame:
  "queue_ok (sender s) \<Longrightarrow> queue_ok (sender (snd (drain_loop ops s now cs)))"
  "loop_mtu (snd (drain_loop ops s now cs)) = loop_mtu s" "socks (snd (drain_loop ops s now cs)) = socks s"
  by (induction cs arbitrary: s) (simp_all add: queue_command)

lemma drain_fatal: "fatal (snd (drain_loop ops s now cs)) = fatal s"
  by (induction cs arbitrary: s) simp_all

lemma drained_round:
  assumes "drain_commands ops (woken ops s w) now = (go, s1)"
  shows "go \<longleftrightarrow> Terminate \<notin> set (commands s @ wake_commands w)" "go \<Longrightarrow> commands s1 = []"
    "loop_events s1 = loop_events s" "sent_datagrams s1 = sent_datagrams s" "fatal s1 = fatal s"
    "loop_mtu s1 = loop_mtu s" "socks s1 = socks s" "queue_ok (sender s) \<Longrightarrow> queue_ok (sender s1)"
  using assms drain_stops [of ops "woken ops s w" now "commands s @ wake_commands w"]
    drain_commands_left [of ops "woken ops s w" now "commands s @ wake_commands w"]
    drain_quiet [of ops "woken ops s w" now "commands s @ wake_commands w"] drain_sent [of ops "woken ops s w" now "commands s @ wake_commands w"]
    drain_fatal [of ops "woken ops s w" now "commands s @ wake_commands w"]
    drain_frame [where ops = ops and s = "woken ops s w" and now = now and cs = "commands s @ wake_commands w"]
  by (simp_all add: drain_commands_def)

text \<open>The opener of a session never changes.\<close>

lemma opener_frame [simp]:
  "opener (note_fresh s seq header now now') = opener s"
  "opener (handle_command ops s now c) = opener s"
  "opener (send_fragment e s f clk) = opener s"
  "opener (maybe_hop_port s now b) = opener s"
  "opener (prune_sockets s now) = opener s"
  "opener (show_latest ops s num) = opener s"
  "opener (snd (run_wait s now)) = opener s"
  using send_fragment_eq [of e s f clk]
  by (auto simp: note_fresh_def note_reply_def handle_command_def session_predict_def maybe_hop_port_def
      prune_sockets_def run_wait_def show_latest_def advance_display_eq session_retire_def bump_frame_def emit_def Let_def
      split: option.split session_command.split prod.split list.split)

lemma run_tick_opener: "run_tick e s now = (out, s') \<Longrightarrow> opener s' = opener s"
  by (auto simp: run_tick_def Let_def split: prod.splits)

lemma instruction_opener [simp]: "opener (handle_instruction e s inst now) = opener s"
  by (auto simp: handle_instruction_def note_ack_def Let_def split: prod.split sum.split recv_outcome.split)

lemma datagram_opener [simp]: "opener (handle_datagram e s a) = opener s"
  by (auto simp: handle_datagram_def handle_fragment_def Let_def split: prod.split sum.split option.split)

lemma drain_loop_opener [simp]: "opener (snd (drain_loop ops s now cs)) = opener s"
  by (induction cs arbitrary: s) simp_all

lemma send_fragments_opener [simp]: "opener (send_fragments e s out clk) = opener s"
  by (induction out arbitrary: s clk) simp_all

lemma drain_socket_opener: "opener (snd (drain_socket e s k arrivals)) = opener s"
  by (induction arrivals arbitrary: s k) (simp_all add: Let_def)

section \<open>Invariants of the loop\<close>

text \<open>What the round after the drained commands sends.\<close>

definition round_output :: "('c, 'd) env \<Rightarrow> ('c, 'd) session_loop \<Rightarrow> wake \<Rightarrow> fragment list" where
  "round_output e s w = fst (run_tick e (snd (drain_commands (env_display e) (woken (env_display e) s w) (wake_now w))) (wake_now w))"

text \<open>Every fragment that opens out of a datagram is one the peer may have sent.\<close>

definition genuine_arrival :: "('c, 'd) env \<Rightarrow> 'c mosh_opener \<Rightarrow> (fragment \<Rightarrow> bool) \<Rightarrow> arrival \<Rightarrow> bool" where
  "genuine_arrival e op genuine a \<longleftrightarrow>
     (\<forall>seq header payload f. open_datagram (env_dec e) op (fst a) = Inr (seq, header, payload) \<longrightarrow>
        fragment_parse payload = Inr f \<longrightarrow> genuine f)"

definition genuine_wake :: "('c, 'd) env \<Rightarrow> 'c mosh_opener \<Rightarrow> (fragment \<Rightarrow> bool) \<Rightarrow> wake \<Rightarrow> bool" where
  "genuine_wake e op genuine w \<longleftrightarrow>
     (\<forall>a. wake_newest w = Some a \<longrightarrow> genuine_arrival e op genuine (read_datagram a)) \<and>
     (\<forall>i. \<forall>a \<in> set (wake_old w i). genuine_arrival e op genuine (read_datagram a))"

lemma genuine_any [simp]: "genuine_arrival e op (\<lambda>_. True) a" "genuine_wake e op (\<lambda>_. True) w"
  by (simp_all add: genuine_arrival_def genuine_wake_def)

text \<open>An invariant kept as long as the peer's fragments are genuine.\<close>

locale guarded_invariant =
  fixes e :: "('c, 'd) env" and inv :: "nat \<Rightarrow> ('c, 'd) session_loop \<Rightarrow> bool" and genuine :: "fragment \<Rightarrow> bool"
  assumes noted: "inv n s \<Longrightarrow> inv n (note_fresh s seq header now now')"
    and arrived: "inv n s \<Longrightarrow> genuine f \<Longrightarrow> inv n (handle_fragment e s f now)"
begin

lemma datagram:
  assumes "inv n s" and "genuine_arrival e (opener s) genuine a"
  shows "inv n (handle_datagram e s a)"
  using assms
  by (auto simp: handle_datagram_def genuine_arrival_def Let_def intro: noted intro!: arrived split: prod.split sum.split)

lemma socket:
  "inv n s \<Longrightarrow> \<forall>a \<in> set arrivals. genuine_arrival e (opener s) genuine (read_datagram a) \<Longrightarrow>
   inv n (snd (drain_socket e s k arrivals))"
  by (induction arrivals arbitrary: s k) (simp_all add: Let_def datagram)

lemma sockets:
  "inv n s \<Longrightarrow> \<forall>i. \<forall>a \<in> set (old i). genuine_arrival e (opener s) genuine (read_datagram a) \<Longrightarrow>
   inv n (snd (drain_sockets e s k old idxs))"
proof (induction idxs arbitrary: s k)
  case (Cons idx idxs)
  obtain k1 s1 where d: "drain_socket e s k (old idx) = (k1, s1)" by fastforce
  then have "opener s1 = opener s" using drain_socket_opener [of e s k "old idx"] by simp
  with Cons.IH [of s1] socket [of n s "old idx" k] Cons.prems d show ?case by simp
qed simp

end

text \<open>An invariant of whole rounds: what the peer sends is \<open>genuine\<close>, what the tick makes is
  \<open>sendable\<close>, and at most \<open>limit\<close> ticks are made.\<close>

locale round_invariant = guarded_invariant +
  fixes sendable :: "fragment list \<Rightarrow> bool" and limit :: nat
  assumes more: "inv n s \<Longrightarrow> inv (Suc n) s"
    and sent: "inv n s \<Longrightarrow> n < limit \<Longrightarrow> run_tick e s now = (out, s') \<Longrightarrow> sendable out \<Longrightarrow>
      inv (Suc n) (send_fragments e s' out clk)"
    and moved: "inv n s \<Longrightarrow> inv n (prune_sockets (maybe_hop_port s now b) now)"
    and emitted: "inv n s \<Longrightarrow> inv n (emit s ev)"
    and computed: "inv n s \<Longrightarrow> inv n (snd (run_wait s now))"
    and set_timeout: "inv n s \<Longrightarrow> inv n (s\<lparr>read_timeout := t\<rparr>)"
begin

lemma received:
  assumes "inv n s" and "genuine_wake e (opener s) genuine w"
  shows "inv n (receive e s wt w)"
proof -
  let ?s1 = "s\<lparr>read_timeout := wt\<rparr>"
  define s2 where "s2 = (case wake_newest w of Some a \<Rightarrow> handle_datagram e ?s1 (read_datagram a) | None \<Rightarrow> ?s1)"
  have "inv n s2"
    using assms set_timeout [OF assms(1), of wt] unfolding s2_def
    by (auto simp: genuine_wake_def intro!: datagram split: option.split)
  moreover have "opener s2 = opener s" by (simp add: s2_def split: option.split)
  ultimately show ?thesis
    using assms(2) by (auto simp: receive_def Let_def s2_def [symmetric] genuine_wake_def intro!: sockets)
qed

lemma round_drained:
  assumes "drain_commands (env_display e) (woken (env_display e) s w) (wake_now w) = (go, s1)" and "inv n s1" and "n < limit"
    and "genuine_wake e (opener s) genuine w" and "sendable (round_output e s w)"
  shows "inv (Suc n) (snd (run_round e s w))"
proof (cases rule: run_round_split [of e s w])
  case (stages go' s1' out s2 s4 wt s5)
  have s1: "s1' = s1" "go' = go" using stages(1) assms(1) by simp_all
  have out: "sendable out" using assms(1,5) stages(2) by (simp add: round_output_def s1)
  have 4: "inv (Suc n) s4"
    unfolding stages(3) by (intro moved sent [OF assms(2,3) _ out]) (use stages(2) in \<open>simp add: s1\<close>)
  have op: "opener s5 = opener s"
  proof -
    have "opener s1 = opener s"
      using assms(1) drain_loop_opener [of "env_display e" "woken (env_display e) s w" "wake_now w" "commands (woken (env_display e) s w)"]
      by (simp add: drain_commands_def)
    then show ?thesis
      using stages(2,4) run_tick_opener [of e s1 "wake_now w"] opener_frame(7) [of s4 "wake_now w"]
      by (simp add: stages(3) s1)
  qed
  have 5: "inv (Suc n) (receive e s5 wt w)"
    using computed [OF 4, of "wake_now w"] stages(4) assms(4) by (intro received) (simp_all add: op)
  show ?thesis using more [OF assms(2)] 4 5 unfolding stages(5) s1 by (auto intro: emitted split: option.split)
qed

end

text \<open>An invariant that holds whatever arrives.\<close>

locale datagram_invariant =
  fixes e :: "('c, 'd) env" and inv :: "nat \<Rightarrow> ('c, 'd) session_loop \<Rightarrow> bool"
  assumes fresh: "inv n s \<Longrightarrow> inv n (note_fresh s seq header now now')"
    and assembled: "inv n s \<Longrightarrow> inv n (s\<lparr>assembly := a\<rparr>)"
    and instruction: "inv n s \<Longrightarrow> inv n (handle_instruction e s inst now)"

sublocale datagram_invariant \<subseteq> guarded: guarded_invariant e inv "\<lambda>_. True"
  by unfold_locales (auto simp: handle_fragment_def intro: fresh assembled instruction split: prod.split option.split)

locale loop_invariant = datagram_invariant +
  fixes limit :: nat and permitted :: "i32 \<Rightarrow> i32 \<Rightarrow> bool"
  assumes later: "inv n s \<Longrightarrow> inv (Suc n) s"
    and clock: "inv n s \<Longrightarrow> inv n (s\<lparr>shared_of := (shared_of s)\<lparr>now_ms := t\<rparr>\<rparr>)"
    and command: "inv n s \<Longrightarrow> inv n (handle_command (env_display e) s now c)"
    and consumed: "inv n s \<Longrightarrow> inv n (s\<lparr>commands := cs\<rparr>)"
    and resized: "inv n s \<Longrightarrow> permitted width height \<Longrightarrow> inv n (resize_session (env_display e) s width height)"
    and ticked: "inv n s \<Longrightarrow> n < limit \<Longrightarrow> run_tick e s now = (out, s') \<Longrightarrow> inv (Suc n) s'"
    and fragment: "inv n s \<Longrightarrow> inv n (send_fragment e s f clk)"
    and hopped: "inv n s \<Longrightarrow> inv n (prune_sockets (maybe_hop_port s now b) now)"
    and event: "inv n s \<Longrightarrow> inv n (emit s ev)"
    and waited: "inv n s \<Longrightarrow> inv n (snd (run_wait s now))"
    and timeout: "inv n s \<Longrightarrow> inv n (s\<lparr>read_timeout := t\<rparr>)"
begin

lemma calls:
  "inv n s \<Longrightarrow> \<forall>width height. ResizeTo width height \<in> set cs \<longrightarrow> permitted width height \<Longrightarrow>
   inv n (foldl (called (env_display e)) s cs)"
proof (induction cs arbitrary: s)
  case (Cons c cs)
  have "inv n (called (env_display e) s c)"
    using Cons.prems consumed [of n s "commands s @ [c]"] by (cases c) (auto simp: resized command_def)
  with Cons show ?case by simp
qed simp

lemma awake:
  "inv n s \<Longrightarrow> \<forall>width height. ResizeTo width height \<in> set (wake_commands w) \<longrightarrow> permitted width height \<Longrightarrow>
   inv n (woken (env_display e) s w)"
  unfolding woken_def by (rule calls [OF clock])

lemma drained: "inv n s \<Longrightarrow> inv n (snd (drain_loop (env_display e) s now cs))"
  by (induction cs arbitrary: s) (simp_all add: command consumed)

lemma fragments: "inv n s \<Longrightarrow> inv n (send_fragments e s out clk)"
  by (induction out arbitrary: s clk) (simp_all add: fragment)

end

sublocale loop_invariant \<subseteq> staged: round_invariant e inv "\<lambda>_. True" "\<lambda>_. True" limit
  by unfold_locales (auto intro: later ticked hopped event waited timeout fragments)

context loop_invariant
begin

lemma round:
  assumes "inv n s" and "n < limit" and "\<forall>width height. ResizeTo width height \<in> set (wake_commands w) \<longrightarrow> permitted width height"
  shows "inv (Suc n) (snd (run_round e s w))"
proof -
  obtain go s1 where d: "drain_commands (env_display e) (woken (env_display e) s w) (wake_now w) = (go, s1)" by fastforce
  then have "inv n s1"
    using drained [OF awake [OF assms(1,3)], of "wake_now w" "commands s @ wake_commands w"] by (simp add: drain_commands_def)
  with staged.round_drained [OF d _ assms(2)] show ?thesis by simp
qed

lemma rounds:
  "inv n s \<Longrightarrow> n + length ws \<le> limit \<Longrightarrow>
   \<forall>w \<in> set ws. \<forall>width height. ResizeTo width height \<in> set (wake_commands w) \<longrightarrow> permitted width height \<Longrightarrow>
   inv (n + length ws) (snd (run e s ws))"
proof (induction ws arbitrary: n s)
  case (Cons w ws)
  then have r: "inv (Suc n) (snd (run_round e s w))" by (intro round) simp_all
  have up: "inv (Suc n + k) s' " if "inv (Suc n) s'" for s' k
    using that by (induction k) (simp_all add: later)
  show ?case
    using Cons.IH [OF r] Cons.prems(2,3) up [OF r, of "length ws"] by (auto split: prod.split bool.split)
qed simp

end

interpretation link: loop_invariant e "\<lambda>_. link_inv" limit "\<lambda>_ _. True"
  for e :: "('c, 'd) env" and limit
proof
  fix s s' :: "('c, 'd) session_loop" and now now' b f clk seq header out
  show "link_inv s \<Longrightarrow> link_inv (note_fresh s seq header now now')"
    by (simp add: link_inv_def note_fresh_rtt)
  show "link_inv s \<Longrightarrow> run_tick e s now = (out, s') \<Longrightarrow> link_inv s'"
    by (simp add: link_inv_def run_tick_frame)
  show "link_inv s \<Longrightarrow> link_inv (send_fragment e s f clk)"
    using send_fragment_eq [of e s f clk] by (auto simp: link_inv_def)
  show "link_inv s \<Longrightarrow> link_inv (prune_sockets (maybe_hop_port s now b) now)"
    by (simp add: link_inv_def prune_socks hop_socks)
qed (simp_all add: link_inv_def emit_def)

section \<open>The display\<close>

definition logs :: "host_stream_state ssp_receiver \<Rightarrow> event_log set" where
  "logs r = (\<lambda>t. host_log (ts_state t)) ` set (received r)"

definition log_inv :: "('c, 'd) session_loop \<Rightarrow> bool" where
  "log_inv s \<longleftrightarrow> receiver_inv (receiver s) \<and> log_family (next_addr s) (insert (engine_at s) (logs (receiver s)))"

text \<open>The display has drawn exactly the newest state: the events of its log, with permitted local resizes.\<close>

definition shows_newest ::
  "'d mosh_display \<Rightarrow> (i32 \<Rightarrow> i32 \<Rightarrow> bool) \<Rightarrow> 'd \<Rightarrow> ('c, 'd) session_loop \<Rightarrow> bool" where
  "shows_newest ops R d0 s \<longleftrightarrow>
     log_iter (engine_at s) = log_iter (host_log (latest_state (receiver s))) \<and>
     mixed ops R d0 (display s) (log_iter (host_log (latest_state (receiver s))))"

lemma host_apply_error_keeps: "host_apply_string free st d = (Inl err, free') \<Longrightarrow> free' = free"
  by (auto simp: host_apply_string_def split: sum.splits prod.splits)

lemma process_logs:
  assumes inv: "receiver_inv r" and fam: "log_family free (insert l (logs r))"
    and step: "process_instruction host_apply_string free r inst now = (res, r', free')"
  shows "log_family free' (insert l (logs r'))"
proof -
  have sub: "log_family free (insert l (logs r'))" if "set (received r') \<subseteq> set (received r)"
    using that by (intro log_family_subset [OF fam]) (auto simp: logs_def)
  show ?thesis using inv step
  proof (cases rule: process_instruction_cases)
    case (inserted outcome reference st)
    let ?L = "insert (host_log st) (insert l (logs r))"
    have ref: "host_log (ts_state reference) \<in> insert l (logs r)"
      using inserted(5) by (auto simp: logs_def kept_def)
    have "log_family free' ?L"
    proof (cases "diff inst = []")
      case True
      with inserted(7) ref fam show ?thesis by (simp add: insert_absorb)
    next
      case False
      with inserted(7) have "host_apply_string free (ts_state reference) (diff inst) = (Inr st, free')" by simp
      then show ?thesis using host_apply_string_effect [OF fam ref] by blast
    qed
    moreover have "insert l (logs r') \<subseteq> ?L" using inserted(8) by (auto simp: logs_def kept_def)
    ultimately show ?thesis by (rule log_family_subset)
  next
    case (bad_diff err reference)
    with host_apply_error_keeps [OF bad_diff(6)] sub show ?thesis by (auto simp: kept_def)
  qed (use sub fam in \<open>auto simp: kept_def\<close>)
qed

lemma show_latest_engine:
  "engine_at (show_latest ops s num) \<in> {engine_at s, host_log (latest_state (receiver s))}"
  by (auto simp: show_latest_def Let_def advance_display_eq session_retire_def bump_frame_def emit_def
      split: option.split list.split prod.split)

lemma latest_log: "receiver_inv r \<Longrightarrow> host_log (latest_state r) \<in> logs r"
  by (simp add: logs_def latest_state_def latest_in)

lemma log_inv_show:
  assumes "log_inv s"
  shows "log_inv (show_latest ops s num)"
proof -
  have "insert (engine_at (show_latest ops s num)) (logs (receiver s)) \<subseteq> insert (engine_at s) (logs (receiver s))"
    using show_latest_engine [of ops s num] latest_log assms by (auto simp: log_inv_def)
  with assms show ?thesis by (auto simp: log_inv_def intro: log_family_subset)
qed

lemma show_latest_shows:
  assumes inv: "log_inv s" and before: "mixed ops R d0 (display s) (log_iter (engine_at s))"
  shows "shows_newest ops R d0 (show_latest ops s num)"
proof -
  let ?new = "host_log (latest_state (receiver s))"
  have fam: "log_family (next_addr s) (insert (engine_at s) (logs (receiver s)))" "?new \<in> logs (receiver s)"
    using inv latest_log by (auto simp: log_inv_def)
  have suf: "log_iter ?new = log_iter (engine_at s) @ suf" if "suffix_over ?new (engine_at s) = Some suf" for suf
    using suffix_over_SomeD [OF _ _ _ that] log_familyD [OF fam(1)] fam(2) by blast
  have disp: "display (show_latest ops s num) =
      (case suffix_over ?new (engine_at s) of
         Some suf \<Rightarrow> replay ops (display s) suf
       | None \<Rightarrow> replay ops (new_blank ops (display_cols ops (display s)) (display_rows ops (display s))) (log_iter ?new))"
    and eng: "engine_at (show_latest ops s num) = (if suffix_over ?new (engine_at s) = Some [] then engine_at s else ?new)"
    by (auto simp: show_latest_def Let_def advance_display_eq session_retire_def bump_frame_def emit_def
        split: option.split list.split prod.split)
  show ?thesis
  proof (cases "suffix_over ?new (engine_at s)")
    case None
    then show ?thesis using mixed_replay [OF mixed.blank] by (auto simp: shows_newest_def disp eng)
  next
    case (Some s')
    with mixed_replay [OF before, of s'] suf [OF Some] show ?thesis by (auto simp: shows_newest_def disp eng)
  qed
qed

definition display_inv ::
  "'d mosh_display \<Rightarrow> (i32 \<Rightarrow> i32 \<Rightarrow> bool) \<Rightarrow> 'd \<Rightarrow> ('c, 'd) session_loop \<Rightarrow> bool" where
  "display_inv ops R d0 s \<longleftrightarrow> log_inv s \<and> shows_newest ops R d0 s"

lemma display_inv_cong:
  "receiver t = receiver s \<Longrightarrow> next_addr t = next_addr s \<Longrightarrow> engine_at t = engine_at s \<Longrightarrow> display t = display s \<Longrightarrow>
   display_inv ops R d0 t = display_inv ops R d0 s"
  by (simp add: display_inv_def log_inv_def shows_newest_def)

lemma display_inv_mono: "display_inv ops R d0 s \<Longrightarrow> (\<And>w h. R w h \<Longrightarrow> Q w h) \<Longrightarrow> display_inv ops Q d0 s"
  by (auto simp: display_inv_def shows_newest_def intro: mixed_mono)

text \<open>An instruction either advances the newest state, which is then shown, or leaves it and the screen alone.\<close>

lemma instruction_stages:
  assumes inv: "log_inv s"
  obtains
    (shown) s3 n where "log_inv s3" "handle_instruction e s inst now = show_latest (env_display e) s3 n"
      "display s3 = display s" "pending_bytes s3 = pending_bytes s" "prediction s3 = prediction s" "engine_at s3 = engine_at s"
      "frame_version (shared_of s3) = frame_version (shared_of s)"
      "capture_host_bytes (shared_of s3) = capture_host_bytes (shared_of s)"
  | (kept) t where "handle_instruction e s inst now = t" "log_inv t" "latest_state (receiver t) = latest_state (receiver s)"
      "display t = display s" "pending_bytes t = pending_bytes s" "prediction t = prediction s" "engine_at t = engine_at s"
      "frame_version (shared_of t) = frame_version (shared_of s)"
      "capture_host_bytes (shared_of t) = capture_host_bytes (shared_of s)"
proof (cases "protocol_version inst \<noteq> MOSH_PROTOCOL_VERSION")
  case True
  with inv show thesis by (intro kept [OF refl]) (simp_all add: handle_instruction_def log_inv_def)
next
  case False
  obtain res r' free' where st: "process_instruction host_apply_string (next_addr s) (receiver s) inst now = (res, r', free')"
    by (metis surj_pair)
  have rinv: "receiver_inv (receiver s)" and fam: "log_family (next_addr s) (insert (engine_at s) (logs (receiver s)))"
    using inv by (simp_all add: log_inv_def)
  define s2 where "s2 = (note_ack s (ack_num inst))\<lparr>receiver := r', next_addr := free'\<rparr>"
  have l2: "log_inv s2"
    using process_logs [OF rinv fam st] process_instruction_inv [OF rinv st] by (simp add: s2_def log_inv_def)
  show thesis
  proof (cases "\<exists>n b st'. res = Inr (Latest n b st')")
    case True
    then obtain n b st' where res: "res = Inr (Latest n b st')" by blast
    let ?s3 = "s2\<lparr>sender := apply_recv_outcome (sender s2) (Latest n b st') now\<rparr>"
    have "handle_instruction e s inst now = show_latest (env_display e) ?s3 n"
      using False by (simp add: handle_instruction_def st res s2_def Let_def)
    moreover have "log_inv ?s3" using l2 by (simp add: log_inv_def)
    ultimately show thesis by (intro shown [of ?s3 n]) (simp_all add: s2_def note_ack_def Let_def)
  next
    case no: False
    have same: "latest_state r' = latest_state (receiver s)"
      using latest_unless_appended [OF rinv st no] by (simp add: latest_state_def)
    have keep: "\<exists>f sd. s2 = s2\<lparr>fatal := f, sender := sd\<rparr>"
      by (rule exI [of _ "fatal s2"], rule exI [of _ "sender s2"]) simp
    have fail: "\<exists>f' sd. s2\<lparr>fatal := f\<rparr> = s2\<lparr>fatal := f', sender := sd\<rparr>" for f
      by (rule exI [of _ f], rule exI [of _ "sender s2"]) simp
    have "\<exists>f sd. handle_instruction e s inst now = s2\<lparr>fatal := f, sender := sd\<rparr>"
      using no False keep fail unfolding handle_instruction_def Let_def note_ack_frame st s2_def [symmetric] prod.case
      by (auto split: sum.split recv_outcome.split)
    then obtain f sd where "handle_instruction e s inst now = s2\<lparr>fatal := f, sender := sd\<rparr>" by blast
    from kept [OF this] l2 show thesis by (simp add: log_inv_def s2_def same note_ack_def Let_def)
  qed
qed

lemma display_instruction:
  assumes inv: "display_inv (env_display e) R d0 s"
  shows "display_inv (env_display e) R d0 (handle_instruction e s inst now)"
proof (rule instruction_stages [of s e inst now])
  show "log_inv s" using inv by (simp add: display_inv_def)
next
  fix s3 n
  assume *: "log_inv s3" "handle_instruction e s inst now = show_latest (env_display e) s3 n" "display s3 = display s"
    "engine_at s3 = engine_at s"
  from inv have "mixed (env_display e) R d0 (display s) (log_iter (engine_at s))"
    by (simp add: display_inv_def shows_newest_def)
  with * show ?thesis
    unfolding display_inv_def by (intro conjI) (simp_all add: log_inv_show show_latest_shows)
next
  fix t assume "handle_instruction e s inst now = t" "log_inv t" "latest_state (receiver t) = latest_state (receiver s)"
    "display t = display s" "engine_at t = engine_at s"
  with inv show ?thesis by (simp add: display_inv_def shows_newest_def)
qed

interpretation shown: loop_invariant e "\<lambda>_. display_inv (env_display e) R d0" limit R
  for e :: "('c, 'd) env" and R d0 limit
proof
  fix s s' :: "('c, 'd) session_loop" and now out inst
  show "display_inv (env_display e) R d0 s \<Longrightarrow> display_inv (env_display e) R d0 (handle_instruction e s inst now)"
    by (rule display_instruction)
  show "display_inv (env_display e) R d0 s \<Longrightarrow> run_tick e s now = (out, s') \<Longrightarrow> display_inv (env_display e) R d0 s'"
    using display_inv_cong [of s' s] by (simp add: run_tick_frame)
  show "display_inv (env_display e) R d0 s \<Longrightarrow> R width height \<Longrightarrow>
      display_inv (env_display e) R d0 (resize_session (env_display e) s width height)" for width height
    by (auto simp: display_inv_def log_inv_def shows_newest_def resize_session_def command_def bump_frame_def Let_def
        intro: mixed.resized)
qed (simp_all add: display_inv_def log_inv_def shows_newest_def emit_def)

section \<open>What a tick touches\<close>

text \<open>A fragment that parses back and fits a datagram.\<close>

definition wireable :: "nat \<Rightarrow> fragment \<Rightarrow> bool" where
  "wireable mtu f \<longleftrightarrow> length (fragment_tostring f) \<le> mtu \<and> fragment_num f \<le> MAX_FRAGMENT_INDEX"

text \<open>What one send may change.\<close>

definition next_numbers :: "'s ssp_sender \<Rightarrow> u64 set" where
  "next_numbers s =
     {ts_num (last (sent_states s)),
      if shutdown_in_progress s then SHUTDOWN_NUM else ts_num (last (sent_states s)) + 1}"

definition small_step :: "nat \<Rightarrow> 's ssp_sender \<Rightarrow> fragment list \<Rightarrow> 's ssp_sender \<times> fragmenter \<times> fragment list \<Rightarrow> bool" where
  "small_step mtu s out res \<longleftrightarrow>
     (case res of (s', fr', out') \<Rightarrow>
        shutdown_in_progress s' = shutdown_in_progress s \<and> shutdown_start s' = shutdown_start s \<and>
        ts_num (last (sent_states s')) \<in> next_numbers s \<and> queue_ok s' \<and>
        (\<exists>frs. out' = out @ frs \<and> (\<forall>f \<in> set frs. wireable mtu f)))"

lemma make_fragments_small:
  "make_fragments zc fr inst mtu = (Inr frs, fr') \<Longrightarrow> f \<in> set frs \<Longrightarrow> wireable mtu f"
  using make_fragments_each [of zc fr inst mtu frs fr' f] by (simp add: wireable_def length_fragment_tostring)

lemma send_in_fragments_small:
  assumes "send_in_fragments zc s d old new mtu fr out = (s', fr', out')"
  shows "shutdown_in_progress s' = shutdown_in_progress s" "shutdown_start s' = shutdown_start s"
    "sent_states s' = sent_states s" "\<exists>frs. out' = out @ frs \<and> (\<forall>f \<in> set frs. wireable mtu f)"
  using assms make_fragments_small
  by (auto simp: send_in_fragments_def Let_def split: prod.splits sum.splits if_splits)

lemma add_sent_state_small:
  assumes "queue_ok s"
  shows "shutdown_start (add_sent_state s now n st) = shutdown_start s"
    "ts_num (last (sent_states (add_sent_state s now n st))) = n" "queue_ok (add_sent_state s now n st)"
  using assms add_sent_state_ends [of s now n st] unfolding queue_ok_def by (simp_all, simp add: add_sent_state_def Let_def)

lemma send_empty_ack_small:
  assumes "queue_ok s"
  shows "small_step mtu s out (send_empty_ack zc s now mtu fr out)"
proof -
  define new where "new = (if shutdown_in_progress s then SHUTDOWN_NUM else ts_num (last (sent_states s)) + 1)"
  obtain s2 fr' out' where sif: "send_in_fragments zc (add_sent_state s now new (current_state s)) []
      (ts_num (sent_states s ! assumed_receiver s)) new mtu fr out = (s2, fr', out')" by (metis surj_pair)
  from send_in_fragments_small [OF sif] add_sent_state_small [OF assms, of now new "current_state s"] sif
  show ?thesis
    by (simp add: small_step_def send_empty_ack_def Let_def new_def [symmetric] add_sent_state_core next_numbers_def queue_ok_def)
qed

lemma send_to_receiver_small:
  assumes "queue_ok s"
  shows "small_step mtu s out (send_to_receiver zc s now d mtu fr out)"
proof -
  let ?l = "last (sent_states s)"
  define num where "num = (if current_state s = ts_state ?l then ts_num ?l else ts_num ?l + 1)"
  define new where "new = (if shutdown_in_progress s then SHUTDOWN_NUM else num)"
  define s1 where "s1 = (if new = ts_num ?l
      then s\<lparr>sent_states := butlast (sent_states s) @ [?l\<lparr>ts_timestamp := now\<rparr>]\<rparr>
      else add_sent_state s now new (current_state s))"
  obtain s2 fr' out' where sif: "send_in_fragments zc s1 d (ts_num (sent_states s ! assumed_receiver s)) new mtu fr out
      = (s2, fr', out')" by (metis surj_pair)
  have "shutdown_in_progress s1 = shutdown_in_progress s" "shutdown_start s1 = shutdown_start s"
    "ts_num (last (sent_states s1)) = new" "queue_ok s1"
    using add_sent_state_small [OF assms, of now new "current_state s"] assms
    by (simp_all add: s1_def add_sent_state_core) (simp_all add: queue_ok_def)
  moreover have "new \<in> next_numbers s" by (simp add: new_def num_def next_numbers_def)
  moreover have "send_to_receiver zc s now d mtu fr out =
      (s2\<lparr>assumed_receiver := length (sent_states s2) - 1, next_ack_time := now + ACK_INTERVAL_MS, next_send_time := None\<rparr>, fr', out')"
    unfolding send_to_receiver_def Let_def num_def [symmetric] new_def [symmetric] s1_def [symmetric] sif by simp
  ultimately show ?thesis
    using send_in_fragments_small [OF sif] by (simp add: small_step_def queue_ok_def)
qed

lemma small_step_cong:
  assumes "small_step mtu s2 out (s4, fr', out')"
    and "shutdown_in_progress s2 = shutdown_in_progress s" "shutdown_start s2 = shutdown_start s"
      "ts_num (last (sent_states s2)) = ts_num (last (sent_states s))"
    and "shutdown_in_progress s' = shutdown_in_progress s4" "shutdown_start s' = shutdown_start s4"
      "sent_states s' = sent_states s4"
  shows "small_step mtu s out (s', fr', out')"
proof -
  have "next_numbers s2 = next_numbers s" using assms(2,4) by (simp add: next_numbers_def)
  with assms show ?thesis by (simp add: small_step_def queue_ok_def)
qed

lemma small_step_silent:
  assumes "shutdown_in_progress s' = shutdown_in_progress s" "shutdown_start s' = shutdown_start s"
    "ts_num (last (sent_states s')) = ts_num (last (sent_states s))" "queue_ok s'"
  shows "small_step mtu s out (s', fr', out)"
  using assms by (simp add: small_step_def next_numbers_def)

lemma rationalize_small:
  assumes "queue_ok s"
  shows "ts_num (last (sent_states (rationalize_states sub s))) = ts_num (last (sent_states s))"
    "queue_ok (rationalize_states sub s)" "shutdown_start (rationalize_states sub s) = shutdown_start s"
    "shutdown_in_progress (rationalize_states sub s) = shutdown_in_progress s"
  using assms by (auto simp: rationalize_states_def Let_def queue_ok_def last_map)

lemma compute_timers_small:
  "compute_timers s now r si = (timers, s') \<Longrightarrow> shutdown_start s' = shutdown_start s"
  by (auto simp: compute_timers_def start_clocks_def Let_def split: if_splits)

lemma attempt_small:
  "attempt_prospective_resend_optimization df s d = (s', d') \<Longrightarrow>
     sent_states s' = sent_states s \<and> shutdown_start s' = shutdown_start s \<and> shutdown_in_progress s' = shutdown_in_progress s"
  by (auto simp: attempt_prospective_resend_optimization_def Let_def split: if_splits)

lemma tick_small:
  assumes "queue_ok s"
  shows "small_step mtu s out (tick df sub zc s now r si mtu fr out)"
proof -
  let ?u = "update_assumed_receiver_state s now r"
  let ?r = "rationalize_states sub ?u"
  have u: "queue_ok ?u" "sent_states ?u = sent_states s" "shutdown_start ?u = shutdown_start s"
    "shutdown_in_progress ?u = shutdown_in_progress s"
    using assms by (simp_all add: update_assumed_receiver_state_def queue_ok_def)
  obtain nsend nack s2 where ct: "compute_timers ?r now r si = ((nsend, nack), s2)" by (metis surj_pair)
  obtain s3 d where at: "attempt_prospective_resend_optimization df s2
      (df (current_state s2) (ts_state (sent_states s2 ! assumed_receiver s2))) = (s3, d)" by fastforce
  note c = compute_timers_core [OF ct] compute_timers_small [OF ct] attempt_small [OF at] rationalize_small [OF u(1)] u
  have s2: "shutdown_in_progress s2 = shutdown_in_progress s" "shutdown_start s2 = shutdown_start s"
      "ts_num (last (sent_states s2)) = ts_num (last (sent_states s))" "queue_ok s2"
    and s3: "queue_ok s3" "shutdown_in_progress s3 = shutdown_in_progress s" "shutdown_start s3 = shutdown_start s"
      "ts_num (last (sent_states s3)) = ts_num (last (sent_states s))"
    using c by (simp_all add: queue_ok_def)
  obtain s4 fr4 out4 where e4: "send_empty_ack zc s3 now mtu fr out = (s4, fr4, out4)" by (metis surj_pair)
  obtain s5 fr5 out5 where e5: "send_to_receiver zc s3 now d mtu fr out = (s5, fr5, out5)" by (metis surj_pair)
  have "small_step mtu s3 out (s4, fr4, out4)" "small_step mtu s3 out (s5, fr5, out5)"
    using send_empty_ack_small [OF s3(1), of mtu out zc now fr] e4
      send_to_receiver_small [OF s3(1), of mtu out zc now d fr] e5 by simp_all
  note lift = this [THEN small_step_cong, OF s3(2-4)]
  show ?thesis
    unfolding tick_def Let_def ct prod.case at e4 e5
    using s2 s3 by (auto intro!: lift small_step_silent) (simp_all add: queue_ok_def)
qed

section \<open>The user's side\<close>

text \<open>
  The sender's queue invariant holds for some history; while no shutdown is in progress the state
  numbers count the ticks at most; and the guesses are tagged with frames up to the next number.
\<close>

definition user_inv :: "nat \<Rightarrow> ('c, 'd) session_loop \<Rightarrow> bool" where
  "user_inv n s \<longleftrightarrow>
     (\<exists>base H. sender_inv events base H (sender s)) \<and>
     (shutdown_in_progress (sender s) \<or> unat (sent_state_last (sender s)) \<le> n) \<and>
     (\<exists>b. prediction_inv b (prediction s) \<and> (shutdown_in_progress (sender s) \<or> b \<le> sent_state_last (sender s) + 1))"

definition NUMBER_LIMIT :: nat where "NUMBER_LIMIT = 2 ^ 64 - 2"

lemma user_invI:
  assumes "user_inv n s" and "\<And>base H. sender_inv events base H (sender s) \<Longrightarrow> sender_inv events base H (sender t)"
    and "shutdown_in_progress (sender s) \<Longrightarrow> shutdown_in_progress (sender t)"
    and "\<And>base H. sender_inv events base H (sender s) \<Longrightarrow> sent_state_last (sender t) = sent_state_last (sender s)"
    and "\<And>b. prediction_inv b (prediction s) \<Longrightarrow> prediction_inv b (prediction t)"
  shows "user_inv n t"
  using assms unfolding user_inv_def by metis

lemma last_number: "sender_inv view base H s \<Longrightarrow> sent_state_last s = ts_num (last (sent_states s))"
  by (simp add: sender_inv_def sent_state_last_def)

lemma sender_queue: "sender_inv view base H s \<Longrightarrow> queue_ok s"
  by (simp add: sender_inv_def queue_ok_def)

lemma typing_inv:
  assumes "sender_inv events base H s" and "\<not> shutdown_in_progress s" and "events u = events (current_state s) @ es"
  shows "sender_inv events base H (set_current_state s u)"
  using assms by (auto simp: sender_inv_def set_current_state_def sorted_wrt_append)

lemma set_current_last [simp]: "sent_state_last (set_current_state s u) = sent_state_last s"
  "shutdown_in_progress (set_current_state s u) = shutdown_in_progress s"
  by (simp_all add: sent_state_last_def set_current_state_def)

lemma user_command:
  assumes inv: "user_inv n s"
  shows "user_inv n (handle_command ops s now c)"
proof (cases c)
  case (Input bs)
  show ?thesis
  proof (cases "shutdown_in_progress (sender s)")
    case True
    with Input inv show ?thesis by (simp add: handle_command_def)
  next
    case False
    from inv obtain base H b where i: "sender_inv events base H (sender s)" "unat (sent_state_last (sender s)) \<le> n"
      "prediction_inv b (prediction s)" "b \<le> sent_state_last (sender s) + 1"
      using False by (auto simp: user_inv_def)
    let ?s1 = "s\<lparr>sender := set_current_state (sender s) (push_bytes (current_state (sender s)) bs)\<rparr>"
    have eq: "handle_command ops s now c = session_predict ops ?s1 bs" using Input False by (simp add: handle_command_def)
    have "sender_inv events base H (sender (session_predict ops ?s1 bs))"
      using typing_inv [OF i(1) False] by (simp add: push_bytes_def)
    moreover have "prediction_inv (sent_state_last (sender s) + 1) (prediction (session_predict ops ?s1 bs))"
      using predict_input_inv [OF i(3,4)] by (simp add: session_predict_def split: prod.split)
    ultimately show ?thesis
      using i(2) unfolding eq user_inv_def by auto
  qed
next
  case (ResizeTo w h)
  show ?thesis
  proof (cases "shutdown_in_progress (sender s)")
    case True
    with ResizeTo inv show ?thesis by (simp add: handle_command_def)
  next
    case False
    then have eq: "handle_command ops s now c
        = s\<lparr>sender := set_current_state (sender s) (push_resize (current_state (sender s)) w h)\<rparr>"
      using ResizeTo by (simp add: handle_command_def)
    show ?thesis unfolding eq
      by (rule user_invI [OF inv]) (simp_all add: typing_inv [OF _ False] push_resize_def)
  qed
next
  case StartShutdown
  show ?thesis unfolding StartShutdown handle_command_def session_command.case
    by (rule user_invI [OF inv]) (auto simp: start_shutdown_def sender_inv_def sent_state_last_def)
qed (use inv in \<open>simp add: handle_command_def\<close>)

lemma apply_recv_core:
  "current_state (apply_recv_outcome s o' now) = current_state s"
  "sent_states (apply_recv_outcome s o' now) = sent_states s"
  "assumed_receiver (apply_recv_outcome s o' now) = assumed_receiver s"
  "shutdown_in_progress (apply_recv_outcome s o' now) = shutdown_in_progress s"
  "shutdown_start (apply_recv_outcome s o' now) = shutdown_start s"
  by (cases o'; simp add: Let_def remote_heard_def set_ack_num_def set_data_ack_def)+

lemma show_latest_prediction:
  "prediction_inv b (prediction s) \<Longrightarrow> prediction_inv b (prediction (show_latest ops s num))"
  using retire_inv [of b "prediction s" "echo_ack (latest_state (receiver s))"]
  by (auto simp: show_latest_def Let_def advance_display_eq session_retire_def bump_frame_def emit_def
      split: option.split list.split prod.split)

text \<open>What an instruction does to the sender: the acknowledgement, then bookkeeping.\<close>

lemma handle_instruction_sender:
  "sender (handle_instruction e s inst now) = sender s \<or>
   (\<exists>o' :: host_stream_state recv_outcome. sender (handle_instruction e s inst now)
      = apply_recv_outcome (process_acknowledgment_through (sender s) (ack_num inst)) o' now)"
proof -
  have "\<exists>o' :: host_stream_state recv_outcome. x = apply_recv_outcome x o' now" for x :: "user_stream ssp_sender"
    by (rule exI [of _ Duplicate]) simp
  then show ?thesis
    by (auto simp: handle_instruction_def Let_def split: prod.split sum.split recv_outcome.split
        simp del: apply_recv_outcome.simps)
qed

lemma handle_instruction_prediction:
  "prediction_inv b (prediction s) \<Longrightarrow> prediction_inv b (prediction (handle_instruction e s inst now))"
  by (auto simp: handle_instruction_def Let_def show_latest_prediction split: prod.split sum.split recv_outcome.split)

lemma process_ack_shutdown:
  "shutdown_in_progress (process_acknowledgment_through s ack) = shutdown_in_progress s"
  "shutdown_start (process_acknowledgment_through s ack) = shutdown_start s"
  by (simp_all add: process_acknowledgment_through_def Let_def)

lemma handle_instruction_sender_inv:
  assumes "sender_inv events base H (sender s)"
  shows "sender_inv events base H (sender (handle_instruction e s inst now))"
    and "sent_state_last (sender (handle_instruction e s inst now)) = sent_state_last (sender s)"
proof -
  let ?p = "process_acknowledgment_through (sender s) (ack_num inst)"
  have p: "sender_inv events base H ?p" by (rule process_ack_inv [OF assms])
  have "sender_inv events base H (apply_recv_outcome ?p o' now)" for o' :: "host_stream_state recv_outcome"
    by (rule sender_inv_cong [OF _ _ _ _ p]) (use p in \<open>simp_all add: apply_recv_core sender_inv_def\<close>)
  then show inv: "sender_inv events base H (sender (handle_instruction e s inst now))"
    using handle_instruction_sender [of e s inst now] assms by auto
  have "ts_num (last (sent_states ?p)) = ts_num (last (sent_states (sender s)))" by (rule process_ack_ends [OF assms])
  then show "sent_state_last (sender (handle_instruction e s inst now)) = sent_state_last (sender s)"
    using handle_instruction_sender [of e s inst now] last_number [OF inv] last_number [OF assms]
    by (auto simp: apply_recv_core)
qed

lemma handle_instruction_shutdown:
  "shutdown_in_progress (sender (handle_instruction e s inst now)) = shutdown_in_progress (sender s)"
  "shutdown_start (sender (handle_instruction e s inst now)) = shutdown_start (sender s)"
  using handle_instruction_sender [of e s inst now] by (auto simp: apply_recv_core process_ack_shutdown)

lemma user_instruction: "user_inv n s \<Longrightarrow> user_inv n (handle_instruction e s inst now)"
  by (erule user_invI)
    (simp_all add: handle_instruction_sender_inv handle_instruction_prediction handle_instruction_shutdown)

lemma run_tick_sender:
  assumes "run_tick e s now = (out, s')"
  obtains fr where "tick user_diff_from user_subtract (env_zc e) (sender s) now (rto s) (send_interval s) (fragment_mtu s)
      (loop_fragmenter s) [] = (sender s', fr, out)" and "loop_fragmenter s' = fr"
  using assms that by (auto simp: run_tick_def Let_def rto_def send_interval_def fragment_mtu_def split: prod.splits)

lemma user_room:
  assumes "user_inv n s" and "n < NUMBER_LIMIT"
  shows "has_room (sender s)"
  using assms last_number
  by (fastforce simp: user_inv_def has_room_def NUMBER_LIMIT_def SHUTDOWN_NUM_def u64_max_def word_less_nat_alt)

lemma user_tick:
  assumes inv: "user_inv n s" and n: "n < NUMBER_LIMIT" and tk: "run_tick e s now = (out, s')"
  shows "user_inv (Suc n) s'"
proof -
  from inv obtain base H b where i: "sender_inv events base H (sender s)"
    "shutdown_in_progress (sender s) \<or> unat (sent_state_last (sender s)) \<le> n"
    "prediction_inv b (prediction s)" "shutdown_in_progress (sender s) \<or> b \<le> sent_state_last (sender s) + 1"
    by (auto simp: user_inv_def)
  obtain fr where t: "tick user_diff_from user_subtract (env_zc e) (sender s) now (rto s) (send_interval s) (fragment_mtu s)
      (loop_fragmenter s) [] = (sender s', fr, out)" using run_tick_sender [OF tk] .
  have room: "has_room (sender s)" by (rule user_room [OF inv n])
  have s': "\<exists>base' H'. sender_inv events base' H' (sender s')"
    using us.tick_inv [OF i(1) room t] by (blast dest: sendsD(1))
  have sm: "shutdown_in_progress (sender s') = shutdown_in_progress (sender s)"
    "ts_num (last (sent_states (sender s'))) \<in> next_numbers (sender s)"
    using tick_small [OF sender_queue [OF i(1)], of "fragment_mtu s" "[]" user_diff_from user_subtract "env_zc e" now "rto s"
        "send_interval s" "loop_fragmenter s"] t
    by (simp_all add: small_step_def)
  have num: "sent_state_last (sender s') \<in> {sent_state_last (sender s), sent_state_last (sender s) + 1}"
    if "\<not> shutdown_in_progress (sender s)"
    using s' sm(2) that last_number [OF i(1)] last_number by (fastforce simp: next_numbers_def)
  have "unat (sent_state_last (sender s) + 1) = Suc (unat (sent_state_last (sender s)))"
    if "\<not> shutdown_in_progress (sender s)"
    using i(2) that n by (simp add: NUMBER_LIMIT_def unat_word_ariths)
  then have "shutdown_in_progress (sender s') \<or> unat (sent_state_last (sender s')) \<le> Suc n \<and>
      sent_state_last (sender s) + 1 \<le> sent_state_last (sender s') + 1"
    using num i(2) n sm(1)
    by (auto simp: word_le_nat_alt NUMBER_LIMIT_def unat_word_ariths)
  with s' i(3,4) sm(1) show ?thesis
    by (auto simp: user_inv_def run_tick_frame [OF tk])
qed

lemma wait_time_core:
  assumes "wait_time s now r si = (w, s')"
  shows "current_state s' = current_state s" "sent_states s' = sent_states s" "assumed_receiver s' = assumed_receiver s"
    "shutdown_in_progress s' = shutdown_in_progress s" "shutdown_start s' = shutdown_start s"
proof -
  obtain timers where "compute_timers s now r si = (timers, s')"
    using assms by (auto simp: wait_time_def split: prod.splits)
  note c = compute_timers_core [OF this] compute_timers_small [OF this]
  show "current_state s' = current_state s" "sent_states s' = sent_states s" "assumed_receiver s' = assumed_receiver s"
    "shutdown_in_progress s' = shutdown_in_progress s" "shutdown_start s' = shutdown_start s"
    by (simp_all add: c)
qed

lemma run_wait_sender:
  obtains w s' where "wait_time (sender s) now (rto s) (send_interval s) = (w, s')" "sender (snd (run_wait s now)) = s'"
  by (cases "wait_time (sender s) now (rto s) (send_interval s)") (simp add: run_wait_def)

lemma user_wait: "user_inv n s \<Longrightarrow> user_inv n (snd (run_wait s now))"
proof -
  assume inv: "user_inv n s"
  obtain w s' where w: "wait_time (sender s) now (rto s) (send_interval s) = (w, s')"
    "sender (snd (run_wait s now)) = s'" by (rule run_wait_sender)
  note c = wait_time_core [OF w(1)]
  show ?thesis
  proof (rule user_invI [OF inv], unfold w(2))
    show "sender_inv events base H s'" if "sender_inv events base H (sender s)" for base H
      by (rule sender_inv_cong [OF c(1,2) _ c(4) that]) (use that in \<open>simp add: c sender_inv_def\<close>)
  qed (simp_all add: c sent_state_last_def)
qed

interpretation user: loop_invariant e user_inv NUMBER_LIMIT "\<lambda>_ _. True" for e :: "('c, 'd) env"
proof
  fix s s' :: "('c, 'd) session_loop" and n now out inst c
  show "user_inv n s \<Longrightarrow> user_inv (Suc n) s" by (auto simp: user_inv_def)
  show "user_inv n s \<Longrightarrow> user_inv n (handle_instruction e s inst now)" by (rule user_instruction)
  show "user_inv n s \<Longrightarrow> user_inv n (handle_command (env_display e) s now c)" by (rule user_command)
  show "user_inv n s \<Longrightarrow> n < NUMBER_LIMIT \<Longrightarrow> run_tick e s now = (out, s') \<Longrightarrow> user_inv (Suc n) s'" by (rule user_tick)
  show "user_inv n s \<Longrightarrow> user_inv n (snd (run_wait s now))" by (rule user_wait)
qed (simp_all add: user_inv_def emit_def)

section \<open>The end of a session\<close>

definition closing :: "u64 \<Rightarrow> ('c, 'd) session_loop \<Rightarrow> bool" where
  "closing t0 s \<longleftrightarrow> shutdown_in_progress (sender s) \<and> shutdown_start (sender s) = Some t0 \<and> queue_ok (sender s)"

text \<open>An event that ends the session, and the events a live loop emits.\<close>

fun is_ended :: "session_event \<Rightarrow> bool" where
  "is_ended (Ended _ _) = True"
| "is_ended (ScreenChanged _) = False"

definition quiet :: "('c, 'd) session_loop \<Rightarrow> bool" where
  "quiet s \<longleftrightarrow> filter is_ended (loop_events s) = []"

lemma show_latest_quiet: "quiet s \<Longrightarrow> quiet (show_latest ops s num)"
  by (auto simp: quiet_def show_latest_def Let_def advance_display_eq session_retire_def bump_frame_def emit_def
      split: option.split list.split prod.split)

lemma handle_instruction_quiet: "quiet s \<Longrightarrow> quiet (handle_instruction e s inst now)"
  by (auto simp: handle_instruction_def Let_def split: prod.split sum.split recv_outcome.split
      intro!: show_latest_quiet) (simp_all add: quiet_def)

interpretation quiet: datagram_invariant e "\<lambda>_. quiet" for e :: "('c, 'd) env"
  by unfold_locales (simp_all add: handle_instruction_quiet, simp_all add: quiet_def)

lemma process_ack_queue: "queue_ok s \<Longrightarrow> queue_ok (process_acknowledgment_through s ack)"
  by (auto simp: queue_ok_def process_acknowledgment_through_def Let_def filter_empty_conv
      intro: order_trans [OF length_filter_le])

interpretation closing: datagram_invariant e "\<lambda>_. closing t0" for e :: "('c, 'd) env" and t0
proof
  fix s :: "('c, 'd) session_loop" and inst now
  assume c: "closing t0 s"
  have "queue_ok (sender (handle_instruction e s inst now))"
    using handle_instruction_sender [of e s inst now] process_ack_queue [of "sender s"] c
    by (auto simp: closing_def queue_ok_def apply_recv_core)
  with c show "closing t0 (handle_instruction e s inst now)"
    by (simp add: closing_def handle_instruction_shutdown)
qed (simp_all add: closing_def)

lemma closing_command: "closing t0 s \<Longrightarrow> closing t0 (handle_command ops s now c)"
  by (simp add: closing_def handle_command_def start_shutdown_def split: session_command.split)

lemma closing_commands [simp]: "closing t0 (s\<lparr>commands := cs\<rparr>) = closing t0 s"
  by (simp add: closing_def)

lemma closing_drain: "closing t0 s \<Longrightarrow> closing t0 (snd (drain_loop ops s now cs))"
  by (induction cs arbitrary: s) (simp_all add: closing_command)

lemma send_fragments_frame [simp]:
  "sender (send_fragments e s out clk) = sender s" "loop_events (send_fragments e s out clk) = loop_events s"
  "loop_fragmenter (send_fragments e s out clk) = loop_fragmenter s"
  "socks (send_fragments e s out clk) = socks s" "loop_rtt (send_fragments e s out clk) = loop_rtt s"
  by (induction out arbitrary: s clk) simp_all

lemma receive_quiet: "quiet s \<Longrightarrow> quiet (receive e s wt w)"
proof -
  assume q: "quiet s"
  then have "quiet (s\<lparr>read_timeout := wt\<rparr>)" by (simp add: quiet_def)
  then show ?thesis
    by (auto simp: receive_def Let_def split: option.split
        intro!: quiet.guarded.sockets quiet.guarded.datagram)
qed

text \<open>Receiving neither queues commands nor sends datagrams.\<close>

definition outside :: "session_command list \<Rightarrow> (nat \<times> bytes) list \<Rightarrow> ('c, 'd) session_loop \<Rightarrow> bool" where
  "outside cs dgs s \<longleftrightarrow> commands s = cs \<and> sent_datagrams s = dgs"

lemma show_latest_outside: "outside cs dgs s \<Longrightarrow> outside cs dgs (show_latest ops s num)"
  by (auto simp: outside_def show_latest_def Let_def advance_display_eq session_retire_def bump_frame_def emit_def
      split: option.split list.split prod.split)

interpretation outside: datagram_invariant e "\<lambda>_. outside cs dgs" for e :: "('c, 'd) env" and cs dgs
proof
  fix s :: "('c, 'd) session_loop" and seq header now now' and inst :: transport_instruction
  assume o: "outside cs dgs s"
  then show "outside cs dgs (note_fresh s seq header now now')"
    by (simp add: outside_def note_fresh_def note_reply_def Let_def split: option.split)
  from o have "outside cs dgs (note_ack s (ack_num inst))" by (simp add: outside_def note_ack_def Let_def)
  with o show "outside cs dgs (handle_instruction e s inst now)"
    by (auto simp: handle_instruction_def Let_def split: prod.split sum.split recv_outcome.split
        intro!: show_latest_outside) (simp_all add: outside_def)
qed (simp add: outside_def)

lemma receive_outside: "outside cs dgs s \<Longrightarrow> outside cs dgs (receive e s wt w)"
proof -
  assume "outside cs dgs s"
  then have "outside cs dgs (s\<lparr>read_timeout := wt\<rparr>)" by (simp add: outside_def)
  then show ?thesis
    by (auto simp: receive_def Let_def split: option.split intro!: outside.guarded.sockets outside.guarded.datagram)
qed

lemma commands_frame [simp]:
  "commands (send_fragment e s f clk) = commands s" "commands (maybe_hop_port s now b) = commands s"
  "commands (prune_sockets s now) = commands s" "commands (snd (run_wait s now)) = commands s"
  using send_fragment_eq [of e s f clk]
  by (auto simp: maybe_hop_port_def prune_sockets_def Let_def run_wait_def split: option.split prod.split)

lemma send_fragments_commands [simp]: "commands (send_fragments e s out clk) = commands s"
  by (induction out arbitrary: s clk) simp_all

lemma closing_tick:
  assumes "closing t0 s" and "run_tick e s now = (out, s')"
  shows "closing t0 s'"
proof -
  obtain fr where t: "tick user_diff_from user_subtract (env_zc e) (sender s) now (rto s) (send_interval s) (fragment_mtu s)
      (loop_fragmenter s) [] = (sender s', fr, out)" using run_tick_sender [OF assms(2)] .
  from tick_small [of "sender s" "fragment_mtu s" "[]" user_diff_from user_subtract "env_zc e" now "rto s"
      "send_interval s" "loop_fragmenter s"] assms(1) t
  show ?thesis by (simp add: closing_def small_step_def)
qed

text \<open>The ways a round ends: a terminate command, an \<open>Ended\<close> event, or another round.\<close>

lemma run_round_cases:
  assumes "run_round e s w = (go, s')"
  obtains
    (terminated) "\<not> go" "Terminate \<in> set (commands s @ wake_commands w)" "loop_events s' = loop_events s"
  | (ended) clean err where "\<not> go" "loop_events s' = loop_events s @ [Ended clean err]"
  | (live) "go" "quiet s \<Longrightarrow> quiet s'" "commands s' = []"
proof (cases rule: run_round_split [of e s w])
  case (stages go1 s1 out s2 s4 wt s5)
  note dr = drained_round [OF stages(1)]
  have ev4: "loop_events s4 = loop_events s" using dr(3) run_tick_frame(9) [OF stages(2)] by (simp add: stages(3))
  have ev5: "loop_events s5 = loop_events s" using run_wait_frame(9) [of s4 "wake_now w"] stages(4) ev4 by simp
  have cm5: "outside [] (sent_datagrams s5) s5" if go1
    using dr(2) [OF that] stages(2,4) commands_frame(4) [of s4 "wake_now w"]
    by (auto simp: outside_def stages(3) run_tick_def Let_def split: prod.splits)
  have quiet5: "quiet (receive e s5 wt w)" if "quiet s" using that ev5 by (intro receive_quiet) (simp add: quiet_def)
  consider "\<not> go1" "s' = s1" "\<not> go" | err where "go1" "s' = emit s1 (Ended False (Some err))" "\<not> go"
    | clean where "s' = emit s4 (Ended clean None)" "\<not> go" | "go1" "s' = receive e s5 wt w" "go"
    using assms unfolding stages(5) by (auto split: if_splits option.splits)
  then show thesis
  proof cases
    case 1
    with dr(1,3) show thesis by (intro terminated) auto
  next
    case (2 err)
    with dr(3) show thesis by (intro ended [of False "Some err"]) (simp_all add: emit_def)
  next
    case (3 clean)
    with ev4 show thesis by (intro ended [of clean None]) (simp_all add: emit_def)
  next
    case 4
    with receive_outside [OF cm5] quiet5 show thesis by (intro live) (simp_all add: outside_def)
  qed
qed

lemma run_ended:
  assumes "quiet s" and "run e s ws = (go, s')"
  shows "if go then quiet s'
         else (\<exists>evs clean err. loop_events s' = evs @ [Ended clean err] \<and> filter is_ended evs = []) \<or>
              quiet s' \<and> Terminate \<in> set (commands s @ concat (map wake_commands ws))"
  using assms
proof (induction ws arbitrary: s)
  case (Cons w ws)
  obtain go1 s1 where r: "run_round e s w = (go1, s1)" by fastforce
  from r show ?case
  proof (cases rule: run_round_cases)
    case terminated
    with Cons.prems r show ?thesis by (auto simp: quiet_def)
  next
    case (ended clean err)
    with Cons.prems r show ?thesis by (auto simp: quiet_def)
  next
    case live
    with Cons.prems r Cons.IH [of s1] show ?thesis by (auto split: if_splits)
  qed
qed simp

lemma receive_closing: "closing t0 s \<Longrightarrow> closing t0 (receive e s wt w)"
proof -
  assume "closing t0 s"
  then have "closing t0 (s\<lparr>read_timeout := wt\<rparr>)" by (simp add: closing_def)
  then show ?thesis
    by (auto simp: receive_def Let_def split: option.split intro!: closing.guarded.sockets closing.guarded.datagram)
qed

lemma closing_round:
  assumes c: "closing t0 s"
  shows "closing t0 (snd (run_round e s w))"
    and "wake_now w - t0 \<ge> ACTIVE_RETRY_TIMEOUT_MS \<Longrightarrow> \<not> fst (run_round e s w)"
proof (atomize (full), cases rule: run_round_split [of e s w])
  case (stages go1 s1 out s2 s4 wt s5)
  have "closing t0 (woken (env_display e) s w)" using c by (simp add: closing_def)
  then have c1: "closing t0 s1"
    using closing_drain [of t0 "woken (env_display e) s w" "env_display e" "wake_now w" "commands (woken (env_display e) s w)"] stages(1)
    by (simp add: drain_commands_def)
  have c4: "closing t0 s4" using closing_tick [OF c1 stages(2)] by (simp add: stages(3) closing_def)
  obtain x sd where "wait_time (sender s4) (wake_now w) (rto s4) (send_interval s4) = (x, sd)" "sender s5 = sd"
    using run_wait_sender [of s4 "wake_now w"] stages(4) by (metis snd_conv)
  with c4 wait_time_core [of "sender s4"] have c5: "closing t0 s5" by (metis closing_def queue_ok_def)
  have em: "closing t0 (emit s4 ev)" "closing t0 (emit s1 ev)" for ev using c4 c1 by (simp_all add: closing_def emit_def)
  have "shutdown_in_progress (sender s4) \<and> shutdown_ack_timed_out (sender s4) (wake_now w)"
    if "wake_now w - t0 \<ge> ACTIVE_RETRY_TIMEOUT_MS"
    using c4 that by (auto simp: closing_def shutdown_ack_timed_out_def)
  then show "closing t0 (snd (run_round e s w)) \<and>
      (wake_now w - t0 \<ge> ACTIVE_RETRY_TIMEOUT_MS \<longrightarrow> \<not> fst (run_round e s w))"
    using c1 em receive_closing [OF c5, of e wt w] unfolding stages(5) by (auto split: option.split)
qed

lemma closing_run:
  assumes "closing t0 s" and "w \<in> set ws" and "wake_now w - t0 \<ge> ACTIVE_RETRY_TIMEOUT_MS"
  shows "\<not> fst (run e s ws)"
  using assms(1,2)
proof (induction ws arbitrary: s)
  case (Cons v ws)
  from Cons.prems(2) assms(3) closing_round(2) [OF Cons.prems(1), of v e]
    Cons.IH [OF closing_round(1) [OF Cons.prems(1), of e v]]
  show ?case by (auto split: prod.split bool.split)
qed simp

section \<open>Datagrams\<close>

lemma send_fragments_fit:
  assumes ok: "aead_ok (env_enc e) (env_dec e)" and "\<forall>f \<in> set out. length (fragment_tostring f) + 28 \<le> m"
  shows "\<exists>new. sent_datagrams (send_fragments e s out clk) = sent_datagrams s @ new \<and>
           (\<forall>(i, d) \<in> set new. i = last (socks s) \<and> length d \<le> m)"
  using assms(2)
proof (induction out arbitrary: s clk)
  case (Cons f out)
  let ?s1 = "send_fragment e s f (clk 0)"
  from Cons.IH [of ?s1 "\<lambda>k. clk (Suc k)"] Cons.prems obtain new where
    n: "sent_datagrams (send_fragments e s (f # out) clk) = sent_datagrams ?s1 @ new"
      "\<forall>(i, d) \<in> set new. i = last (socks s) \<and> length d \<le> m" by auto
  from send_fragment_eq [of e s f "clk 0"] obtain dgs where
    d: "sent_datagrams ?s1 = sent_datagrams s @ dgs" "\<forall>(i, d) \<in> set dgs. i = last (socks s) \<and>
        (\<exists>header k'. seal (env_enc e) (sealer s) header (fragment_tostring f) = (Inr d, k'))"
    by fastforce
  have "i = last (socks s) \<and> length d \<le> m" if "(i, d) \<in> set dgs" for i d
    using d(2) that Cons.prems sealed_length [OF ok]
    by (fastforce simp: WIRE_NONCE_LEN_def TAG_LEN_def)
  with n d(1) show ?case by (intro exI [of _ "dgs @ new"]) auto
qed simp

lemma fragment_nonempty: "0 < length (fragment_tostring f)"
  by (simp add: length_fragment_tostring FRAG_HEADER_LEN_def)

lemma run_tick_wireable:
  assumes "queue_ok (sender s)" and t: "run_tick e s now = (out, s')" and f: "f \<in> set out"
  shows "wireable (fragment_mtu s) f"
proof -
  obtain fr where tk: "tick user_diff_from user_subtract (env_zc e) (sender s) now (rto s) (send_interval s) (fragment_mtu s)
      (loop_fragmenter s) [] = (sender s', fr, out)" using run_tick_sender [OF t] .
  show ?thesis
    using tick_small [OF assms(1), of "fragment_mtu s" "[]" user_diff_from user_subtract "env_zc e" now "rto s"
        "send_interval s" "loop_fragmenter s"] tk f by (simp add: small_step_def)
qed

lemma run_tick_fits:
  assumes "queue_ok (sender s)" and "run_tick e s now = (out, s')" and "f \<in> set out"
  shows "length (fragment_tostring f) + 28 \<le> loop_mtu s"
proof -
  have "length (fragment_tostring f) \<le> fragment_mtu s" using run_tick_wireable [OF assms] by (simp add: wireable_def)
  with fragment_nonempty [of f] show ?thesis unfolding fragment_mtu_def by linarith
qed

lemma run_round_fits:
  assumes ok: "aead_ok (env_enc e) (env_dec e)" and q: "queue_ok (sender s)"
  shows "\<exists>new. sent_datagrams (snd (run_round e s w)) = sent_datagrams s @ new \<and>
           (\<forall>(i, d) \<in> set new. i = last (socks s) \<and> length d \<le> loop_mtu s)"
proof (cases rule: run_round_split [of e s w])
  case (stages go1 s1 out s2 s4 wt s5)
  note dr = drained_round [OF stages(1)]
  from run_tick_fits [OF dr(8) [OF q] stages(2)] dr(6)
  have fit: "\<forall>f \<in> set out. length (fragment_tostring f) + 28 \<le> loop_mtu s" by simp
  have s2: "sent_datagrams s2 = sent_datagrams s" "socks s2 = socks s"
    using stages(2) dr by (auto simp: run_tick_def Let_def split: prod.splits)
  from send_fragments_fit [OF ok fit, of s2 "wake_sends w"] s2 obtain new where
    n: "sent_datagrams (send_fragments e s2 out (wake_sends w)) = sent_datagrams s @ new"
      "\<forall>(i, d) \<in> set new. i = last (socks s) \<and> length d \<le> loop_mtu s" by auto
  have s4: "sent_datagrams s4 = sent_datagrams s @ new" by (simp add: stages(3) n(1))
  then have "sent_datagrams s5 = sent_datagrams s @ new"
    using stages(4) run_wait_frame(10) [of s4 "wake_now w"] by simp
  then have "sent_datagrams (receive e s5 wt w) = sent_datagrams s @ new"
    using receive_outside [of "commands s5" "sent_datagrams s5" s5 e wt w] by (simp add: outside_def)
  then have "sent_datagrams (snd (run_round e s w)) \<in> {sent_datagrams s, sent_datagrams s @ new}"
    using dr(4) s4 unfolding stages(5) by (auto simp: emit_def split: option.split)
  with n(2) show ?thesis by (auto intro: exI [of _ new] exI [of _ "[]"])
qed

section \<open>The drain of old sockets\<close>

lemma drain_socket_count:
  "fst (drain_socket e s drained arrivals) \<le> max OLD_SOCKET_DRAIN_CAP (drained + 1)"
  by (induction e s drained arrivals rule: drain_socket.induct) (auto simp: Let_def)

lemma drain_socket_exact:
  "Suc drained \<ge> OLD_SOCKET_DRAIN_CAP \<Longrightarrow> arrivals \<noteq> [] \<Longrightarrow> fst (drain_socket e s drained arrivals) = Suc drained"
  by (cases arrivals) (simp_all add: Let_def)

lemma drain_sockets_count:
  "fst (drain_sockets e s drained old idxs) \<le> max drained OLD_SOCKET_DRAIN_CAP + length idxs"
proof (induction idxs arbitrary: s drained)
  case (Cons idx idxs)
  obtain k s1 where d: "drain_socket e s drained (old idx) = (k, s1)" by fastforce
  have "k \<le> max OLD_SOCKET_DRAIN_CAP (drained + 1)" using drain_socket_count [of e s drained "old idx"] d by simp
  moreover have "fst (drain_sockets e s1 k old idxs) \<le> max k OLD_SOCKET_DRAIN_CAP + length idxs" by (rule Cons.IH)
  ultimately show ?case using d by simp
qed simp

lemma drain_socket_full:
  "drained < OLD_SOCKET_DRAIN_CAP \<Longrightarrow> OLD_SOCKET_DRAIN_CAP \<le> drained + length arrivals \<Longrightarrow>
   fst (drain_socket e s drained arrivals) = OLD_SOCKET_DRAIN_CAP"
  by (induction arrivals arbitrary: s drained) (simp_all add: Let_def)

text \<open>The cap stops the drain of one socket and not the drain: with two backlogged old sockets, one
  more datagram than the cap is handled in a wake.\<close>

lemma drain_exceeds_cap:
  assumes "OLD_SOCKET_DRAIN_CAP \<le> length (old i)" and "old j \<noteq> []"
  shows "fst (drain_sockets e s 0 old [i, j]) = OLD_SOCKET_DRAIN_CAP + 1"
proof -
  obtain s1 where "drain_socket e s 0 (old i) = (OLD_SOCKET_DRAIN_CAP, s1)"
    using drain_socket_full [of 0 "old i" e s] assms(1)
    by (cases "drain_socket e s 0 (old i)") (simp add: OLD_SOCKET_DRAIN_CAP_def)
  with assms(2) show ?thesis
    by (cases "drain_socket e s1 OLD_SOCKET_DRAIN_CAP (old j)")
      (use drain_socket_exact [of OLD_SOCKET_DRAIN_CAP "old j" e s1] in simp)
qed

section \<open>The sequence gate\<close>

lemma stale_timing:
  assumes "open_datagram (env_dec e) (opener s) bs = Inr (seq, header, payload)" and "seq < expected_receiver_seq s"
  shows "loop_rtt (handle_datagram e s (bs, now, now')) = loop_rtt s"
    "expected_receiver_seq (handle_datagram e s (bs, now, now')) = expected_receiver_seq s"
    "saved_timestamp (handle_datagram e s (bs, now, now')) = saved_timestamp s"
    "last_heard_ms (shared_of (handle_datagram e s (bs, now, now'))) = last_heard_ms (shared_of s)"
    "rtt_ms_biased (shared_of (handle_datagram e s (bs, now, now'))) = rtt_ms_biased (shared_of s)"
  using assms by (auto simp: handle_datagram_def handle_fragment_def Let_def split: sum.split prod.split option.split)

lemma stale_datagram:
  assumes "open_datagram (env_dec e) (opener s) bs = Inr (seq, header, payload)" and "seq < expected_receiver_seq s"
  shows "handle_datagram e s (bs, now, now') =
    (case fragment_parse payload of Inl _ \<Rightarrow> s | Inr frag \<Rightarrow> handle_fragment e s frag now)"
  using assms by (simp add: handle_datagram_def Let_def not_le)

text \<open>An acknowledgement that is not beyond the head of the queue retires nothing.\<close>

lemma old_ack_kept:
  assumes "sent_states s \<noteq> []" and "assumed_receiver s < length (sent_states s)"
    and "\<And>t. t \<in> set (sent_states s) \<Longrightarrow> ack \<le> ts_num t"
  shows "process_acknowledgment_through s ack = s"
  using assms by (simp add: process_acknowledgment_through_def Let_def filter_id_conv [THEN iffD2])

lemma known_instruction:
  assumes "protocol_version inst = MOSH_PROTOCOL_VERSION" and "new_num inst \<in> ts_num ` set (received (receiver s))"
    and "process_acknowledgment_through (sender s) (ack_num inst) = sender s"
  shows "handle_instruction e s inst now =
    s\<lparr>last_roundtrip_success := sent_state_acked_timestamp (sender s),
      shared_of := (shared_of s)\<lparr>user_acked := sent_state_acked (sender s),
                                last_roundtrip_ms := sent_state_acked_timestamp (sender s)\<rparr>\<rparr>"
proof -
  have "process_instruction host_apply_string (next_addr s) (receiver s) inst now
      = (Inr Duplicate, receiver s, next_addr s)"
    using assms(1,2) by (auto simp: process_instruction_def)
  with assms(1,3) show ?thesis
    by (simp add: handle_instruction_def note_ack_def Let_def)
qed

interpretation queue: loop_invariant e "\<lambda>_ s. queue_ok (sender s)" limit "\<lambda>_ _. True"
  for e :: "('c, 'd) env" and limit
proof
  fix s s' :: "('c, 'd) session_loop" and now out and inst :: transport_instruction and c
  assume q: "queue_ok (sender s)"
  show "queue_ok (sender (handle_instruction e s inst now))"
    using handle_instruction_sender [of e s inst now] process_ack_queue [OF q] q
    by (auto simp: queue_ok_def apply_recv_core)
  show "queue_ok (sender (handle_command (env_display e) s now c))" using q by (rule queue_command)
  show "queue_ok (sender s')" if t: "run_tick e s now = (out, s')"
  proof -
    obtain fr where "tick user_diff_from user_subtract (env_zc e) (sender s) now (rto s) (send_interval s) (fragment_mtu s)
        (loop_fragmenter s) [] = (sender s', fr, out)" using run_tick_sender [OF t] .
    with tick_small [OF q, of "fragment_mtu s" "[]" user_diff_from user_subtract "env_zc e" now "rto s" "send_interval s"
        "loop_fragmenter s"] show ?thesis by (simp add: small_step_def)
  qed
  show "queue_ok (sender (snd (run_wait s now)))"
    using q wait_time_core(2) [of "sender s" now "rto s" "send_interval s"]
    by (auto simp: run_wait_def queue_ok_def split: prod.split)
qed (simp_all add: emit_def)

section \<open>Commands\<close>

fun command_events :: "session_command \<Rightarrow> user_event list" where
  "command_events (Input bs) = map Byte bs"
| "command_events (ResizeTo width height) = [Resize width height]"
| "command_events StartShutdown = []"
| "command_events Terminate = []"

lemma drain_frozen:
  "shutdown_in_progress (sender s) \<Longrightarrow> current_state (sender (snd (drain_loop ops s now cs))) = current_state (sender s)"
proof (induction cs arbitrary: s)
  case (Cons c cs)
  from Cons.IH [of "handle_command ops s now c"] Cons.prems show ?case
    by (simp add: handle_command_def start_shutdown_def split: session_command.splits)
qed simp

lemma drain_events:
  "\<not> shutdown_in_progress (sender s) \<Longrightarrow>
   events (current_state (sender (snd (drain_loop ops s now cs))))
     = events (current_state (sender s)) @
       concat (map command_events (takeWhile (\<lambda>c. c \<noteq> StartShutdown \<and> c \<noteq> Terminate) cs))"
proof (induction cs arbitrary: s)
  case (Cons c cs)
  show ?case
  proof (cases "c = StartShutdown")
    case True
    then have "current_state (sender (snd (drain_loop ops s now (c # cs))))
        = current_state (sender (handle_command ops s now c))"
      by (simp add: drain_frozen handle_command_def start_shutdown_def)
    with True Cons.prems show ?thesis by (simp add: handle_command_def start_shutdown_def)
  next
    case False
    with Cons.IH [of "handle_command ops s now c"] Cons.prems show ?thesis
      by (cases c) (simp_all add: handle_command_def set_current_state_def push_bytes_def push_resize_def)
  qed
qed simp

lemma fatal_round:
  assumes "fatal s = Some msg" and "Terminate \<notin> set (commands s @ wake_commands w)"
  shows "\<not> fst (run_round e s w) \<and> loop_events (snd (run_round e s w)) = loop_events s @ [Ended False (Some msg)] \<and>
         sent_datagrams (snd (run_round e s w)) = sent_datagrams s"
proof (cases rule: run_round_split [of e s w])
  case (stages go s1 out s2 s4 wt s5)
  note dr = drained_round [OF stages(1)]
  then have "run_round e s w = (False, emit s1 (Ended False (Some msg)))"
    using assms unfolding stages(5) by simp
  with dr show ?thesis by (simp add: emit_def)
qed

end
