(* ===== verification/Mosh_Session.thy ===== *)
theory Mosh_Session
  imports Session
begin

text \<open>
  \<^verbatim>\<open>src/session.rs\<close> lines 229-634: the handle an embedder holds, and the properties of the sessions it
  launches. \<open>mosh_session\<close> extends the shared state by the thread slot and the bundle that waits for
  \<open>start\<close>; the operations that only touch shared state apply to a running loop as well. Name
  resolution and \<open>bind\<close> are arguments. Sending on the command channel appends to \<open>commands\<close>.
\<close>

record session_launch =
  launch_socket :: nat
  launch_target :: socket_addr
  launch_key :: base64_key
  launch_hop_interval_ms :: u64
  launch_cols :: i32
  launch_rows :: i32

record 'd mosh_session = "'d session_world" +
  thread_started :: bool
  launch :: "session_launch option"

section \<open>Connecting\<close>

definition shared_new :: shared where
  "shared_new =
     \<lparr>frame_version = 1, last_heard_ms = 0, last_roundtrip_ms = 0, never_heard = True, now_ms = 0,
      ports_opened = 1, user_acked = 0, capture_host_bytes = True, rtt_ms_biased = 0, shared_rto_ms = 1000\<rparr>"

definition build_deferred ::
  "'d \<Rightarrow> nat \<Rightarrow> socket_addr \<Rightarrow> base64_key \<Rightarrow> u32 \<Rightarrow> u32 \<Rightarrow> u64 \<Rightarrow> bool \<Rightarrow> string + 'd mosh_session" where
  "build_deferred d socket target key cols rows hop prediction_on =
     Inr \<lparr>shared_of = shared_new, display = d, pending_bytes = [], prediction = prediction_new prediction_on,
          commands = [], thread_started = False,
          launch = Some \<lparr>launch_socket = socket, launch_target = target, launch_key = key,
                         launch_hop_interval_ms = hop, launch_cols = cols, launch_rows = rows\<rparr>\<rparr>"

definition session_loop_new ::
  "(bytes \<Rightarrow> 'c) \<Rightarrow> nat \<Rightarrow> socket_addr \<Rightarrow> base64_key \<Rightarrow> ('d, 'z) session_world_scheme \<Rightarrow> ('c, 'd) session_loop" where
  "session_loop_new ocb_new socket target key world =
     \<lparr>shared_of = shared_of world, display = display world, pending_bytes = pending_bytes world,
      prediction = prediction world, commands = commands world,
      socks = [socket], target_addr = target, loop_mtu = mtu_for target,
      sealer = sealer_new ocb_new key ToServer, opener = opener_new ocb_new key ToClient,
      sender = sender_new user_stream_new 0 1, receiver = receiver_new host_stream_new 0, next_addr = 0,
      engine_at = event_log_new, loop_fragmenter = fragmenter_default, assembly = assembly_new,
      loop_events = [], sent_datagrams = [], read_timeout = 0, expected_receiver_seq = 0, saved_timestamp = None,
      loop_rtt = rtt_new, last_port_choice = 0, last_roundtrip_success = 0,
      hop_interval_ms = PORT_HOP_INTERVAL_MS, fatal = None\<rparr>"

text \<open>The closure the thread runs, up to the call of \<open>run\<close>.\<close>

definition launch_loop ::
  "(bytes \<Rightarrow> 'c) \<Rightarrow> session_launch \<Rightarrow> ('d, 'z) session_world_scheme \<Rightarrow> ('c, 'd) session_loop" where
  "launch_loop ocb_new l world =
     (let engine = session_loop_new ocb_new (launch_socket l) (launch_target l) (launch_key l) world;
          s = sender engine
      in engine\<lparr>sender := set_current_state s (push_resize (current_state s) (launch_cols l) (launch_rows l)),
                hop_interval_ms := launch_hop_interval_ms l\<rparr>)"

text \<open>\<open>start\<close>, returning the loop it launches, if it launches one.\<close>

definition start :: "(bytes \<Rightarrow> 'c) \<Rightarrow> 'd mosh_session \<Rightarrow> 'd mosh_session \<times> ('c, 'd) session_loop option" where
  "start ocb_new self =
     (if thread_started self then (self, None)
      else case launch self of
             None \<Rightarrow> (self, None)
           | Some l \<Rightarrow> (self\<lparr>launch := None, thread_started := True\<rparr>, Some (launch_loop ocb_new l self)))"

definition resolve :: "(string \<Rightarrow> u16 \<Rightarrow> string + socket_addr list) \<Rightarrow> string \<Rightarrow> u16 \<Rightarrow> string + socket_addr" where
  "resolve to_socket_addrs address port =
     (case to_socket_addrs address port of
        Inl e \<Rightarrow> Inl (''mosh: bad address '' @ address @ '': '' @ e)
      | Inr [] \<Rightarrow> Inl (''mosh: no address for '' @ address)
      | Inr (a # _) \<Rightarrow> Inr a)"

fun is_ipv4 :: "socket_addr \<Rightarrow> bool" where
  "is_ipv4 (V4 _ _) = True"
| "is_ipv4 (V6 _ _) = False"

definition bind_for :: "(string \<Rightarrow> u16 \<Rightarrow> string + nat) \<Rightarrow> socket_addr \<Rightarrow> string + nat" where
  "bind_for udp_bind target =
     (case udp_bind (if is_ipv4 target then ''0.0.0.0'' else ''::'') 0 of
        Inl e \<Rightarrow> Inl (''mosh: bind: '' @ e)
      | Inr socket \<Rightarrow> Inr socket)"

definition connect_on_deferred ::
  "'d \<Rightarrow> nat \<Rightarrow> socket_addr \<Rightarrow> base64_key \<Rightarrow> u32 \<Rightarrow> u32 \<Rightarrow> u64 \<Rightarrow> bool \<Rightarrow> string + 'd mosh_session" where
  "connect_on_deferred d socket target key cols rows hop prediction_on =
     build_deferred d socket target key cols rows hop prediction_on"

definition connect_deferred ::
  "(string \<Rightarrow> u16 \<Rightarrow> string + socket_addr list) \<Rightarrow> (string \<Rightarrow> u16 \<Rightarrow> string + nat) \<Rightarrow> 'd \<Rightarrow> string \<Rightarrow> u16 \<Rightarrow> base64_key
     \<Rightarrow> u32 \<Rightarrow> u32 \<Rightarrow> bool \<Rightarrow> string + 'd mosh_session" where
  "connect_deferred to_socket_addrs udp_bind d address port key cols rows prediction_on =
     (case resolve to_socket_addrs address port of
        Inl e \<Rightarrow> Inl e
      | Inr target \<Rightarrow>
          (case bind_for udp_bind target of
             Inl e \<Rightarrow> Inl e
           | Inr socket \<Rightarrow> connect_on_deferred d socket target key cols rows PORT_HOP_INTERVAL_MS prediction_on))"

definition connect_on ::
  "(bytes \<Rightarrow> 'c) \<Rightarrow> 'd \<Rightarrow> nat \<Rightarrow> socket_addr \<Rightarrow> base64_key \<Rightarrow> u32 \<Rightarrow> u32 \<Rightarrow> u64 \<Rightarrow> bool
     \<Rightarrow> string + ('d mosh_session \<times> ('c, 'd) session_loop option)" where
  "connect_on ocb_new d socket target key cols rows hop prediction_on =
     (case build_deferred d socket target key cols rows hop prediction_on of
        Inl e \<Rightarrow> Inl e
      | Inr session \<Rightarrow> Inr (start ocb_new session))"

definition connect ::
  "(bytes \<Rightarrow> 'c) \<Rightarrow> (string \<Rightarrow> u16 \<Rightarrow> string + socket_addr list) \<Rightarrow> (string \<Rightarrow> u16 \<Rightarrow> string + nat) \<Rightarrow> 'd \<Rightarrow> string \<Rightarrow> u16
     \<Rightarrow> base64_key \<Rightarrow> u32 \<Rightarrow> u32 \<Rightarrow> bool \<Rightarrow> string + ('d mosh_session \<times> ('c, 'd) session_loop option)" where
  "connect ocb_new to_socket_addrs udp_bind d address port key cols rows prediction_on =
     (case resolve to_socket_addrs address port of
        Inl e \<Rightarrow> Inl e
      | Inr target \<Rightarrow>
          (case bind_for udp_bind target of
             Inl e \<Rightarrow> Inl e
           | Inr socket \<Rightarrow> connect_on ocb_new d socket target key cols rows PORT_HOP_INTERVAL_MS prediction_on))"

section \<open>Operations of the handle\<close>

definition send_input :: "('d, 'z) session_world_scheme \<Rightarrow> bytes \<Rightarrow> ('d, 'z) session_world_scheme" where
  "send_input self bs = command self (Input bs)"

definition session_start_shutdown :: "('d, 'z) session_world_scheme \<Rightarrow> ('d, 'z) session_world_scheme" where
  "session_start_shutdown self = command self StartShutdown"

definition join_session :: "'d mosh_session \<Rightarrow> 'd mosh_session" where
  "join_session self = self\<lparr>thread_started := False\<rparr>"

definition terminate :: "'d mosh_session \<Rightarrow> 'd mosh_session" where
  "terminate self = join_session (command self Terminate)"

definition session_link_health :: "('d, 'z) session_world_scheme \<Rightarrow> link_health" where
  "session_link_health self = link_health_of (shared_of self)"

definition session_frame_version :: "('d, 'z) session_world_scheme \<Rightarrow> u64" where
  "session_frame_version self = frame_version (shared_of self)"

definition session_ports_opened :: "('d, 'z) session_world_scheme \<Rightarrow> u64" where
  "session_ports_opened self = ports_opened (shared_of self)"

definition user_stream_acked :: "('d, 'z) session_world_scheme \<Rightarrow> u64" where
  "user_stream_acked self = user_acked (shared_of self)"

definition take_host_bytes :: "('d, 'z) session_world_scheme \<Rightarrow> bytes \<times> ('d, 'z) session_world_scheme" where
  "take_host_bytes self = (pending_bytes self, self\<lparr>pending_bytes := []\<rparr>)"

definition set_host_bytes_capture :: "('d, 'z) session_world_scheme \<Rightarrow> bool \<Rightarrow> ('d, 'z) session_world_scheme" where
  "set_host_bytes_capture self enabled = self\<lparr>shared_of := (shared_of self)\<lparr>capture_host_bytes := enabled\<rparr>\<rparr>"

definition session_set_prediction :: "('d, 'z) session_world_scheme \<Rightarrow> bool \<Rightarrow> ('d, 'z) session_world_scheme" where
  "session_set_prediction self enabled = self\<lparr>prediction := set_prediction (prediction self) enabled\<rparr>"

definition prediction_overlay :: "('d, 'z) session_world_scheme \<Rightarrow> predicted_cell list" where
  "prediction_overlay self = pred_cells (prediction self)"

section \<open>A launched loop satisfies every invariant\<close>

text \<open>Nothing has been predicted before the loop runs: only the loop predicts.\<close>

definition fresh_world :: "('d, 'z) session_world_scheme \<Rightarrow> bool" where
  "fresh_world w \<longleftrightarrow> pred_cells (prediction w) = [] \<and> pred_frames (prediction w) = []"

lemma build_fresh: "build_deferred d sk t k c r h p = Inr self \<Longrightarrow> fresh_world self \<and> launch self \<noteq> None \<and> \<not> thread_started self"
  by (auto simp: build_deferred_def fresh_world_def prediction_new_def)

lemma fresh_ops [simp]:
  "fresh_world w \<Longrightarrow> fresh_world (command w c)" "fresh_world w \<Longrightarrow> fresh_world (session_set_prediction w on)"
  "fresh_world w \<Longrightarrow> fresh_world (set_host_bytes_capture w on)" "fresh_world w \<Longrightarrow> fresh_world (resize_session ops w cols rows)"
  by (simp_all add: fresh_world_def command_def session_set_prediction_def set_prediction_def prediction_clear_def
      set_host_bytes_capture_def resize_session_def bump_frame_def Let_def)

lemma start_loop: "start ocb_new self = (self', Some loop) \<Longrightarrow> \<exists>l. launch self = Some l \<and> loop = launch_loop ocb_new l self"
  by (auto simp: start_def split: if_splits option.splits)

lemma launch_frame [simp]:
  "socks (launch_loop o' l w) = [launch_socket l]" "loop_mtu (launch_loop o' l w) = mtu_for (launch_target l)"
  "loop_rtt (launch_loop o' l w) = rtt_new" "receiver (launch_loop o' l w) = receiver_new host_stream_new 0"
  "next_addr (launch_loop o' l w) = 0" "engine_at (launch_loop o' l w) = event_log_new" "display (launch_loop o' l w) = display w"
  "prediction (launch_loop o' l w) = prediction w" "loop_events (launch_loop o' l w) = []"
  "sent_datagrams (launch_loop o' l w) = []" "commands (launch_loop o' l w) = commands w"
  "sender (launch_loop o' l w) = set_current_state (sender_new user_stream_new 0 1)
     (push_resize user_stream_new (launch_cols l) (launch_rows l))"
  by (simp_all add: launch_loop_def session_loop_new_def Let_def) (simp add: sender_new_def)

lemma launched_link: "link_inv (launch_loop o' l w)"
proof -
  have "mtu_for t \<in> {1252, 1216}" for t by (cases t) simp_all
  then show ?thesis by (auto simp: link_inv_def MAX_PORTS_OPEN_def rtt_ok_new)
qed

lemma launched_display: "display_inv ops R (display w) (launch_loop o' l w)"
  by (simp add: display_inv_def log_inv_def shows_newest_def receiver_inv_new logs_def receiver_new_def latest_state_def
      latest_def host_stream_new_def log_family_new log_iter_def event_log_new_def)
    (use log_family_new [of 0] in \<open>simp add: event_log_new_def receiver_inv_def mixed.supplied\<close>)

lemma launched_user:
  assumes "fresh_world w"
  shows "user_inv 0 (launch_loop o' l w)"
proof -
  let ?s0 = "sender_new user_stream_new 0 1"
  have "sender_inv events [] (\<lambda>_. events user_stream_new) ?s0" by (rule sender_inv_new)
  then have "sender_inv events [] (\<lambda>_. events user_stream_new) (sender (launch_loop o' l w))"
    using typing_inv [of "[]" "\<lambda>_. events user_stream_new" ?s0 "push_resize user_stream_new (launch_cols l) (launch_rows l)"
        "[Resize (launch_cols l) (launch_rows l)]"]
    by (simp add: sender_new_def push_resize_def user_stream_new_def)
  moreover have "sent_state_last (sender (launch_loop o' l w)) = 0"
    by (simp add: sent_state_last_def sender_new_def set_current_state_def)
  moreover have "prediction_inv 0 (prediction (launch_loop o' l w))"
    using assms by (simp add: prediction_inv_def fresh_world_def)
  ultimately show ?thesis unfolding user_inv_def by auto
qed

lemma launched_queue: "queue_ok (sender (launch_loop o' l w))"
  by (simp add: queue_ok_def sender_new_def set_current_state_def SENT_QUEUE_CAP_def)

section \<open>Properties\<close>

text \<open>C6: The screen shows the server's newest state: after every round of every session, whatever datagrams
  arrive, the display has drawn the event log of the newest received state, each event once and in
  order, starting from the display the embedder supplied or from a blank one, and besides those events
  nothing but the embedder's own resizes, to sizes it asked for. Without a call of \<open>resize\<close> it is exactly
  the log replayed.\<close>

theorem screen_follows_server:
  assumes "start ocb_new self = (self', Some loop)"
  shows "let s = snd (run e loop ws); newest = log_iter (host_log (latest_state (receiver s)));
             asked = (\<lambda>width height. \<exists>w \<in> set ws. ResizeTo width height \<in> set (wake_commands w))
         in mixed (env_display e) asked (display self) (display s) newest \<and>
            ((\<forall>width height. \<not> asked width height) \<longrightarrow>
               (\<exists>d. (d = display self \<or> (\<exists>cols rows. d = new_blank (env_display e) cols rows)) \<and>
                    display s = replay (env_display e) d newest))"
proof -
  obtain l where "loop = launch_loop ocb_new l self" using start_loop [OF assms] by blast
  define asked where "asked = (\<lambda>width height. \<exists>w \<in> set ws. ResizeTo width height \<in> set (wake_commands w))"
  have "display_inv (env_display e) asked (display self) loop" by (simp add: launched_display \<open>loop = _\<close>)
  then have "display_inv (env_display e) asked (display self) (snd (run e loop ws))"
    by (rule shown.rounds [where n = 0 and limit = "length ws"]) (auto simp: asked_def)
  then have m: "mixed (env_display e) asked (display self) (display (snd (run e loop ws)))
      (log_iter (host_log (latest_state (receiver (snd (run e loop ws))))))"
    by (simp add: display_inv_def shows_newest_def)
  with mixed_unresized [OF m] show ?thesis unfolding asked_def [symmetric] Let_def by blast
qed

text \<open>C24: The link stays within its bounds: between one and ten sockets are open, so the newest always
  exists; the retransmission timeout stays between 50 ms and one second and the frame interval
  between 20 and 250 ms; the datagram budget is the one of the address family or the fallback.\<close>

theorem session_link_bounds:
  assumes "start ocb_new self = (self', Some loop)"
  shows "let s = snd (run e loop ws)
         in 1 \<le> length (socks s) \<and> length (socks s) \<le> MAX_PORTS_OPEN \<and>
            50 \<le> uint (rto s) \<and> uint (rto s) \<le> 1000 \<and> 20 \<le> uint (send_interval s) \<and> uint (send_interval s) \<le> 250 \<and>
            loop_mtu s \<in> {1252, 1216, DEFAULT_SEND_MTU}"
proof -
  obtain l where "loop = launch_loop ocb_new l self" using start_loop [OF assms] by blast
  then have "link_inv loop" by (simp add: launched_link)
  then have "link_inv (snd (run e loop ws))"
    by (rule link.rounds [where n = 0 and limit = "length ws"]) simp_all
  then show ?thesis
    using rto_range send_interval_range by (simp add: link_inv_def Let_def rto_def send_interval_def Suc_le_eq)
qed

text \<open>C16: The sending side is sound in every session of fewer than \<open>2 ^ 64 - 2\<close> rounds: the queue of sent
  states satisfies the sender invariant for some history, so that every tick is honest, and the
  predicted cells are aligned with a sorted list of frames, as \<open>partition_point\<close> requires.\<close>

theorem session_sender_sound:
  assumes "start ocb_new self = (self', Some loop)" and "fresh_world self" and "length ws \<le> NUMBER_LIMIT"
  shows "let s = snd (run e loop ws)
         in (\<exists>base H. sender_inv events base H (sender s)) \<and>
            length (pred_cells (prediction s)) = length (pred_frames (prediction s)) \<and> sorted (pred_frames (prediction s))"
proof -
  obtain l where "loop = launch_loop ocb_new l self" using start_loop [OF assms(1)] by blast
  then have "user_inv 0 loop" by (simp add: launched_user assms(2))
  from user.rounds [OF this, of ws e] assms(3) show ?thesis
    by (auto simp: user_inv_def prediction_inv_def Let_def)
qed

text \<open>C23: Datagrams fit the path: every datagram a round sends, with its nonce, timestamps and
  authentication tag, is at most the current budget long, and goes out on the newest socket.\<close>

theorem datagrams_fit:
  assumes "start ocb_new self = (self', Some loop)" and "aead_ok (env_enc e) (env_dec e)"
  shows "let s = snd (run e loop ws)
         in \<exists>new. sent_datagrams (snd (run_round e s w)) = sent_datagrams s @ new \<and>
              list_all (\<lambda>(sock, d). sock = last (socks s) \<and> length d \<le> loop_mtu s) new"
proof -
  obtain l where "loop = launch_loop ocb_new l self" using start_loop [OF assms(1)] by blast
  then have "queue_ok (sender loop)" by (simp only: launched_queue)
  then have "queue_ok (sender (snd (run e loop ws)))"
    by (rule queue.rounds [where n = 0 and limit = "length ws"]) simp_all
  from run_round_fits [OF assms(2) this, of w] show ?thesis by (simp add: Let_def list_all_iff)
qed

text \<open>C17: A shutdown ends: once the handshake was started at \<open>t0\<close>, the loop has stopped after any round
  that begins ten seconds later, whatever the peer and the network do.\<close>

theorem shutdown_is_bounded:
  assumes "shutdown_in_progress (sender s)" and "shutdown_start (sender s) = Some t0"
    and "sent_states (sender s) \<noteq> []" and "length (sent_states (sender s)) \<le> SENT_QUEUE_CAP"
    and "w \<in> set ws" and "wake_now w - t0 \<ge> ACTIVE_RETRY_TIMEOUT_MS"
  shows "\<not> fst (run e s ws)"
  using assms by (intro closing_run [of t0 s w]) (simp_all add: closing_def queue_ok_def)

text \<open>C18: The embedder hears of the end exactly once: a loop that goes on has emitted no \<open>Ended\<close> event, and
  one that stopped has emitted one, as its last event, unless it was told to terminate, in which
  case it has emitted none.\<close>

theorem ended_exactly_once:
  assumes "start ocb_new self = (self', Some loop)"
  shows "let s = snd (run e loop ws)
         in if fst (run e loop ws) then filter is_ended (loop_events s) = []
            else (\<exists>evs clean err. loop_events s = evs @ [Ended clean err] \<and> filter is_ended evs = []) \<or>
                 filter is_ended (loop_events s) = [] \<and>
                 Terminate \<in> set (commands self @ concat (map wake_commands ws))"
proof -
  obtain l where l: "loop = launch_loop ocb_new l self" using start_loop [OF assms] by blast
  have q: "quiet loop" and c: "commands loop = commands self" by (simp_all add: quiet_def l)
  obtain go s where r: "run e loop ws = (go, s)" by fastforce
  from run_ended [OF q r] show ?thesis unfolding r c quiet_def Let_def fst_conv snd_conv .
qed

text \<open>C26: A datagram whose sequence number was passed acts only through its fragment: the round-trip
  estimate, the timestamp to echo, the gate and the proof of life stay. If the payload is no fragment
  nothing changes, if the fragment completes no instruction only the reassembly does, and if it
  completes one of the right version whose state was received already, with an acknowledgement not
  beyond the head of the queue, which is what a replay of a handled datagram is, the loop only reads
  the head's number and send time again. An instruction not seen before acts as any other: its
  acknowledgement may move the last round trip, and its state is received.\<close>

theorem passed_datagram_acts_by_fragment:
  assumes "open_datagram (env_dec e) (opener s) bs = Inr (seq, header, payload)" and "seq < expected_receiver_seq s"
    and "sent_states (sender s) \<noteq> []" and "assumed_receiver (sender s) < length (sent_states (sender s))"
  shows "let s' = handle_datagram e s (bs, now, now')
         in loop_rtt s' = loop_rtt s \<and> saved_timestamp s' = saved_timestamp s \<and>
            expected_receiver_seq s' = expected_receiver_seq s \<and>
            last_heard_ms (shared_of s') = last_heard_ms (shared_of s) \<and>
            rtt_ms_biased (shared_of s') = rtt_ms_biased (shared_of s) \<and>
            (case fragment_parse payload of
               Inl _ \<Rightarrow> s' = s
             | Inr frag \<Rightarrow>
                 (case add_fragment (env_zr e) (assembly s) frag of
                    (None, a) \<Rightarrow> s' = s\<lparr>assembly := a\<rparr>
                  | (Some inst, a) \<Rightarrow>
                      protocol_version inst = MOSH_PROTOCOL_VERSION \<and>
                      new_num inst \<in> ts_num ` set (received (receiver s)) \<and>
                      list_all (\<lambda>t. ack_num inst \<le> ts_num t) (sent_states (sender s)) \<longrightarrow>
                      s' = s\<lparr>assembly := a, last_roundtrip_success := sent_state_acked_timestamp (sender s),
                             shared_of := (shared_of s)
                               \<lparr>user_acked := sent_state_acked (sender s),
                                last_roundtrip_ms := sent_state_acked_timestamp (sender s)\<rparr>\<rparr>))"
proof -
  have known: "handle_instruction e (s\<lparr>assembly := a\<rparr>) inst now
      = s\<lparr>assembly := a, last_roundtrip_success := sent_state_acked_timestamp (sender s),
          shared_of := (shared_of s)\<lparr>user_acked := sent_state_acked (sender s),
                                    last_roundtrip_ms := sent_state_acked_timestamp (sender s)\<rparr>\<rparr>"
    if "protocol_version inst = MOSH_PROTOCOL_VERSION \<and> new_num inst \<in> ts_num ` set (received (receiver s))
      \<and> list_all (\<lambda>t. ack_num inst \<le> ts_num t) (sent_states (sender s))" for inst a
    using that old_ack_kept [OF assms(3,4)] known_instruction [of inst "s\<lparr>assembly := a\<rparr>"]
    by (simp add: list_all_iff)
  show ?thesis
    using stale_timing [OF assms(1,2)] known
    by (simp add: Let_def stale_datagram [OF assms(1,2)] handle_fragment_def
        split: sum.split prod.split option.split)
qed

text \<open>C25: A peer of another protocol version ends the session before it touches it: the instruction
  changes nothing but the fatal error, its acknowledgement included, and if no \<open>Terminate\<close> command
  is waiting or arrives with the next wake, the next round reports the error, which names the peer's
  version, and stops without sending. The wording is the code's; SPEC.md section 9 gives another one.\<close>

theorem wrong_version_ends_session:
  assumes "protocol_version inst \<noteq> MOSH_PROTOCOL_VERSION" and "Terminate \<notin> set (commands s @ wake_commands w)"
  shows "let msg = ''mosh: peer protocol_version '' @ show_nat (unat (protocol_version inst)) @ '' != 2'';
             s' = handle_instruction e s inst now
         in s' = s\<lparr>fatal := Some msg\<rparr> \<and> \<not> fst (run_round e s' w) \<and>
            loop_events (snd (run_round e s' w)) = loop_events s @ [Ended False (Some msg)] \<and>
            sent_datagrams (snd (run_round e s' w)) = sent_datagrams s"
proof -
  define msg where "msg = ''mosh: peer protocol_version '' @ show_nat (unat (protocol_version inst)) @ '' != 2''"
  have h: "handle_instruction e s inst now = s\<lparr>fatal := Some msg\<rparr>"
    using assms(1) by (simp add: handle_instruction_def msg_def)
  show ?thesis
    using fatal_round [of "s\<lparr>fatal := Some msg\<rparr>" msg w e] assms(2)
    unfolding msg_def [symmetric] Let_def h by simp
qed

text \<open>What the user types is what the stream gets: draining the commands appends exactly the bytes and
  resizes queued before the first shutdown or terminate command, in order, and nothing after it.\<close>

theorem commands_reach_stream:
  assumes "\<not> shutdown_in_progress (sender s)"
  shows "events (current_state (sender (snd (drain_commands ops s now))))
       = events (current_state (sender s)) @
         concat (map command_events (takeWhile (\<lambda>c. c \<noteq> StartShutdown \<and> c \<noteq> Terminate) (commands s)))"
  unfolding drain_commands_def using assms by (rule drain_events)

text \<open>A session is launched at most once: after the \<open>start\<close> that launched it, no later \<open>start\<close> launches
  another loop, not even after the loop was joined or terminated.\<close>

theorem started_at_most_once:
  assumes "start ocb_new self = (self', Some loop)"
  shows "snd (start ocb_new self') = None \<and> snd (start ocb_new (terminate self')) = None"
  using assms by (auto simp: start_def terminate_def join_session_def command_def split: option.splits if_splits)

section \<open>Witnesses\<close>

text \<open>A session over a display that keeps the bytes it is fed, with the toy cipher and a compressor that
  stores, and a wake in which two keys and a shutdown request arrive.\<close>

definition toy_ops :: "bytes mosh_display" where
  "toy_ops = \<lparr>new_blank = (\<lambda>_ _. []), display_feed = (\<lambda>d bs. d @ bs), display_resize = (\<lambda>d _ _. d),
     display_cols = (\<lambda>_. 80), display_rows = (\<lambda>_. 24), display_cursor = (\<lambda>_. (0, 0, True))\<rparr>"

definition toy_env :: "(unit, bytes) env" where
  "toy_env = \<lparr>env_enc = toy_enc, env_dec = toy_dec, env_zc = (\<lambda>x. x), env_zr = toy_zr, env_display = toy_ops,
     env_platform = OtherUnix\<rparr>"

definition toy_launch :: session_launch where
  "toy_launch = \<lparr>launch_socket = 7, launch_target = V4 0 60001, launch_key = toy_key,
     launch_hop_interval_ms = PORT_HOP_INTERVAL_MS, launch_cols = 80, launch_rows = 24\<rparr>"

definition toy_session :: "bytes mosh_session" where
  "toy_session = \<lparr>shared_of = shared_new, display = [], pending_bytes = [], prediction = prediction_new True, commands = [],
     thread_started = False, launch = Some toy_launch\<rparr>"

definition toy_loop :: "(unit, bytes) session_loop" where
  "toy_loop = launch_loop (\<lambda>_. ()) toy_launch toy_session"

definition toy_wake :: "u64 \<Rightarrow> session_command list \<Rightarrow> wake" where
  "toy_wake now cs = \<lparr>wake_now = now, wake_commands = cs, wake_sends = (\<lambda>_. (now, now, SendOk)), wake_bind = None,
     wake_newest = None, wake_old = (\<lambda>_. [])\<rparr>"

definition toy_wakes :: "wake list" where
  "toy_wakes = [toy_wake 5 [Input [108, 115]], toy_wake 40 [StartShutdown], toy_wake 10100 []]"

lemma toy_start: "start (\<lambda>_. ()) toy_session = (toy_session\<lparr>launch := None, thread_started := True\<rparr>, Some toy_loop)"
  by (simp add: start_def toy_session_def toy_loop_def)

lemma toy_env_ok: "aead_ok (env_enc toy_env) (env_dec toy_env)"
  using toy_aead_ok by (simp add: toy_env_def)

lemma toy_fresh: "fresh_world toy_session"
  by (simp add: fresh_world_def toy_session_def prediction_new_def)

theorem screen_follows_server_witness:
  "\<exists>d. (d = [] \<or> (\<exists>cols rows. d = new_blank toy_ops cols rows)) \<and>
     display (snd (run toy_env toy_loop toy_wakes))
       = replay toy_ops d (log_iter (host_log (latest_state (receiver (snd (run toy_env toy_loop toy_wakes))))))"
  using screen_follows_server [OF toy_start, of toy_env toy_wakes]
  by (simp add: Let_def toy_env_def toy_session_def toy_wakes_def toy_wake_def)

theorem session_link_bounds_witness:
  "length (socks (snd (run toy_env toy_loop toy_wakes))) \<le> MAX_PORTS_OPEN"
  using session_link_bounds [OF toy_start, of toy_env toy_wakes] by (simp add: Let_def)

theorem session_sender_sound_witness:
  "\<exists>base H. sender_inv events base H (sender (snd (run toy_env toy_loop toy_wakes)))"
  using session_sender_sound [OF toy_start toy_fresh, of toy_wakes toy_env]
  by (simp add: Let_def toy_wakes_def NUMBER_LIMIT_def del: run.simps)

theorem datagrams_fit_witness:
  "\<exists>new. sent_datagrams (snd (run_round toy_env (snd (run toy_env toy_loop [])) (toy_wake 5 [Input [108]])))
       = sent_datagrams (snd (run toy_env toy_loop [])) @ new \<and>
     list_all (\<lambda>(sock, d). sock = last (socks (snd (run toy_env toy_loop []))) \<and>
       length d \<le> loop_mtu (snd (run toy_env toy_loop []))) new"
  using datagrams_fit [OF toy_start toy_env_ok] unfolding Let_def .

theorem shutdown_is_bounded_witness:
  "\<not> fst (run toy_env (toy_loop\<lparr>sender := start_shutdown (sender toy_loop) 40\<rparr>) [toy_wake 10100 []])"
  by (rule shutdown_is_bounded [of _ 40 "toy_wake 10100 []"])
    (simp_all add: toy_loop_def start_shutdown_def set_current_state_def sender_new_def SENT_QUEUE_CAP_def
      toy_wake_def ACTIVE_RETRY_TIMEOUT_MS_def)

theorem ended_exactly_once_witness:
  "if fst (run toy_env toy_loop toy_wakes) then filter is_ended (loop_events (snd (run toy_env toy_loop toy_wakes))) = []
   else (\<exists>evs clean err. loop_events (snd (run toy_env toy_loop toy_wakes)) = evs @ [Ended clean err] \<and> filter is_ended evs = [])"
  using ended_exactly_once [OF toy_start, of toy_env toy_wakes]
  by (auto simp: Let_def toy_wakes_def toy_wake_def toy_session_def simp del: run.simps split: if_splits)

definition replay_loop :: "(unit, bytes) session_loop" where
  "replay_loop = toy_loop\<lparr>opener := opener_new (\<lambda>_. ()) toy_key ToServer, expected_receiver_seq := 1\<rparr>"

text \<open>A replayed datagram with an instruction for state number 0, which was received already.\<close>

definition replay_inst :: transport_instruction where
  "replay_inst = transport_default\<lparr>protocol_version := 2\<rparr>"

definition replay_frag :: fragment where
  "replay_frag = \<lparr>frag_id = 5, fragment_num = 0, final = True, contents = transport_encode replay_inst\<rparr>"

definition replay_datagram :: bytes where
  "replay_datagram = replicate 24 0 @ header_write toy_header @ fragment_tostring replay_frag"

lemma toy_opens:
  "open_datagram toy_dec (opener_new (\<lambda>_. ()) toy_key ToServer) replay_datagram
     = Inr (0, toy_header, fragment_tostring replay_frag)"
  by code_simp

lemma replay_opens:
  "open_datagram (env_dec toy_env) (opener replay_loop) replay_datagram
     = Inr (0, toy_header, fragment_tostring replay_frag)"
  using toy_opens by (simp add: toy_env_def replay_loop_def)

lemma replay_assembles:
  "fst (add_fragment toy_zr assembly_new replay_frag) = Some replay_inst"
proof -
  have e: "transport_encode replay_inst = [8, 2, 16, 0, 24, 0, 32, 0, 40, 0, 50, 0, 58, 0]" by code_simp
  then have d: "transport_decode [8, 2, 16, 0, 24, 0, 32, 0, 40, 0, 50, 0, 58, 0] = Inr replay_inst"
    using transport_codec.decode_encode [of replay_inst] by simp
  have z: "zlib_decompress toy_zr [8, 2, 16, 0, 24, 0, 32, 0, 40, 0, 50, 0, 58, 0]
      = Inr [8, 2, 16, 0, 24, 0, 32, 0, 40, 0, 50, 0, 58, 0]"
    by (simp add: zlib_decompress_def toy_zr_def DECOMPRESS_LIMIT_def)
  show ?thesis
    by (simp add: add_fragment_def store_fragment_def note_final_def take_assembly_def assembly_new_def
        Let_def replay_frag_def e ASSEMBLY_LIMIT_def z d assembly_reset_def)
qed

theorem passed_datagram_acts_by_fragment_witness:
  "let s' = handle_datagram toy_env replay_loop (replay_datagram, 50, 50)
   in sender s' = sender replay_loop \<and> receiver s' = receiver replay_loop \<and> loop_rtt s' = loop_rtt replay_loop"
proof -
  have queue: "sent_states (sender replay_loop) \<noteq> []"
    "assumed_receiver (sender replay_loop) < length (sent_states (sender replay_loop))"
    "0 < expected_receiver_seq replay_loop"
    by (simp_all add: replay_loop_def toy_loop_def set_current_state_def sender_new_def)
  have p: "fragment_parse (fragment_tostring replay_frag) = Inr replay_frag"
    by (simp add: fragment_parse_tostring replay_frag_def)
  obtain a where a: "add_fragment (env_zr toy_env) (assembly replay_loop) replay_frag = (Some replay_inst, a)"
    using replay_assembles
    by (cases "add_fragment toy_zr assembly_new replay_frag") (simp add: toy_env_def replay_loop_def toy_loop_def launch_loop_def session_loop_new_def Let_def)
  have known: "protocol_version replay_inst = MOSH_PROTOCOL_VERSION"
    "new_num replay_inst \<in> ts_num ` set (received (receiver replay_loop))"
    "list_all (\<lambda>t. ack_num replay_inst \<le> ts_num t) (sent_states (sender replay_loop))"
    by (simp_all add: replay_inst_def transport_default_def MOSH_PROTOCOL_VERSION_def replay_loop_def toy_loop_def
        set_current_state_def sender_new_def receiver_new_def)
  from passed_datagram_acts_by_fragment [OF replay_opens queue(3,1,2), of 50 50] known show ?thesis
    by (simp add: Let_def p a)
qed

theorem wrong_version_ends_session_witness:
  "\<not> fst (run_round toy_env (handle_instruction toy_env toy_loop (transport_default\<lparr>protocol_version := 3\<rparr>) 50) (toy_wake 60 []))"
proof -
  have v: "protocol_version (transport_default\<lparr>protocol_version := 3\<rparr>) \<noteq> MOSH_PROTOCOL_VERSION"
    by (simp add: MOSH_PROTOCOL_VERSION_def)
  have "Terminate \<notin> set (commands toy_loop @ wake_commands (toy_wake 60 []))"
    by (simp add: toy_loop_def toy_session_def toy_wake_def)
  from wrong_version_ends_session [OF v this] show ?thesis unfolding Let_def by blast
qed

theorem commands_reach_stream_witness:
  "events (current_state (sender (snd (drain_commands toy_ops (toy_loop\<lparr>commands := [Input [108], StartShutdown, Input [115]]\<rparr>) 5))))
     = events (current_state (sender toy_loop)) @ [Byte 108]"
  using commands_reach_stream [of "toy_loop\<lparr>commands := [Input [108], StartShutdown, Input [115]]\<rparr>" toy_ops 5]
  by (simp add: toy_loop_def set_current_state_def sender_new_def)

theorem started_at_most_once_witness:
  "snd (start (\<lambda>_. ()) (toy_session\<lparr>launch := None, thread_started := True\<rparr>)) = None"
  using started_at_most_once [OF toy_start] by simp

end
