(* ===== verification/Interleaving.thy ===== *)
theory Interleaving
  imports Mosh_Session
begin

text \<open>
  \<^verbatim>\<open>src/session.rs\<close>: the loop's thread and the embedder's threads at the granularity of their accesses to
  shared state. \<open>Session_Loop\<close> runs each handler to its end; here the handlers that touch the
  display, the host bytes, the overlay or the frame version (lines 745-765, 1033-1086 and 1108-1147)
  are cut at every access, and between any two of them the calls of the handle (lines 498-600), cut
  in the same way, may run: the display is locked for the whole of an incremental feed, but not while
  a branch is rebuilt on the side, and \<open>resize\<close>, for one, is three accesses.

  \<open>loop_next\<close> is the loop's next access as a function of where it stands; \<open>thread_step\<close> interleaves. A
  step \<open>work\<close> or \<open>arrive\<close> is whatever the loop does without those four. The uninterrupted
  interleaving is the loop of \<open>Session_Loop\<close>.
\<close>

section \<open>Where the loop stands\<close>

text \<open>\<open>None\<close> as the screen of a feed is the shared display under its lock, \<open>Some d\<close> a display being rebuilt.\<close>

datatype 'd loop_pc =
    Resting
  | Advancing u64
  | Feeding u64 "'d option" "host_event list"
  | Appending u64 "'d option" bytes "host_event list"
  | Retiring u64 bool
  | Bumping u64
  | Reporting u64
  | Predicting i32 i32 "i32 \<times> i32" u64 bytes

definition newest :: "('c, 'd) session_loop \<Rightarrow> event_log" where
  "newest s = host_log (latest_state (receiver s))"

definition feed_one ::
  "'d mosh_display \<Rightarrow> u64 \<Rightarrow> 'd option \<Rightarrow> host_event \<Rightarrow> host_event list \<Rightarrow> ('c, 'd) session_loop \<Rightarrow> 'd loop_pc \<times> ('c, 'd) session_loop" where
  "feed_one ops num scr ev evs s =
     (let (scr', s') = (case scr of None \<Rightarrow> (None, s\<lparr>display := draw ops (display s) ev\<rparr>) | Some d \<Rightarrow> (Some (draw ops d ev), s))
      in (case ev of
            Bytes bs \<Rightarrow> if capture_host_bytes (shared_of s') then Appending num scr' bs evs else Feeding num scr' evs
          | HostResize _ _ \<Rightarrow> Feeding num scr' evs,
          s'))"

fun loop_next :: "'d mosh_display \<Rightarrow> 'd loop_pc \<Rightarrow> ('c, 'd) session_loop \<Rightarrow> 'd loop_pc \<times> ('c, 'd) session_loop" where
  "loop_next ops Resting s = (Resting, s)"
| "loop_next ops (Advancing num) s =
     (case suffix_over (newest s) (engine_at s) of
        Some [] \<Rightarrow> (Retiring num False, s)
      | Some suf \<Rightarrow> (Feeding num None suf, s)
      | None \<Rightarrow> (Feeding num (Some (new_blank ops (display_cols ops (display s)) (display_rows ops (display s))))
                  (log_iter (newest s)), s))"
| "loop_next ops (Feeding num None []) s = (Retiring num True, s\<lparr>engine_at := newest s\<rparr>)"
| "loop_next ops (Feeding num (Some d) []) s = (Retiring num True, s\<lparr>display := d, engine_at := newest s\<rparr>)"
| "loop_next ops (Feeding num scr (ev # evs)) s = feed_one ops num scr ev evs s"
| "loop_next ops (Appending num scr bs evs) s = (Feeding num scr evs, s\<lparr>pending_bytes := pending_bytes s @ bs\<rparr>)"
| "loop_next ops (Retiring num fed) s =
     (case session_retire s (echo_ack (latest_state (receiver s))) of
        (drained, s') \<Rightarrow> (if drained \<or> fed then Bumping num else Resting, s'))"
| "loop_next ops (Bumping num) s = (Reporting num, bump_frame s)"
| "loop_next ops (Reporting num) s = (Resting, emit s (ScreenChanged num))"
| "loop_next ops (Predicting cols rows cursor frame bs) s =
     (Resting, s\<lparr>prediction := predict_input (prediction s) cols rows cursor frame bs\<rparr>)"

text \<open>Does the loop hold the lock of the display?\<close>

fun locked :: "'d loop_pc \<Rightarrow> bool" where
  "locked (Feeding _ None _) = True"
| "locked (Appending _ None _ _) = True"
| "locked _ = False"

section \<open>The threads\<close>

text \<open>What a call of \<open>resize\<close> in progress has still to do.\<close>

datatype call = Bump i32 i32 | Queue i32 i32

text \<open>
  The loop, the calls in progress, and what the embedder has read: the version it looked up and the
  display it painted after that. The rest is history: the number of version bumps, the bytes
  \<open>take_host_bytes\<close> returned, the events fed, whether a branch was rebuilt and whether the capture of
  host bytes was ever turned off.
\<close>

record ('c, 'd) threads =
  pc :: "'d loop_pc"
  engine :: "('c, 'd) session_loop"
  calls :: "call list"
  looked :: "(u64 \<times> nat) option"
  painted :: "(u64 \<times> nat \<times> 'd) option"
  bumps :: nat
  taken :: bytes
  fed :: "host_event list"
  branched :: bool
  silenced :: bool

text \<open>The shared state of the screen is left alone.\<close>

definition same_screen :: "('c, 'd) session_loop \<Rightarrow> ('c, 'd) session_loop \<Rightarrow> bool" where
  "same_screen s t \<longleftrightarrow> display t = display s \<and> pending_bytes t = pending_bytes s \<and> prediction t = prediction s \<and>
     engine_at t = engine_at s \<and> frame_version (shared_of t) = frame_version (shared_of s) \<and>
     capture_host_bytes (shared_of t) = capture_host_bytes (shared_of s)"

fun feeds :: "'d loop_pc \<Rightarrow> host_event list" where
  "feeds (Feeding _ _ (ev # evs)) = [ev]"
| "feeds _ = []"

fun rebuilds :: "'d loop_pc \<Rightarrow> ('c, 'd) session_loop \<Rightarrow> bool" where
  "rebuilds (Advancing num) s \<longleftrightarrow> suffix_over (newest s) (engine_at s) = None"
| "rebuilds _ s \<longleftrightarrow> False"

fun bumping :: "'d loop_pc \<Rightarrow> nat" where
  "bumping (Bumping _) = 1"
| "bumping _ = 0"

inductive thread_step :: "'d mosh_display \<Rightarrow> ('c, 'd) threads \<Rightarrow> ('c, 'd) threads \<Rightarrow> bool" for ops :: "'d mosh_display" where
  work: "pc \<sigma> = Resting \<Longrightarrow> same_screen (engine \<sigma>) s' \<Longrightarrow> log_inv s' \<Longrightarrow>
     log_iter (newest s') = log_iter (newest (engine \<sigma>)) \<Longrightarrow> thread_step ops \<sigma> (\<sigma>\<lparr>engine := s'\<rparr>)"
| arrive: "pc \<sigma> = Resting \<Longrightarrow> same_screen (engine \<sigma>) s' \<Longrightarrow> log_inv s' \<Longrightarrow>
     thread_step ops \<sigma> (\<sigma>\<lparr>pc := Advancing num, engine := s'\<rparr>)"
| type: "pc \<sigma> = Resting \<Longrightarrow> length bs \<le> PASTE_THRESHOLD \<Longrightarrow> display_cursor ops (display (engine \<sigma>)) = (col, row, vis) \<Longrightarrow>
     thread_step ops \<sigma> (\<sigma>\<lparr>pc := Predicting (ucast (display_cols ops (display (engine \<sigma>))))
       (ucast (display_rows ops (display (engine \<sigma>)))) (col, row) (sent_state_last (sender (engine \<sigma>)) + 1) bs\<rparr>)"
| loop: "pc \<sigma> \<noteq> Resting \<Longrightarrow> loop_next ops (pc \<sigma>) (engine \<sigma>) = (p, s') \<Longrightarrow>
     thread_step ops \<sigma> (\<sigma>\<lparr>pc := p, engine := s', bumps := bumps \<sigma> + bumping (pc \<sigma>), fed := fed \<sigma> @ feeds (pc \<sigma>),
       branched := (branched \<sigma> \<or> rebuilds (pc \<sigma>) (engine \<sigma>))\<rparr>)"
| resize: "\<not> locked (pc \<sigma>) \<Longrightarrow> sint w \<ge> 2 \<Longrightarrow> sint h \<ge> 2 \<Longrightarrow>
     thread_step ops \<sigma> (\<sigma>\<lparr>engine := (engine \<sigma>)\<lparr>display := display_resize ops (display (engine \<sigma>)) (scast w) (scast h)\<rparr>,
       calls := calls \<sigma> @ [Bump w h]\<rparr>)"
| small: "\<not> (sint w \<ge> 2 \<and> sint h \<ge> 2) \<Longrightarrow> thread_step ops \<sigma> (\<sigma>\<lparr>calls := calls \<sigma> @ [Queue w h]\<rparr>)"
| bump: "i < length (calls \<sigma>) \<Longrightarrow> calls \<sigma> ! i = Bump w h \<Longrightarrow>
     thread_step ops \<sigma> (\<sigma>\<lparr>engine := bump_frame (engine \<sigma>), bumps := bumps \<sigma> + 1, calls := (calls \<sigma>)[i := Queue w h]\<rparr>)"
| queue: "i < length (calls \<sigma>) \<Longrightarrow> calls \<sigma> ! i = Queue w h \<Longrightarrow>
     thread_step ops \<sigma> (\<sigma>\<lparr>engine := command (engine \<sigma>) (ResizeTo w h),
       calls := take i (calls \<sigma>) @ drop (Suc i) (calls \<sigma>)\<rparr>)"
| send: "thread_step ops \<sigma> (\<sigma>\<lparr>engine := command (engine \<sigma>) c\<rparr>)"
| drain: "take_host_bytes (engine \<sigma>) = (bs, s') \<Longrightarrow> thread_step ops \<sigma> (\<sigma>\<lparr>engine := s', taken := taken \<sigma> @ bs\<rparr>)"
| capture: "thread_step ops \<sigma> (\<sigma>\<lparr>engine := set_host_bytes_capture (engine \<sigma>) on, silenced := (silenced \<sigma> \<or> \<not> on)\<rparr>)"
| predict: "thread_step ops \<sigma> (\<sigma>\<lparr>engine := session_set_prediction (engine \<sigma>) on\<rparr>)"
| look: "thread_step ops \<sigma> (\<sigma>\<lparr>looked := Some (session_frame_version (engine \<sigma>), bumps \<sigma>)\<rparr>)"
| paint: "\<not> locked (pc \<sigma>) \<Longrightarrow> looked \<sigma> = Some (v, k) \<Longrightarrow>
     thread_step ops \<sigma> (\<sigma>\<lparr>painted := Some (v, k, display (engine \<sigma>))\<rparr>)"

inductive threads_reach :: "'d mosh_display \<Rightarrow> ('c, 'd) threads \<Rightarrow> ('c, 'd) threads \<Rightarrow> bool"
  for ops :: "'d mosh_display" and \<sigma>0 :: "('c, 'd) threads" where
  launched: "threads_reach ops \<sigma>0 \<sigma>0"
| step: "threads_reach ops \<sigma>0 \<sigma> \<Longrightarrow> thread_step ops \<sigma> \<sigma>' \<Longrightarrow> threads_reach ops \<sigma>0 \<sigma>'"

text \<open>The threads of a session just launched.\<close>

definition threads_new :: "('c, 'd) session_loop \<Rightarrow> ('c, 'd) threads" where
  "threads_new loop =
     \<lparr>pc = Resting, engine = loop, calls = [], looked = None, painted = None, bumps = 0, taken = [], fed = [],
      branched = False, silenced = False\<rparr>"

declare loop_next.simps [simp del]

lemma threads_reach_trans: "threads_reach ops \<sigma> \<tau> \<Longrightarrow> threads_reach ops \<sigma>0 \<sigma> \<Longrightarrow> threads_reach ops \<sigma>0 \<tau>"
  by (induction rule: threads_reach.induct) (auto intro: threads_reach.step)

section \<open>What the accesses keep\<close>

lemma loop_next_frame:
  assumes "loop_next ops p s = (p', s')"
  shows "receiver s' = receiver s" and "next_addr s' = next_addr s" and "engine_at s' \<in> {engine_at s, newest s}"
    and "capture_host_bytes (shared_of s') = capture_host_bytes (shared_of s)" and "newest s' = newest s"
  using assms
  by (cases "(ops, p, s)" rule: loop_next.cases;
      auto simp: loop_next.simps feed_one_def newest_def session_retire_def bump_frame_def emit_def Let_def
        split: option.splits list.splits prod.splits if_splits host_event.splits)+

lemma loop_next_log:
  assumes "loop_next ops p s = (p', s')" and "log_inv s"
  shows "log_inv s'"
proof -
  note same = loop_next_frame [OF assms(1)]
  have "newest s \<in> logs (receiver s)" using assms(2) latest_log by (auto simp: newest_def log_inv_def)
  then have "insert (engine_at s') (logs (receiver s)) \<subseteq> insert (engine_at s) (logs (receiver s))" using same(3) by auto
  with assms(2) same(1,2) show ?thesis by (auto simp: log_inv_def intro: log_family_subset)
qed

lemma handle_log [simp]:
  "log_inv (s\<lparr>display := d\<rparr>) = log_inv s" "log_inv (bump_frame s) = log_inv s" "log_inv (command s c) = log_inv s"
  "log_inv (set_host_bytes_capture s on) = log_inv s" "log_inv (session_set_prediction s on) = log_inv s"
  "log_inv (s\<lparr>pending_bytes := bs\<rparr>) = log_inv s"
  by (simp_all add: log_inv_def bump_frame_def command_def set_host_bytes_capture_def session_set_prediction_def)

lemma handle_newest [simp]:
  "newest (s\<lparr>display := d\<rparr>) = newest s" "newest (bump_frame s) = newest s" "newest (command s c) = newest s"
  "newest (set_host_bytes_capture s on) = newest s" "newest (session_set_prediction s on) = newest s"
  "newest (s\<lparr>pending_bytes := bs\<rparr>) = newest s"
  by (simp_all add: newest_def bump_frame_def command_def set_host_bytes_capture_def session_set_prediction_def)

lemma handle_frame [simp]:
  "display (bump_frame s) = display s" "display (command s c) = display s" "engine_at (bump_frame s) = engine_at s"
  "engine_at (command s c) = engine_at s" "display (set_host_bytes_capture s on) = display s"
  "display (session_set_prediction s on) = display s" "engine_at (set_host_bytes_capture s on) = engine_at s"
  "engine_at (session_set_prediction s on) = engine_at s"
  "pending_bytes (bump_frame s) = pending_bytes s" "pending_bytes (command s c) = pending_bytes s"
  "pending_bytes (set_host_bytes_capture s on) = pending_bytes s" "pending_bytes (session_set_prediction s on) = pending_bytes s"
  "shared_of (command s c) = shared_of s" "shared_of (session_set_prediction s on) = shared_of s"
  "capture_host_bytes (shared_of (bump_frame s)) = capture_host_bytes (shared_of s)"
  "capture_host_bytes (shared_of (set_host_bytes_capture s on)) = on"
  "frame_version (shared_of (set_host_bytes_capture s on)) = frame_version (shared_of s)"
  "frame_version (shared_of (bump_frame s)) = frame_version (shared_of s) + 1"
  by (simp_all add: bump_frame_def command_def set_host_bytes_capture_def session_set_prediction_def)

text \<open>What the logs say of the newest state against the position of the display.\<close>

lemma newest_suffix:
  assumes "log_inv s" and "suffix_over (newest s) (engine_at s) = Some suf"
  shows "log_iter (newest s) = log_iter (engine_at s) @ suf"
proof -
  have fam: "log_family (next_addr s) (insert (engine_at s) (logs (receiver s)))" "newest s \<in> logs (receiver s)"
    using assms(1) latest_log by (auto simp: log_inv_def newest_def)
  with suffix_over_SomeD [OF _ _ _ assms(2)] log_familyD [OF fam(1)] show ?thesis by blast
qed

section \<open>The screen\<close>

text \<open>
  How far the loop is with the newest state: \<open>P\<close> holds of the events drawn so far, and those still to be
  drawn complete the log.
\<close>

fun drawn_to :: "(host_event list \<Rightarrow> bool) \<Rightarrow> 'd loop_pc \<Rightarrow> ('c, 'd) session_loop \<Rightarrow> bool" where
  "drawn_to P (Advancing _) s \<longleftrightarrow> P (log_iter (engine_at s))"
| "drawn_to P (Feeding _ _ evs) s \<longleftrightarrow> (\<exists>pre. P pre \<and> pre @ evs = log_iter (newest s))"
| "drawn_to P (Appending _ _ _ evs) s \<longleftrightarrow> (\<exists>pre. P pre \<and> pre @ evs = log_iter (newest s))"
| "drawn_to P _ s \<longleftrightarrow> P (log_iter (newest s)) \<and> log_iter (engine_at s) = log_iter (newest s)"

lemma drawn_to_next:
  assumes "loop_next ops p s = (p', s')" and log: "log_inv s" and ok: "drawn_to P p s" and p: "p \<noteq> Resting"
    and P: "rebuilds p s \<Longrightarrow> P' []" "\<And>xs. \<not> rebuilds p s \<Longrightarrow> P xs \<Longrightarrow> P' (xs @ feeds p)"
  shows "drawn_to P' p' s'"
proof (cases "(ops, p, s)" rule: loop_next.cases)
  case (2 ops' num s1)
  have p: "p = Advancing num" using 2 by simp
  show ?thesis
  proof (cases "suffix_over (newest s) (engine_at s)")
    case None
    with p assms(1) P(1) show ?thesis by (auto simp: loop_next.simps)
  next
    case (Some suf)
    with p ok P(2) [of "log_iter (engine_at s)"] have "P' (log_iter (engine_at s))" by simp
    with p assms(1) Some newest_suffix [OF log Some] show ?thesis by (cases suf) (auto simp: loop_next.simps)
  qed
next
  case (5 ops' num scr ev evs s1)
  have p: "p = Feeding num scr (ev # evs)" using 5 by simp
  with ok obtain pre where "P pre" and pre: "(pre @ [ev]) @ evs = log_iter (newest s)" by auto
  with P(2) [of pre] p have "P' (pre @ [ev])" by simp
  have "newest s' = newest s" by (rule loop_next_frame(5) [OF assms(1)])
  with \<open>P' (pre @ [ev])\<close> pre have "\<exists>pre. P' pre \<and> pre @ evs = log_iter (newest s')" by auto
  moreover have "(\<exists>scr'. p' = Feeding num scr' evs) \<or> (\<exists>scr' bs. p' = Appending num scr' bs evs)"
    using p assms(1) by (cases ev; cases scr) (auto simp: loop_next.simps feed_one_def Let_def split: if_splits)
  ultimately show ?thesis by (elim disjE) auto
next
  case (6 ops' num scr bs evs s1)
  have same: "P' xs" if "P xs" for xs using P(2) [OF _ that] 6 by simp
  have "\<exists>pre. P' pre \<and> pre @ evs = log_iter (newest s)" using ok same 6 by auto
  with 6 assms(1) show ?thesis by (auto simp: loop_next.simps)
next
  case (7 ops' num fed' s1)
  have "newest s' = newest s" by (rule loop_next_frame(5) [OF assms(1)])
  moreover have "P' (log_iter (newest s))" using P(2) [of "log_iter (newest s)"] ok 7 by simp
  moreover have "engine_at s' = engine_at s" "p' = Bumping num \<or> p' = Resting"
    using 7 assms(1) by (auto simp: loop_next.simps session_retire_def split: prod.splits if_splits)
  ultimately show ?thesis using ok 7 by auto
qed (use assms(1) ok p P(2) [of "log_iter (newest s)"] in \<open>auto simp: loop_next.simps bump_frame_def emit_def newest_def\<close>)

lemma drawn_to_mono:
  "drawn_to P p s \<Longrightarrow> engine_at t = engine_at s \<Longrightarrow> newest t = newest s \<Longrightarrow> \<forall>xs. P xs \<longrightarrow> P' xs \<Longrightarrow> drawn_to P' p t"
  by (cases "(P, p, s)" rule: drawn_to.cases) auto

text \<open>The display the loop draws on.\<close>

fun screen :: "'d loop_pc \<Rightarrow> ('c, 'd) session_loop \<Rightarrow> 'd" where
  "screen (Feeding _ (Some d) _) s = d"
| "screen (Appending _ (Some d) _ _) s = d"
| "screen _ s = display s"

lemma loop_next_screen:
  "loop_next ops p s = (p', s') \<Longrightarrow> p \<noteq> Resting \<Longrightarrow>
   if rebuilds p s then screen p' s' = new_blank ops (display_cols ops (display s)) (display_rows ops (display s)) else screen p' s' = replay ops (screen p s) (feeds p)"
  by (cases "(ops, p, s)" rule: loop_next.cases; cases "(p, s)" rule: screen.cases)
    (auto simp: loop_next.simps feed_one_def session_retire_def bump_frame_def emit_def Let_def
      split: option.splits list.splits prod.splits if_splits host_event.splits)

text \<open>
  Three invariants of every interleaving: of the logs, of the screen, and of the events fed, which
  end with the whole log of the newest state, and are no more than that unless a branch was rebuilt.
\<close>

definition fed_inv :: "('c, 'd) threads \<Rightarrow> bool" where
  "fed_inv \<sigma> \<longleftrightarrow> drawn_to (\<lambda>xs. \<exists>pre. fed \<sigma> = pre @ xs \<and> (\<not> branched \<sigma> \<longrightarrow> pre = [])) (pc \<sigma>) (engine \<sigma>)"

definition screen_inv :: "'d mosh_display \<Rightarrow> 'd \<Rightarrow> ('c, 'd) threads \<Rightarrow> bool" where
  "screen_inv ops d0 \<sigma> \<longleftrightarrow> log_inv (engine \<sigma>) \<and> fed_inv \<sigma> \<and> drawn_to (mixed ops (\<lambda>_ _. True) d0 (screen (pc \<sigma>) (engine \<sigma>))) (pc \<sigma>) (engine \<sigma>)"

text \<open>A step of the handle.\<close>

lemma screen_handle:
  assumes "screen_inv ops d0 \<sigma>" and "pc \<sigma>' = pc \<sigma>" "fed \<sigma>' = fed \<sigma>" "branched \<sigma>' = branched \<sigma>"
    and "log_inv (engine \<sigma>') = log_inv (engine \<sigma>)" "engine_at (engine \<sigma>') = engine_at (engine \<sigma>)"
      "newest (engine \<sigma>') = newest (engine \<sigma>)"
    and "display (engine \<sigma>') = display (engine \<sigma>) \<or>
      (\<exists>(w :: i32) (h :: i32). display (engine \<sigma>') = display_resize ops (display (engine \<sigma>)) (scast w) (scast h))"
  shows "screen_inv ops d0 \<sigma>'"
proof -
  have "\<forall>xs. mixed ops (\<lambda>_ _. True) d0 (screen (pc \<sigma>) (engine \<sigma>)) xs \<longrightarrow> mixed ops (\<lambda>_ _. True) d0 (screen (pc \<sigma>) (engine \<sigma>')) xs"
    using assms(8) by (cases "(pc \<sigma>, engine \<sigma>)" rule: screen.cases) (auto simp: mixed.resized)
  with assms(1-7) show ?thesis by (auto simp: screen_inv_def fed_inv_def elim: drawn_to_mono)
qed

lemma mixed_next:
  assumes "loop_next ops p s = (p', s')" and "p \<noteq> Resting"
  shows "rebuilds p s \<Longrightarrow> mixed ops (\<lambda>_ _. True) d0 (screen p' s') []"
    and "\<not> rebuilds p s \<Longrightarrow> mixed ops (\<lambda>_ _. True) d0 (screen p s) xs \<Longrightarrow> mixed ops (\<lambda>_ _. True) d0 (screen p' s') (xs @ feeds p)"
proof -
  assume "rebuilds p s"
  with loop_next_screen [OF assms] show "mixed ops (\<lambda>_ _. True) d0 (screen p' s') []" by (metis mixed.blank)
next
  assume "\<not> rebuilds p s" and before: "mixed ops (\<lambda>_ _. True) d0 (screen p s) xs"
  with loop_next_screen [OF assms] have "screen p' s' = replay ops (screen p s) (feeds p)" by simp
  moreover have "feeds p = [] \<or> (\<exists>ev. feeds p = [ev])" by (cases p rule: feeds.cases) auto
  ultimately show "mixed ops (\<lambda>_ _. True) d0 (screen p' s') (xs @ feeds p)"
    using before by (auto simp: replay_draw intro: mixed.event)
qed

lemma screen_step:
  assumes "thread_step ops \<sigma> \<sigma>'" and inv: "screen_inv ops d0 \<sigma>"
  shows "screen_inv ops d0 \<sigma>'"
  using assms(1)
proof cases
  case (work s')
  with inv show ?thesis by (simp add: screen_inv_def fed_inv_def same_screen_def)
next
  case (arrive s' num)
  with inv show ?thesis by (simp add: screen_inv_def fed_inv_def same_screen_def)
next
  case (type bs col row vis)
  with inv show ?thesis by (simp add: screen_inv_def fed_inv_def)
next
  case (loop p s')
  have rebuild: "feeds (pc \<sigma>) = []" if "rebuilds (pc \<sigma>) (engine \<sigma>)"
    using that by (cases "pc \<sigma>") auto
  note next_ = drawn_to_next [OF loop(3) _ _ loop(2)]
  have "fed_inv \<sigma>'"
    using inv loop(1) rebuild unfolding screen_inv_def fed_inv_def by (auto intro!: next_ [rotated])
  moreover have "drawn_to (mixed ops (\<lambda>_ _. True) d0 (screen p s')) p s'"
    using inv mixed_next [OF loop(3,2)] unfolding screen_inv_def by (blast intro: next_)
  ultimately show ?thesis using inv loop(1) loop_next_log [OF loop(3)] by (simp add: screen_inv_def)
next
  case (resize w h)
  with screen_handle [OF inv, of \<sigma>'] show ?thesis by auto
next
  case (drain bs s')
  then show ?thesis by (intro screen_handle [OF inv]) (auto simp: take_host_bytes_def)
qed (auto intro!: screen_handle [OF inv])

lemma screen_reach: "threads_reach ops \<sigma>0 \<sigma> \<Longrightarrow> screen_inv ops d0 \<sigma>0 \<Longrightarrow> screen_inv ops d0 \<sigma>"
  by (induction rule: threads_reach.induct) (auto intro: screen_step)

section \<open>The frame version\<close>

text \<open>The display may have changed since the version was last bumped.\<close>

fun owing :: "'d loop_pc \<Rightarrow> bool" where
  "owing (Feeding _ _ _) = True"
| "owing (Appending _ _ _ _) = True"
| "owing (Retiring _ changed) = changed"
| "owing (Bumping _) = True"
| "owing _ = False"

definition bumped :: "('c, 'd) threads \<Rightarrow> bool" where
  "bumped \<sigma> \<longleftrightarrow> \<not> owing (pc \<sigma>) \<and> (\<forall>c \<in> set (calls \<sigma>). \<forall>w h. c \<noteq> Bump w h)"

definition version_inv :: "u64 \<Rightarrow> ('c, 'd) threads \<Rightarrow> bool" where
  "version_inv v0 \<sigma> \<longleftrightarrow> frame_version (shared_of (engine \<sigma>)) = v0 + of_nat (bumps \<sigma>) \<and>
     (\<forall>v k. looked \<sigma> = Some (v, k) \<longrightarrow> k \<le> bumps \<sigma> \<and> v = v0 + of_nat k) \<and>
     (\<forall>v k d. painted \<sigma> = Some (v, k, d) \<longrightarrow> k \<le> bumps \<sigma> \<and> v = v0 + of_nat k \<and>
        (k = bumps \<sigma> \<and> bumped \<sigma> \<longrightarrow> d = display (engine \<sigma>)))"

lemma loop_next_version:
  "loop_next ops p s = (p', s') \<Longrightarrow> frame_version (shared_of s') = frame_version (shared_of s) + of_nat (bumping p)"
  by (cases "(ops, p, s)" rule: loop_next.cases)
    (auto simp: loop_next.simps feed_one_def session_retire_def bump_frame_def emit_def Let_def
      split: option.splits list.splits prod.splits if_splits host_event.splits)

lemma loop_next_display:
  "loop_next ops p s = (p', s') \<Longrightarrow> p \<noteq> Resting \<Longrightarrow> owing p' \<or> bumping p = 1 \<or> display s' = display s \<and> \<not> owing p"
  by (cases "(ops, p, s)" rule: loop_next.cases)
    (auto simp: loop_next.simps feed_one_def session_retire_def bump_frame_def emit_def Let_def
      split: option.splits list.splits prod.splits if_splits host_event.splits)

lemma version_next:
  assumes "loop_next ops p s = (p', s')" and "p \<noteq> Resting" and "bumping p = 0" and "\<not> owing p'"
  shows "display s' = display s" and "\<not> owing p"
  using loop_next_display [OF assms(1,2)] assms(3,4) by auto

lemma no_bump_dropped:
  assumes "cs ! i = Queue w h" and "\<forall>c \<in> set (take i cs @ drop (Suc i) cs). \<forall>w h. c \<noteq> Bump w h"
  shows "\<forall>c \<in> set cs. \<forall>w h. c \<noteq> Bump w h"
proof (cases "i < length cs")
  case True
  then have "cs = take i cs @ cs ! i # drop (Suc i) cs" by (rule id_take_nth_drop)
  then have "set cs = insert (cs ! i) (set (take i cs @ drop (Suc i) cs))" by (metis Un_insert_right list.simps(15) set_append)
  with assms show ?thesis by auto
qed (use assms in simp)

lemma version_step:
  assumes "thread_step ops \<sigma> \<sigma>'" and inv: "version_inv v0 \<sigma>"
  shows "version_inv v0 \<sigma>'"
  using assms(1)
proof cases
  case (loop p s')
  have "bumped \<sigma> \<and> display s' = display (engine \<sigma>)" if "bumped \<sigma>'" "bumping (pc \<sigma>) = 0"
    using that version_next [OF loop(3,2)] loop(1) by (simp add: bumped_def)
  with inv loop_next_version [OF loop(3)] loop(1) show ?thesis by (cases "bumping (pc \<sigma>) = 0") (auto simp: version_inv_def)
next
  case (resize w h)
  with inv show ?thesis by (auto simp: version_inv_def bumped_def)
next
  case (bump i w h)
  with inv show ?thesis by (auto simp: version_inv_def)
next
  case (queue i w h)
  with inv show ?thesis using no_bump_dropped [OF queue(3)] by (auto simp: version_inv_def bumped_def)
next
  case (drain bs s')
  with inv show ?thesis by (auto simp: version_inv_def bumped_def take_host_bytes_def)
qed (use inv in \<open>auto simp: version_inv_def bumped_def same_screen_def session_frame_version_def\<close>)

lemma version_reach: "threads_reach ops \<sigma>0 \<sigma> \<Longrightarrow> version_inv v0 \<sigma>0 \<Longrightarrow> version_inv v0 \<sigma>"
  by (induction rule: threads_reach.induct) (auto intro: version_step)

lemma version_new: "version_inv (frame_version (shared_of loop)) (threads_new loop)"
  by (simp add: version_inv_def threads_new_def)

section \<open>The host bytes\<close>

fun appending :: "'d loop_pc \<Rightarrow> bytes" where
  "appending (Appending _ _ bs _) = bs"
| "appending _ = []"

text \<open>While the capture is on, every byte fed is taken, waiting to be taken, or about to be appended.\<close>

definition bytes_inv :: "bytes \<Rightarrow> ('c, 'd) threads \<Rightarrow> bool" where
  "bytes_inv b0 \<sigma> \<longleftrightarrow> silenced \<sigma> \<or>
     capture_host_bytes (shared_of (engine \<sigma>)) \<and>
     taken \<sigma> @ pending_bytes (engine \<sigma>) @ appending (pc \<sigma>) = b0 @ host_bytes (fed \<sigma>)"

lemma host_bytes_append: "host_bytes (xs @ ys) = host_bytes xs @ host_bytes ys"
  by (induction xs rule: host_bytes.induct) simp_all

lemma loop_next_bytes:
  "loop_next ops p s = (p', s') \<Longrightarrow> p \<noteq> Resting \<Longrightarrow> capture_host_bytes (shared_of s) \<Longrightarrow>
   pending_bytes s' @ appending p' = pending_bytes s @ appending p @ host_bytes (feeds p)"
  by (cases "(ops, p, s)" rule: loop_next.cases)
    (auto simp: loop_next.simps feed_one_def session_retire_def bump_frame_def emit_def Let_def
      split: option.splits list.splits prod.splits if_splits host_event.splits)

lemma bytes_step:
  assumes "thread_step ops \<sigma> \<sigma>'" and inv: "bytes_inv b0 \<sigma>"
  shows "bytes_inv b0 \<sigma>'"
  using assms(1)
proof cases
  case (loop p s')
  with inv loop_next_bytes [OF loop(3,2)] loop_next_frame(4) [OF loop(3)] show ?thesis
    by (auto simp: bytes_inv_def host_bytes_append)
next
  case (drain bs s')
  with inv show ?thesis by (auto simp: bytes_inv_def take_host_bytes_def)
qed (use inv in \<open>auto simp: bytes_inv_def same_screen_def\<close>)

lemma bytes_reach: "threads_reach ops \<sigma>0 \<sigma> \<Longrightarrow> bytes_inv b0 \<sigma>0 \<Longrightarrow> bytes_inv b0 \<sigma>"
  by (induction rule: threads_reach.induct) (auto intro: bytes_step)

section \<open>The uninterrupted loop\<close>

text \<open>Some interleaving reaches this, with no call of the handle in progress.\<close>

definition reaches :: "'d mosh_display \<Rightarrow> ('c, 'd) threads \<Rightarrow> 'd loop_pc \<Rightarrow> ('c, 'd) session_loop \<Rightarrow> bool" where
  "reaches ops \<sigma>0 p s \<longleftrightarrow> (\<exists>\<sigma>. threads_reach ops \<sigma>0 \<sigma> \<and> pc \<sigma> = p \<and> calls \<sigma> = [] \<and> engine \<sigma> = s)"

lemma reaches_next:
  assumes "reaches ops \<sigma>0 p s" and "p \<noteq> Resting" and "loop_next ops p s = (p', s')"
  shows "reaches ops \<sigma>0 p' s'"
proof -
  from assms(1) obtain \<sigma> where \<sigma>: "threads_reach ops \<sigma>0 \<sigma>" "pc \<sigma> = p" "calls \<sigma> = []" "engine \<sigma> = s"
    by (auto simp: reaches_def)
  with threads_reach.step [OF \<sigma>(1) thread_step.loop [of \<sigma> ops p' s']] assms show ?thesis
    unfolding reaches_def by fastforce
qed

lemma reaches_work:
  assumes "reaches ops \<sigma>0 Resting s" and "same_screen s s'" "log_inv s'" "log_iter (newest s') = log_iter (newest s)"
  shows "reaches ops \<sigma>0 Resting s'"
proof -
  from assms(1) obtain \<sigma> where \<sigma>: "threads_reach ops \<sigma>0 \<sigma>" "pc \<sigma> = Resting" "calls \<sigma> = []" "engine \<sigma> = s"
    by (auto simp: reaches_def)
  with threads_reach.step [OF \<sigma>(1) thread_step.work [of \<sigma> s']] assms show ?thesis unfolding reaches_def by fastforce
qed

lemma reaches_arrive:
  assumes "reaches ops \<sigma>0 Resting s" and "same_screen s s'" "log_inv s'"
  shows "reaches ops \<sigma>0 (Advancing num) s'"
proof -
  from assms(1) obtain \<sigma> where \<sigma>: "threads_reach ops \<sigma>0 \<sigma>" "pc \<sigma> = Resting" "calls \<sigma> = []" "engine \<sigma> = s"
    by (auto simp: reaches_def)
  with threads_reach.step [OF \<sigma>(1) thread_step.arrive [of \<sigma> s' ops num]] assms show ?thesis unfolding reaches_def by fastforce
qed

lemma reaches_predict:
  assumes "reaches ops \<sigma>0 Resting s"
  shows "reaches ops \<sigma>0 Resting (session_predict ops s bs)"
proof (cases "length bs \<le> PASTE_THRESHOLD")
  case True
  from assms(1) obtain \<sigma> where \<sigma>: "threads_reach ops \<sigma>0 \<sigma>" "pc \<sigma> = Resting" "calls \<sigma> = []" "engine \<sigma> = s"
    by (auto simp: reaches_def)
  obtain col row vis where cur: "display_cursor ops (display s) = (col, row, vis)" by (metis surj_pair)
  have "reaches ops \<sigma>0 (Predicting (ucast (display_cols ops (display s))) (ucast (display_rows ops (display s)))
      (col, row) (sent_state_last (sender s) + 1) bs) s"
    using threads_reach.step [OF \<sigma>(1) thread_step.type [of \<sigma> bs ops col row vis]] \<sigma> True cur unfolding reaches_def by fastforce
  from reaches_next [OF this] cur show ?thesis by (simp add: loop_next.simps session_predict_def)
next
  case False
  with assms show ?thesis by (simp add: session_predict_def predict_input_def split: prod.split)
qed

lemma captured_Cons: "captured s (ev # evs) = captured s [ev] @ captured s evs"
  by (cases ev) (simp_all add: captured_def)

lemma captured_display [simp]: "captured (s\<lparr>display := d\<rparr>) evs = captured s evs"
  by (simp add: captured_def)

lemma reaches_feed:
  "reaches ops \<sigma>0 (Feeding num None evs) s \<Longrightarrow>
   reaches ops \<sigma>0 (Feeding num None []) (s\<lparr>display := replay ops (display s) evs, pending_bytes := pending_bytes s @ captured s evs\<rparr>)"
proof (induction evs arbitrary: s)
  case (Cons ev evs)
  let ?t = "s\<lparr>display := draw ops (display s) ev, pending_bytes := pending_bytes s @ captured s [ev]\<rparr>"
  have "reaches ops \<sigma>0 (Feeding num None evs) ?t"
  proof (cases "\<exists>bs. ev = Bytes bs \<and> capture_host_bytes (shared_of s)")
    case True
    then obtain bs where ev: "ev = Bytes bs" "capture_host_bytes (shared_of s)" by blast
    have "reaches ops \<sigma>0 (Appending num None bs evs) (s\<lparr>display := draw ops (display s) ev\<rparr>)"
      by (rule reaches_next [OF Cons.prems]) (simp_all add: loop_next.simps feed_one_def ev)
    from reaches_next [OF this] ev show ?thesis by (simp add: loop_next.simps captured_def)
  next
    case False
    show ?thesis
      by (rule reaches_next [OF Cons.prems]) (use False in \<open>cases ev; simp add: loop_next.simps feed_one_def captured_def\<close>)+
  qed
  from Cons.IH [OF this] show ?case by (simp add: replay_draw captured_Cons [of s ev evs] del: replay.simps)
qed (simp add: captured_def)

lemma reaches_rebuild:
  "reaches ops \<sigma>0 (Feeding num (Some d) evs) s \<Longrightarrow>
   reaches ops \<sigma>0 (Feeding num (Some (replay ops d evs)) []) (s\<lparr>pending_bytes := pending_bytes s @ captured s evs\<rparr>)"
proof (induction evs arbitrary: s d)
  case (Cons ev evs)
  let ?t = "s\<lparr>pending_bytes := pending_bytes s @ captured s [ev]\<rparr>"
  have "reaches ops \<sigma>0 (Feeding num (Some (draw ops d ev)) evs) ?t"
  proof (cases "\<exists>bs. ev = Bytes bs \<and> capture_host_bytes (shared_of s)")
    case True
    then obtain bs where ev: "ev = Bytes bs" "capture_host_bytes (shared_of s)" by blast
    have "reaches ops \<sigma>0 (Appending num (Some (draw ops d ev)) bs evs) s"
      by (rule reaches_next [OF Cons.prems]) (simp_all add: loop_next.simps feed_one_def ev)
    from reaches_next [OF this] ev show ?thesis by (simp add: loop_next.simps captured_def)
  next
    case False
    show ?thesis
      by (rule reaches_next [OF Cons.prems]) (use False in \<open>cases ev; simp add: loop_next.simps feed_one_def captured_def\<close>)+
  qed
  from Cons.IH [OF this] show ?case by (simp add: replay_draw captured_Cons [of s ev evs] del: replay.simps)
qed (simp add: captured_def)

lemma reaches_advance:
  assumes "reaches ops \<sigma>0 (Advancing num) s" and "advance_display ops s (newest s) = (changed, s')"
  shows "reaches ops \<sigma>0 (Retiring num changed) s'"
proof (cases "suffix_over (newest s) (engine_at s)")
  case None
  let ?d = "new_blank ops (display_cols ops (display s)) (display_rows ops (display s))"
  have "reaches ops \<sigma>0 (Feeding num (Some ?d) (log_iter (newest s))) s"
    by (rule reaches_next [OF assms(1)]) (simp_all add: loop_next.simps None)
  note built = reaches_rebuild [OF this]
  show ?thesis
    by (rule reaches_next [OF built]) (use assms(2) None in \<open>auto simp: loop_next.simps advance_display_eq\<close>)
next
  case (Some suf)
  show ?thesis
  proof (cases "suf = []")
    case True
    show ?thesis by (rule reaches_next [OF assms(1)]) (use assms(2) Some True in \<open>simp_all add: loop_next.simps advance_display_eq\<close>)
  next
    case False
    have "reaches ops \<sigma>0 (Feeding num None suf) s"
      by (rule reaches_next [OF assms(1)]) (use Some False in \<open>auto simp: loop_next.simps split: list.split\<close>)
    from reaches_next [OF reaches_feed [OF this]] assms(2) Some False show ?thesis
      by (cases suf) (auto simp: loop_next.simps advance_display_eq)
  qed
qed

lemma reaches_show:
  assumes "reaches ops \<sigma>0 Resting s" and "same_screen s s'" and "log_inv s'"
  shows "reaches ops \<sigma>0 Resting (show_latest ops s' num)"
proof -
  let ?s1 = "s'\<lparr>shared_of := (shared_of s')\<lparr>never_heard := False\<rparr>\<rparr>"
  obtain changed s2 where a: "advance_display ops ?s1 (newest ?s1) = (changed, s2)" by fastforce
  obtain drained s3 where r: "session_retire s2 (echo_ack (latest_state (receiver s2))) = (drained, s3)" by fastforce
  have "same_screen s ?s1" "log_inv ?s1" using assms(2,3) by (simp_all add: same_screen_def log_inv_def)
  from reaches_advance [OF reaches_arrive [OF assms(1) this] a]
  have "reaches ops \<sigma>0 (Retiring num changed) s2" .
  from reaches_next [OF this, of "if drained \<or> changed then Bumping num else Resting" s3]
  have 3: "reaches ops \<sigma>0 (if drained \<or> changed then Bumping num else Resting) s3" by (simp add: loop_next.simps r)
  have show_eq: "show_latest ops s' num = (if drained \<or> changed then emit (bump_frame s3) (ScreenChanged num) else s3)"
    using a r by (simp add: show_latest_def newest_def Let_def)
  show ?thesis
  proof (cases "drained \<or> changed")
    case True
    with 3 have "reaches ops \<sigma>0 (Bumping num) s3" by simp
    from reaches_next [OF this] have "reaches ops \<sigma>0 (Reporting num) (bump_frame s3)" by (simp add: loop_next.simps)
    from reaches_next [OF this] True show ?thesis by (simp add: loop_next.simps show_eq)
  next
    case False
    with 3 show ?thesis by (simp add: show_eq)
  qed
qed

definition interleaved :: "'d mosh_display \<Rightarrow> ('c, 'd) threads \<Rightarrow> ('c, 'd) session_loop \<Rightarrow> bool" where
  "interleaved ops \<sigma>0 s \<longleftrightarrow> log_inv s \<and> reaches ops \<sigma>0 Resting s"

lemma interleaved_work:
  assumes "interleaved ops \<sigma>0 s" and "receiver s' = receiver s" "next_addr s' = next_addr s" "same_screen s s'"
  shows "interleaved ops \<sigma>0 s'"
proof -
  have "log_inv s'" using assms by (simp add: interleaved_def log_inv_def same_screen_def)
  with assms reaches_work [of ops \<sigma>0 s s'] show ?thesis by (simp add: interleaved_def newest_def)
qed

lemma interleaved_instruction:
  assumes "interleaved (env_display e) \<sigma>0 s"
  shows "interleaved (env_display e) \<sigma>0 (handle_instruction e s inst now)"
proof (rule instruction_stages [of s e inst now])
  show "log_inv s" using assms by (simp add: interleaved_def)
next
  fix s3 n
  assume "log_inv s3" "handle_instruction e s inst now = show_latest (env_display e) s3 n"
    "display s3 = display s" "pending_bytes s3 = pending_bytes s" "prediction s3 = prediction s" "engine_at s3 = engine_at s"
    "frame_version (shared_of s3) = frame_version (shared_of s)" "capture_host_bytes (shared_of s3) = capture_host_bytes (shared_of s)"
  with assms show ?thesis by (simp add: interleaved_def log_inv_show reaches_show [of _ _ s] same_screen_def)
next
  fix t
  assume "handle_instruction e s inst now = t" "log_inv t" "latest_state (receiver t) = latest_state (receiver s)"
    "display t = display s" "pending_bytes t = pending_bytes s" "prediction t = prediction s" "engine_at t = engine_at s"
    "frame_version (shared_of t) = frame_version (shared_of s)" "capture_host_bytes (shared_of t) = capture_host_bytes (shared_of s)"
  with assms show ?thesis by (simp add: interleaved_def newest_def reaches_work [of _ _ s] same_screen_def)
qed

lemma interleaved_command:
  assumes "interleaved (env_display e) \<sigma>0 s"
  shows "interleaved (env_display e) \<sigma>0 (handle_command (env_display e) s now c)"
proof -
  have sender: "interleaved (env_display e) \<sigma>0 (s\<lparr>sender := u\<rparr>)" for u
    by (rule interleaved_work [OF assms]) (simp_all add: same_screen_def)
  have "interleaved (env_display e) \<sigma>0 (session_predict (env_display e) t bs)" if "interleaved (env_display e) \<sigma>0 t" for t bs
    using that reaches_predict [of _ \<sigma>0 t bs] by (simp add: interleaved_def log_inv_def)
  with sender assms show ?thesis by (simp add: handle_command_def split: session_command.split)
qed

lemma screen_frames:
  "same_screen s (note_fresh s seq header now now')" "same_screen s (send_fragment e s f clk)"
  "same_screen s (prune_sockets (maybe_hop_port s now b) now)" "same_screen s (emit s ev)" "same_screen s (snd (run_wait s now))"
  "run_tick e s now = (out, s') \<Longrightarrow> same_screen s s'"
  using send_fragment_eq [of e s f clk]
  by (auto simp: same_screen_def note_fresh_def note_reply_def prune_sockets_def maybe_hop_port_def emit_def run_wait_def
      run_tick_def Let_def split: option.splits prod.splits)

text \<open>A call of the handle that is not interrupted.\<close>

lemma reaches_call:
  assumes "reaches ops \<sigma>0 p s"
    and "\<And>\<sigma>. pc \<sigma> = p \<Longrightarrow> calls \<sigma> = [] \<Longrightarrow> engine \<sigma> = s \<Longrightarrow>
      \<exists>\<sigma>'. threads_reach ops \<sigma> \<sigma>' \<and> pc \<sigma>' = p \<and> calls \<sigma>' = [] \<and> engine \<sigma>' = s'"
  shows "reaches ops \<sigma>0 p s'"
  using assms threads_reach_trans unfolding reaches_def by blast

lemma call_once: "thread_step ops \<sigma> \<sigma>' \<Longrightarrow> threads_reach ops \<sigma> \<sigma>'"
  by (rule threads_reach.step [OF threads_reach.launched])

lemma call_queues:
  assumes "calls \<sigma> = [Queue w h]"
  shows "\<exists>\<sigma>'. threads_reach ops \<sigma> \<sigma>' \<and> pc \<sigma>' = pc \<sigma> \<and> calls \<sigma>' = [] \<and> engine \<sigma>' = command (engine \<sigma>) (ResizeTo w h)"
  using call_once [OF thread_step.queue [of 0 \<sigma> w h ops]] assms by fastforce

lemma call_bumps:
  assumes "calls \<sigma> = [Bump w h]"
  shows "\<exists>\<sigma>'. threads_reach ops \<sigma> \<sigma>' \<and> pc \<sigma>' = pc \<sigma> \<and> calls \<sigma>' = [Queue w h] \<and> engine \<sigma>' = bump_frame (engine \<sigma>)"
  using call_once [OF thread_step.bump [of 0 \<sigma> w h ops]] assms by fastforce

lemma reaches_resize:
  assumes "reaches ops \<sigma>0 p s" and "\<not> locked p"
  shows "reaches ops \<sigma>0 p (resize_session ops s w h)"
proof (rule reaches_call [OF assms(1)])
  fix \<sigma> :: "('b, 'a) threads"
  assume \<sigma>: "pc \<sigma> = p" "calls \<sigma> = []" "engine \<sigma> = s"
  let ?goal = "\<exists>\<sigma>'. threads_reach ops \<sigma> \<sigma>' \<and> pc \<sigma>' = p \<and> calls \<sigma>' = [] \<and> engine \<sigma>' = resize_session ops s w h"
  show ?goal
  proof (cases "sint w \<ge> 2 \<and> sint h \<ge> 2")
    case True
    let ?s1 = "s\<lparr>display := display_resize ops (display s) (scast w) (scast h)\<rparr>"
    obtain \<sigma>1 where 1: "threads_reach ops \<sigma> \<sigma>1" "pc \<sigma>1 = p" "calls \<sigma>1 = [Bump w h]" "engine \<sigma>1 = ?s1"
      using call_once [OF thread_step.resize [of \<sigma> w h ops]] \<sigma> True assms(2) by fastforce
    obtain \<sigma>2 where 2: "threads_reach ops \<sigma>1 \<sigma>2" "pc \<sigma>2 = p" "calls \<sigma>2 = [Queue w h]" "engine \<sigma>2 = bump_frame ?s1"
      using call_bumps [OF 1(3), of ops] 1 by auto
    from call_queues [OF 2(3), of ops] 2 True obtain \<sigma>3 where
      "threads_reach ops \<sigma>2 \<sigma>3" "pc \<sigma>3 = p" "calls \<sigma>3 = []" "engine \<sigma>3 = resize_session ops s w h"
      by (auto simp: resize_session_def)
    with 1(1) 2(1) show ?goal by (blast intro: threads_reach_trans)
  next
    case False
    obtain \<sigma>1 where 1: "threads_reach ops \<sigma> \<sigma>1" "pc \<sigma>1 = p" "calls \<sigma>1 = [Queue w h]" "engine \<sigma>1 = s"
      using call_once [OF thread_step.small [OF False, of ops \<sigma>]] \<sigma> by fastforce
    from call_queues [OF 1(3), of ops] 1 False obtain \<sigma>2 where
      "threads_reach ops \<sigma>1 \<sigma>2" "pc \<sigma>2 = p" "calls \<sigma>2 = []" "engine \<sigma>2 = resize_session ops s w h"
      by (auto simp: resize_session_def)
    with 1(1) show ?goal by (blast intro: threads_reach_trans)
  qed
qed

interpretation interleaved: loop_invariant e "\<lambda>_. interleaved (env_display e) \<sigma>0" limit "\<lambda>_ _. True"
  for e :: "('c, 'd) env" and \<sigma>0 limit
proof
  fix s s' :: "('c, 'd) session_loop" and now now' b f clk seq header out ev t a cs inst c
  let ?I = "interleaved (env_display e) \<sigma>0"
  assume I: "?I s"
  note work = interleaved_work [OF I]
  show "?I (note_fresh s seq header now now')" by (intro work) (simp_all add: screen_frames)
  show "?I (s\<lparr>assembly := a\<rparr>)" by (intro work) (simp_all add: same_screen_def)
  show "?I (handle_instruction e s inst now)" by (rule interleaved_instruction [OF I])
  show "?I s" by (rule I)
  show "?I (s\<lparr>shared_of := (shared_of s)\<lparr>now_ms := t\<rparr>\<rparr>)" by (intro work) (simp_all add: same_screen_def)
  show "?I (handle_command (env_display e) s now c)" by (rule interleaved_command [OF I])
  show "?I (s\<lparr>commands := cs\<rparr>)" by (intro work) (simp_all add: same_screen_def)
  show "?I (resize_session (env_display e) s width height)" for width height
    using I reaches_resize [of _ \<sigma>0 Resting s] by (simp add: interleaved_def resize_session_def Let_def)
  show "run_tick e s now = (out, s') \<Longrightarrow> ?I s'" by (intro work) (simp_all add: screen_frames run_tick_frame)
  show "?I (send_fragment e s f clk)" by (intro work) (simp_all add: screen_frames)
  show "?I (prune_sockets (maybe_hop_port s now b) now)" by (intro work) (simp_all add: screen_frames)
  show "?I (emit s ev)" by (intro work) (simp_all add: screen_frames, simp_all add: emit_def)
  show "?I (snd (run_wait s now))" by (intro work) (simp_all add: screen_frames)
  show "?I (s\<lparr>read_timeout := t\<rparr>)" by (intro work) (simp_all add: same_screen_def)
qed

text \<open>The rounds of a session and the calls of its embedder, each uninterrupted; a loop that has stopped stays so.\<close>

datatype session_act = Woken wake | Called session_command | Drained | Captures bool | Predicts bool

fun act :: "('c, 'd) env \<Rightarrow> bool \<times> ('c, 'd) session_loop \<Rightarrow> session_act \<Rightarrow> bool \<times> ('c, 'd) session_loop" where
  "act e (go, s) (Woken w) = (if go then run_round e s w else (go, s))"
| "act e (go, s) (Called c) = (go, called (env_display e) s c)"
| "act e (go, s) Drained = (go, snd (take_host_bytes s))"
| "act e (go, s) (Captures on) = (go, set_host_bytes_capture s on)"
| "act e (go, s) (Predicts on) = (go, session_set_prediction s on)"

lemma called_log: "log_inv (called ops s c) = log_inv s"
  by (cases c) (simp_all add: resize_session_def Let_def)

lemma act_log: "log_inv (snd (act e (go, s) a)) = log_inv s" if "\<nexists>w. a = Woken w"
  using that by (cases a) (simp_all add: take_host_bytes_def called_log)

lemma reaches_send: "reaches ops \<sigma>0 p s \<Longrightarrow> reaches ops \<sigma>0 p (command s c)"
  by (rule reaches_call, assumption) (use call_once [OF thread_step.send] in fastforce)

lemma reaches_called: "reaches ops \<sigma>0 p s \<Longrightarrow> \<not> locked p \<Longrightarrow> reaches ops \<sigma>0 p (called ops s c)"
  by (cases c) (simp_all add: reaches_send reaches_resize)

lemma act_reaches:
  assumes "reaches (env_display e) \<sigma>0 Resting s" and "\<nexists>w. a = Woken w"
  shows "reaches (env_display e) \<sigma>0 Resting (snd (act e (go, s) a))"
proof (cases a)
  case (Called c)
  with reaches_called [OF assms(1), of c] show ?thesis by simp
next
  case Drained
  show ?thesis unfolding Drained
    by (rule reaches_call [OF assms(1)])
      (use call_once [OF thread_step.drain [OF prod.collapse [symmetric]]] in fastforce)
next
  case (Captures on)
  show ?thesis unfolding Captures by (rule reaches_call [OF assms(1)]) (use call_once [OF thread_step.capture] in fastforce)
next
  case (Predicts on)
  show ?thesis unfolding Predicts by (rule reaches_call [OF assms(1)]) (use call_once [OF thread_step.predict] in fastforce)
qed (use assms(2) in simp)

lemma act_interleaved:
  assumes "interleaved (env_display e) \<sigma>0 s"
  shows "interleaved (env_display e) \<sigma>0 (snd (act e (go, s) a))"
proof (cases "\<exists>w. a = Woken w")
  case True
  with assms interleaved.round [of e \<sigma>0 s 0 1 w for w] show ?thesis by auto
next
  case False
  with assms act_log [of a e go s] act_reaches [of e \<sigma>0 s a go] show ?thesis by (simp add: interleaved_def)
qed

lemma acts_interleaved:
  "interleaved (env_display e) \<sigma>0 (snd gs) \<Longrightarrow> interleaved (env_display e) \<sigma>0 (snd (foldl (act e) gs acts))"
proof (induction acts arbitrary: gs)
  case (Cons a acts)
  then show ?case using act_interleaved [of e \<sigma>0 "snd gs" "fst gs" a] by simp
qed simp

text \<open>A local resize while a branch is rebuilt on the side is lost when the rebuilt display is swapped in.\<close>

lemma rebuild_discards_resize:
  fixes w h :: i32
  assumes "pc \<sigma> = Feeding num (Some d) []" and "sint w \<ge> 2" "sint h \<ge> 2"
  shows "\<exists>\<sigma>1 \<sigma>2. thread_step ops \<sigma> \<sigma>1 \<and> display (engine \<sigma>1) = display_resize ops (display (engine \<sigma>)) (scast w) (scast h) \<and>
    thread_step ops \<sigma>1 \<sigma>2 \<and> display (engine \<sigma>2) = d"
proof -
  let ?\<sigma>1 = "\<sigma>\<lparr>engine := (engine \<sigma>)\<lparr>display := display_resize ops (display (engine \<sigma>)) (scast w) (scast h)\<rparr>,
    calls := calls \<sigma> @ [Bump w h]\<rparr>"
  have "thread_step ops \<sigma> ?\<sigma>1" by (rule thread_step.resize) (use assms in simp_all)
  moreover obtain p s' where next_: "loop_next ops (pc ?\<sigma>1) (engine ?\<sigma>1) = (p, s')" by fastforce
  then have "display s' = d" using assms(1) by (auto simp: loop_next.simps)
  moreover have "pc ?\<sigma>1 \<noteq> Resting" using assms(1) by simp
  ultimately show ?thesis using thread_step.loop [OF _ next_] by fastforce
qed

section \<open>Properties\<close>

lemma launched_screen:
  assumes "start ocb_new self = (self', Some loop)"
  shows "screen_inv ops (display self) (threads_new loop)" and "shared_of loop = shared_of self"
    and "pending_bytes loop = pending_bytes self" and "interleaved ops (threads_new loop) loop"
proof -
  obtain l where l: "loop = launch_loop ocb_new l self" using start_loop [OF assms] by blast
  have "log_inv loop" using launched_display [where ops = ops and w = self and R = "\<lambda>_ _. True" and o' = ocb_new and l = l] by (simp add: l display_inv_def)
  moreover have "log_iter (newest loop) = []" "log_iter (engine_at loop) = []" "display loop = display self"
    by (simp_all add: l newest_def receiver_new_def latest_state_def latest_def host_stream_new_def log_iter_def event_log_new_def)
  ultimately show "screen_inv ops (display self) (threads_new loop)" and "interleaved ops (threads_new loop) loop"
    using threads_reach.launched [of ops "threads_new loop"]
    by (auto simp: screen_inv_def fed_inv_def threads_new_def interleaved_def reaches_def intro: mixed.supplied)
  show "shared_of loop = shared_of self" "pending_bytes loop = pending_bytes self"
    by (simp_all add: l launch_loop_def session_loop_new_def Let_def)
qed

text \<open>C7: However the loop and the embedder interleave: whenever the loop rests, the display has drawn the
  newest received state's events, each once and in order, on the supplied display or on a blank one,
  and nothing besides them but local resizes.\<close>

theorem screen_in_every_interleaving:
  assumes "start ocb_new self = (self', Some loop)" and "threads_reach ops (threads_new loop) \<sigma>" and "pc \<sigma> = Resting"
  shows "mixed ops (\<lambda>_ _. True) (display self) (display (engine \<sigma>)) (log_iter (newest (engine \<sigma>)))"
  using screen_reach [OF assms(2) launched_screen(1) [OF assms(1)]] assms(3) by (simp add: screen_inv_def)

text \<open>C8: No repaint is missed once the loop rests: an embedder that looked up the frame version before it
  painted, and finds the same version at a point where the loop rests and no call of \<open>resize\<close> is in
  progress, has painted what the display shows now, whatever ran in between, as long as the version
  was raised fewer than \<open>2 ^ 64\<close> times. In the middle of an update the display is ahead of the version:
  between a feed or a local resize and the \<open>fetch_add\<close> after it the old version says nothing.\<close>

theorem no_missed_repaint:
  assumes "threads_reach ops (threads_new loop) \<sigma>" and "bumps \<sigma> < 2 ^ 64" and "pc \<sigma> = Resting" and "calls \<sigma> = []"
    and "painted \<sigma> = Some (v, k, d)" and "session_frame_version (engine \<sigma>) = v"
  shows "d = display (engine \<sigma>)"
proof -
  have inv: "version_inv (frame_version (shared_of loop)) \<sigma>" by (rule version_reach [OF assms(1) version_new])
  then have same: "(of_nat (bumps \<sigma>) :: u64) = of_nat k" and "k \<le> bumps \<sigma>"
    using assms(5,6) by (auto simp: version_inv_def session_frame_version_def)
  then have "k < 2 ^ 64" using assms(2) by linarith
  then have "unat (of_nat k :: u64) = k" "unat (of_nat (bumps \<sigma>) :: u64) = bumps \<sigma>"
    using assms(2) by (simp_all add: unsigned_of_nat take_bit_nat_eq_self)
  then have "k = bumps \<sigma>" using same by simp
  then show ?thesis using inv assms(3-5) by (simp add: version_inv_def bumped_def)
qed

text \<open>C9: A linear consumer stays correct: if the capture is on when the session starts and is never switched
  off, then at every point where the loop rests the bytes taken so far followed by those waiting end
  with the complete host bytes of the newest received state, and are nothing but those until a branch
  is rebuilt. While an update is in progress, or once the capture was off, nothing is claimed.\<close>

theorem host_bytes_complete:
  assumes "start ocb_new self = (self', Some loop)" and "capture_host_bytes (shared_of self)"
    and "threads_reach ops (threads_new loop) \<sigma>" and "pc \<sigma> = Resting" and "\<not> silenced \<sigma>"
  shows "\<exists>earlier. taken \<sigma> @ pending_bytes (engine \<sigma>)
      = pending_bytes self @ earlier @ host_bytes (log_iter (newest (engine \<sigma>))) \<and> (\<not> branched \<sigma> \<longrightarrow> earlier = [])"
proof -
  have "bytes_inv (pending_bytes self) (threads_new loop)"
    using launched_screen(2,3) [OF assms(1)] assms(2) by (simp add: bytes_inv_def threads_new_def)
  from bytes_reach [OF assms(3) this] assms(4,5)
  have "taken \<sigma> @ pending_bytes (engine \<sigma>) = pending_bytes self @ host_bytes (fed \<sigma>)" by (simp add: bytes_inv_def)
  moreover obtain pre where "fed \<sigma> = pre @ log_iter (newest (engine \<sigma>))" "\<not> branched \<sigma> \<longrightarrow> pre = []"
    using screen_reach [OF assms(3) launched_screen(1) [OF assms(1)]] assms(4) by (auto simp: screen_inv_def fed_inv_def)
  ultimately show ?thesis by (auto simp: host_bytes_append)
qed

text \<open>C10: The loop of whole rounds is one of the interleavings: whatever the rounds and the calls between them,
  an interleaving of single accesses ends, with the loop at rest and no call in progress, in the same
  state. So what holds in every interleaving holds of the whole rounds.\<close>

theorem sessions_are_interleavings:
  assumes "start ocb_new self = (self', Some loop)"
  shows "\<exists>\<sigma>. threads_reach (env_display e) (threads_new loop) \<sigma> \<and> pc \<sigma> = Resting \<and> calls \<sigma> = [] \<and>
     engine \<sigma> = snd (foldl (act e) (True, loop) acts)"
  using acts_interleaved [of e "threads_new loop" "(True, loop)" acts] launched_screen(4) [OF assms]
  by (simp add: interleaved_def reaches_def)

section \<open>Witnesses\<close>

text \<open>The newest state of a toy session prints a prompt; the loop feeds it while the embedder resizes and paints.\<close>

definition prompt_log :: event_log where
  "prompt_log = fst (log_push 0 event_log_new (Bytes [36, 32]))"

definition prompt_loop :: "(unit, bytes) session_loop" where
  "prompt_loop = toy_loop\<lparr>next_addr := 1, receiver := \<lparr>received = [\<lparr>ts_timestamp = 0, ts_num = 0, ts_state = host_stream_new\<rparr>,
     \<lparr>ts_timestamp = 50, ts_num = 1, ts_state = \<lparr>host_log = prompt_log, echo_ack = 0\<rparr>\<rparr>], quench_until = 0\<rparr>\<rparr>"

lemma prompt_log_inv: "log_inv prompt_loop"
proof -
  have "log_family 1 (insert prompt_log {event_log_new})"
    by (simp add: log_family_def log_ok_def log_below_def coherent_def prompt_log_def log_push_def event_log_new_def)
  moreover have "engine_at toy_loop = event_log_new" by (simp add: toy_loop_def)
  ultimately show ?thesis
    by (simp add: log_inv_def prompt_loop_def receiver_inv_def logs_def host_stream_new_def insert_commute)
qed

definition prompt_arrived :: "(unit, bytes) threads" where
  "prompt_arrived = (threads_new toy_loop)\<lparr>pc := Advancing 1, engine := prompt_loop\<rparr>"

definition prompt_drawn :: "(unit, bytes) session_loop" where
  "prompt_drawn = prompt_loop\<lparr>display := [36, 32], pending_bytes := [36, 32], engine_at := prompt_log\<rparr>"

definition prompt_shown :: "(unit, bytes) threads" where
  "prompt_shown = (threads_new toy_loop)\<lparr>pc := Resting, engine := emit (bump_frame prompt_drawn) (ScreenChanged 1),
     bumps := 1, fed := [Bytes [36, 32]]\<rparr>"

lemma prompt_fields:
  "newest prompt_loop = prompt_log" "newest prompt_drawn = prompt_log" "engine_at prompt_loop = event_log_new" "display prompt_loop = []"
  "pending_bytes prompt_loop = []" "capture_host_bytes (shared_of prompt_loop)" "log_iter prompt_log = [Bytes [36, 32]]"
  "suffix_over prompt_log event_log_new = Some [Bytes [36, 32]]" "session_retire prompt_drawn ack = (False, prompt_drawn)"
  "engine_at toy_loop = event_log_new" "newest toy_loop = event_log_new"
  by (simp_all add: prompt_loop_def prompt_drawn_def toy_loop_def newest_def latest_state_def latest_def launch_loop_def
      session_loop_new_def toy_session_def shared_new_def Let_def prompt_log_def log_push_def event_log_new_def log_iter_def
      suffix_over_def session_retire_def retire_predictions_def confirmed_prefix_len_def prediction_new_def receiver_new_def
      host_stream_new_def numeral_eq_Suc)

lemma prompt_arrives: "thread_step toy_ops (threads_new toy_loop) prompt_arrived"
proof -
  have "same_screen toy_loop prompt_loop" by (simp add: same_screen_def prompt_loop_def)
  from thread_step.arrive [of "threads_new toy_loop" prompt_loop toy_ops 1] this prompt_log_inv show ?thesis
    by (simp add: prompt_arrived_def threads_new_def)
qed

lemma prompt_reach: "threads_reach toy_ops (threads_new toy_loop) prompt_shown"
proof -
  let ?at = "\<lambda>p s n evs. (threads_new toy_loop)\<lparr>pc := p, engine := s, bumps := n, fed := evs\<rparr>"
  let ?R = "threads_reach toy_ops (threads_new toy_loop)" and ?ev = "Bytes [36, 32]"
  have go: "?R (?at p' s' (n + bumping p) (evs @ feeds p))"
    if "?R (?at p s n evs)" "p \<noteq> Resting" "loop_next toy_ops p s = (p', s')" "\<not> rebuilds p s" for p p' s s' n evs
    using threads_reach.step [OF that(1) thread_step.loop [of _ toy_ops p' s']] that by (simp add: threads_new_def)
  have "?R (?at (Advancing 1) prompt_loop 0 [])"
    using threads_reach.step [OF threads_reach.launched prompt_arrives] by (simp add: prompt_arrived_def threads_new_def)
  from go [OF this] have "?R (?at (Feeding 1 None [?ev]) prompt_loop 0 [])" by (simp add: loop_next.simps prompt_fields)
  from go [OF this] have "?R (?at (Appending 1 None [36, 32] []) (prompt_loop\<lparr>display := [36, 32]\<rparr>) 0 [?ev])"
    by (simp add: loop_next.simps feed_one_def prompt_fields toy_ops_def)
  from go [OF this] have "?R (?at (Feeding 1 None []) (prompt_loop\<lparr>display := [36, 32], pending_bytes := [36, 32]\<rparr>) 0 [?ev])"
    by (simp add: loop_next.simps prompt_fields)
  from go [OF this] have "?R (?at (Retiring 1 True) prompt_drawn 0 [?ev])"
    by (simp add: loop_next.simps prompt_fields prompt_drawn_def)
  from go [OF this] have "?R (?at (Bumping 1) prompt_drawn 0 [?ev])" by (simp add: loop_next.simps prompt_fields)
  from go [OF this] have "?R (?at (Reporting 1) (bump_frame prompt_drawn) 1 [?ev])" by (simp add: loop_next.simps)
  from go [OF this] show ?thesis by (simp add: loop_next.simps prompt_shown_def)
qed

text \<open>Then the embedder looks up the version, paints, and takes the bytes.\<close>

definition prompt_painted :: "(unit, bytes) threads" where
  "prompt_painted = prompt_shown\<lparr>looked := Some (2, 1), painted := Some (2, 1, [36, 32])\<rparr>"

lemma prompt_shown_fields:
  "pc prompt_shown = Resting" "calls prompt_shown = []" "display (engine prompt_shown) = [36, 32]" "bumps prompt_shown = 1"
  "session_frame_version (engine prompt_shown) = 2" "newest (engine prompt_shown) = prompt_log" "taken prompt_shown = []"
  "\<not> silenced prompt_shown" "\<not> branched prompt_shown" "pending_bytes (engine prompt_shown) = [36, 32]"
  by (simp_all add: prompt_shown_def threads_new_def emit_def bump_frame_def prompt_drawn_def session_frame_version_def
      prompt_loop_def toy_loop_def launch_loop_def session_loop_new_def toy_session_def shared_new_def Let_def newest_def
      latest_state_def latest_def)

lemma painted_reach: "threads_reach toy_ops (threads_new toy_loop) prompt_painted"
proof -
  let ?l = "prompt_shown\<lparr>looked := Some (session_frame_version (engine prompt_shown), bumps prompt_shown)\<rparr>"
  have "threads_reach toy_ops (threads_new toy_loop) ?l" by (rule threads_reach.step [OF prompt_reach thread_step.look])
  from threads_reach.step [OF this thread_step.paint [of ?l "session_frame_version (engine prompt_shown)" "bumps prompt_shown" toy_ops]]
  show ?thesis by (simp add: prompt_painted_def prompt_shown_fields)
qed

theorem screen_in_every_interleaving_witness: "mixed toy_ops (\<lambda>_ _. True) [] [36, 32] [Bytes [36, 32]]"
  using screen_in_every_interleaving [OF toy_start prompt_reach prompt_shown_fields(1)]
  by (simp add: prompt_shown_fields prompt_fields toy_session_def)

theorem no_missed_repaint_witness: "[36, 32] = display (engine prompt_painted)"
  using no_missed_repaint [OF painted_reach, of 2 1 "[36, 32]"] prompt_shown_fields by (simp add: prompt_painted_def)

theorem host_bytes_complete_witness:
  "\<exists>earlier. [36, 32] = earlier @ host_bytes [Bytes [36, 32]] \<and> earlier = []"
  using host_bytes_complete [OF toy_start _ prompt_reach] by (simp add: prompt_shown_fields prompt_fields toy_session_def shared_new_def)

theorem sessions_are_interleavings_witness:
  "\<exists>\<sigma>. threads_reach toy_ops (threads_new toy_loop) \<sigma> \<and> pc \<sigma> = Resting \<and> calls \<sigma> = [] \<and>
     engine \<sigma> = snd (foldl (act toy_env) (True, toy_loop) [Called (ResizeTo 100 30), Woken (toy_wake 5 [Input [108]]), Drained])"
  using sessions_are_interleavings [OF toy_start, of toy_env "[Called (ResizeTo 100 30), Woken (toy_wake 5 [Input [108]]), Drained]"]
  by (simp add: toy_env_def del: act.simps foldl.simps)

end
