(* ===== verification/Deployment.thy ===== *)
theory Deployment
  imports Ssp_System Mosh_Session
begin

text \<open>
  The session loop of \<^verbatim>\<open>src/session.rs\<close> and its server, over a network that the attacker controls.

  The server is built from the crate's own parts: its opener, its reassembly and a receiver of the
  user stream. What it sends back is free, as long as each instruction speaks the client's protocol
  version, acknowledges a number that the server has reported and carries a diff that parses: it may
  frame a state number again from another base, with another diff. The network may lose, repeat, reorder and alter every datagram; the one
  thing it cannot do is forge: bytes that open under the session key were sealed by the other side.

  \<open>Ssp_System\<close> is the specification: every step of the deployment is a sequence of steps of that
  system (\<open>up_ok\<close> is the simulation relation), so its theorems hold of what the real loop sends as
  sealed bytes.
\<close>

section \<open>Deployments\<close>

record ('c, 'd) deployment =
  client :: "('c, 'd) session_loop"
  running :: bool
  entered :: "user_event list"
  asked :: "(i32 \<times> i32) set"
  far_assembly :: fragment_assembly
  far_receiver :: "user_stream ssp_receiver"
  reported :: "u64 set"
  host_sent :: registry
  turns :: nat

text \<open>What the commands of a round enter: everything up to a shutdown or the end of the session.\<close>

definition accepted :: "('c, 'd) session_loop \<Rightarrow> wake \<Rightarrow> user_event list" where
  "accepted s w =
     (if shutdown_in_progress (sender s) then []
      else concat (map command_events
        (takeWhile (\<lambda>c. c \<noteq> StartShutdown \<and> c \<noteq> Terminate) (commands s @ wake_commands w))))"

text \<open>The sizes that the calls of \<open>resize\<close> since the last round asked for.\<close>

definition sizes :: "wake \<Rightarrow> (i32 \<times> i32) set" where
  "sizes w = {(width, height). ResizeTo width height \<in> set (wake_commands w)}"

text \<open>A fragment of an instruction the server has sent.\<close>

definition from_host :: "registry \<Rightarrow> fragment \<Rightarrow> bool" where
  "from_host reg f \<longleftrightarrow> (\<exists>inst frs. reg (frag_id f) = Some (inst, frs) \<and> f \<in> set frs)"

text \<open>The server handles a datagram as the crate's own engine does.\<close>

definition far_hears ::
  "('c, 'd) env \<Rightarrow> 'c mosh_opener \<Rightarrow> ('c, 'd) deployment \<Rightarrow> bytes \<Rightarrow> u64 \<Rightarrow> ('c, 'd) deployment" where
  "far_hears e op \<delta> bs now =
     (case open_datagram (env_dec e) op bs of
        Inl _ \<Rightarrow> \<delta>
      | Inr (_, _, payload) \<Rightarrow>
          (case fragment_parse payload of
             Inl _ \<Rightarrow> \<delta>
           | Inr frag \<Rightarrow>
               (case add_fragment (env_zr e) (far_assembly \<delta>) frag of
                  (None, a) \<Rightarrow> \<delta>\<lparr>far_assembly := a\<rparr>
                | (Some inst, a) \<Rightarrow>
                    (case process_instruction (lift_apply user_apply_string) () (far_receiver \<delta>) inst now of
                       (_, r, _) \<Rightarrow> \<delta>\<lparr>far_assembly := a, far_receiver := r,
                                       reported := insert (ts_num (latest r)) (reported \<delta>)\<rparr>))))"

text \<open>The instruction speaks the client's protocol version and its diff parses.\<close>

definition well_formed :: "transport_instruction \<Rightarrow> bool" where
  "well_formed inst \<longleftrightarrow> protocol_version inst = MOSH_PROTOCOL_VERSION \<and> (\<exists>m. host_decode (diff inst) = Inr m)"

definition diff_events :: "transport_instruction \<Rightarrow> host_event list" where
  "diff_events inst =
     (case host_decode (diff inst) of Inl _ \<Rightarrow> [] | Inr m \<Rightarrow> concat (map host_instruction_events (host_instructions m)))"

text \<open>What the server has printed on the way to one of its states: a chain of the diffs it sent, from state 0.\<close>

inductive printed :: "registry \<Rightarrow> u64 \<Rightarrow> host_event list \<Rightarrow> bool" for reg :: registry where
  origin: "printed reg 0 []"
| link: "printed reg (old_num inst) evs \<Longrightarrow> reg i = Some (inst, frs) \<Longrightarrow> printed reg (new_num inst) (evs @ diff_events inst)"

lemma printed_extends: "printed reg n evs \<Longrightarrow> extends_reg reg reg' \<Longrightarrow> printed reg' n evs"
  by (induction rule: printed.induct) (auto simp: extends_reg_def intro: printed.intros)

definition deployed :: "session_launch \<Rightarrow> ('c, 'd) session_loop \<Rightarrow> ('c, 'd) deployment" where
  "deployed l loop =
     \<lparr>client = loop, running = True, entered = [Resize (launch_cols l) (launch_rows l)], asked = {},
      far_assembly = assembly_new, far_receiver = receiver_new user_stream_new 0, reported = {0},
      host_sent = Map.empty, turns = 0\<rparr>"

inductive e2e_step ::
  "('c, 'd) env \<Rightarrow> 'c mosh_opener \<Rightarrow> ('c, 'd) deployment \<Rightarrow> ('c, 'd) deployment \<Rightarrow> bool"
  for e :: "('c, 'd) env" and op :: "'c mosh_opener" where
  turn: "running \<delta> \<Longrightarrow> turns \<delta> < NUMBER_LIMIT \<Longrightarrow>
     genuine_wake e (opener (client \<delta>)) (from_host (host_sent \<delta>)) w \<Longrightarrow>
     fits (env_zc e) (round_output e (client \<delta>) w) \<Longrightarrow> run_round e (client \<delta>) w = (go, s') \<Longrightarrow>
     e2e_step e op \<delta> (\<delta>\<lparr>client := s', running := go, entered := entered \<delta> @ accepted (client \<delta>) w,
       asked := asked \<delta> \<union> sizes w, turns := Suc (turns \<delta>)\<rparr>)"
| hear: "bs \<in> snd ` set (sent_datagrams (client \<delta>)) \<or> (\<exists>err. open_datagram (env_dec e) op bs = Inl err) \<Longrightarrow>
     e2e_step e op \<delta> (far_hears e op \<delta> bs now)"
| speak: "host_sent \<delta> i = None \<Longrightarrow> sent_as (env_zc e) i inst frs \<Longrightarrow> ack_num inst \<in> reported \<delta> \<Longrightarrow>
     well_formed inst \<Longrightarrow> e2e_step e op \<delta> (\<delta>\<lparr>host_sent := (host_sent \<delta>)(i \<mapsto> (inst, frs))\<rparr>)"

inductive e2e_reachable ::
  "('c, 'd) env \<Rightarrow> 'c mosh_opener \<Rightarrow> ('c, 'd) deployment \<Rightarrow> ('c, 'd) deployment \<Rightarrow> bool"
  for e :: "('c, 'd) env" and op :: "'c mosh_opener"
    and \<delta>0 :: "('c, 'd) deployment" where
  start: "e2e_reachable e op \<delta>0 \<delta>0"
| step: "e2e_reachable e op \<delta>0 \<delta> \<Longrightarrow> e2e_step e op \<delta> \<delta>' \<Longrightarrow> e2e_reachable e op \<delta>0 \<delta>'"

section \<open>What the handlers leave alone\<close>

text \<open>The parts of the loop that face the network.\<close>

lemma note_fresh_wire [simp]:
  "assembly (note_fresh s seq header now now') = assembly s"
  "loop_fragmenter (note_fresh s seq header now now') = loop_fragmenter s"
  "sealer (note_fresh s seq header now now') = sealer s"
  "sent_datagrams (note_fresh s seq header now now') = sent_datagrams s"
  by (simp_all add: note_fresh_def note_reply_def Let_def split: option.split)

lemma show_latest_wire [simp]:
  "assembly (show_latest ops s num) = assembly s" "loop_fragmenter (show_latest ops s num) = loop_fragmenter s"
  "sealer (show_latest ops s num) = sealer s" "sent_datagrams (show_latest ops s num) = sent_datagrams s"
  by (auto simp: show_latest_def Let_def advance_display_eq session_retire_def bump_frame_def emit_def
      split: option.split list.split prod.split)

lemma instruction_wire [simp]:
  "assembly (handle_instruction e s inst now) = assembly s"
  "loop_fragmenter (handle_instruction e s inst now) = loop_fragmenter s"
  "sealer (handle_instruction e s inst now) = sealer s"
  "sent_datagrams (handle_instruction e s inst now) = sent_datagrams s"
  by (auto simp: handle_instruction_def note_ack_def Let_def split: prod.split sum.split recv_outcome.split)

lemma predict_wire [simp]:
  "assembly (session_predict ops s bs) = assembly s" "sealer (session_predict ops s bs) = sealer s"
  "loop_fragmenter (session_predict ops s bs) = loop_fragmenter s" "opener (session_predict ops s bs) = opener s"
  by (simp_all add: session_predict_def split: prod.split)

lemma command_wire [simp]:
  "assembly (handle_command ops s now c) = assembly s"
  "loop_fragmenter (handle_command ops s now c) = loop_fragmenter s"
  "sealer (handle_command ops s now c) = sealer s"
  by (auto simp: handle_command_def split: session_command.split)

lemma drain_wire [simp]:
  "assembly (snd (drain_loop ops s now cs)) = assembly s"
  "loop_fragmenter (snd (drain_loop ops s now cs)) = loop_fragmenter s"
  "sealer (snd (drain_loop ops s now cs)) = sealer s"
  "receiver (snd (drain_loop ops s now cs)) = receiver s"
  by (induction cs arbitrary: s) simp_all

lemma wait_wire [simp]:
  "assembly (snd (run_wait s now)) = assembly s" "loop_fragmenter (snd (run_wait s now)) = loop_fragmenter s"
  "sealer (snd (run_wait s now)) = sealer s" "fatal (snd (run_wait s now)) = fatal s"
  by (simp_all add: run_wait_def split: prod.split)

lemma send_fragment_sealer:
  "seal_ocb (sealer (send_fragment e s f clk)) = seal_ocb (sealer s) \<and>
   seal_direction (sealer (send_fragment e s f clk)) = seal_direction (sealer s)"
  by (auto simp: send_fragment_def Let_def outgoing_reply_def split: prod.split sum.split option.split send_result.split
      dest: seal_frame)

lemma send_fragments_fatal:
  "fatal (send_fragments e s out clk) \<in> {fatal s, Some ''mosh: session exhausted its key budget''}"
proof (induction out arbitrary: s clk)
  case (Cons f out)
  have "fatal (send_fragment e s f (clk 0)) \<in> {fatal s, Some ''mosh: session exhausted its key budget''}"
    by (auto simp: send_fragment_def Let_def outgoing_reply_def split: prod.split sum.split option.split send_result.split)
  with Cons.IH [of "send_fragment e s f (clk 0)" "\<lambda>k. clk (Suc k)"] show ?case by auto
qed simp

lemma send_fragments_wire:
  "assembly (send_fragments e s out clk) = assembly s \<and> receiver (send_fragments e s out clk) = receiver s"
proof (induction out arbitrary: s clk)
  case (Cons f out)
  from send_fragment_eq [of e s f "clk 0"] have "assembly (send_fragment e s f (clk 0)) = assembly s" by auto
  with Cons show ?case by simp
qed simp

lemma hop_wire [simp]:
  "assembly (prune_sockets (maybe_hop_port s now b) now) = assembly s"
  "sealer (prune_sockets (maybe_hop_port s now b) now) = sealer s"
  "fatal (prune_sockets (maybe_hop_port s now b) now) = fatal s"
  by (simp_all add: prune_sockets_def maybe_hop_port_def Let_def split: option.split)

section \<open>The simulation\<close>

text \<open>The abstract system behind a client \<open>s\<close> and the server side of \<open>\<delta>\<close>, with the fragments \<open>F\<close> on the network.\<close>

definition sys_of :: "('c, 'd) deployment \<Rightarrow> fragment set \<Rightarrow> ('c, 'd) session_loop \<Rightarrow> sync_system" where
  "sys_of \<delta> F s =
     \<lparr>typed = entered \<delta>, sys_sender = sender s, framer = loop_fragmenter s, in_flight = F,
      sys_assembly = far_assembly \<delta>, sys_receiver = far_receiver \<delta>, acks = reported \<delta>\<rparr>"

text \<open>Every datagram the client ever sent carries one of those fragments, sealed under the session key.\<close>

definition carried :: "('c, 'd) env \<Rightarrow> 'c \<Rightarrow> fragment set \<Rightarrow> ('c, 'd) session_loop \<Rightarrow> bool" where
  "carried e c F s \<longleftrightarrow>
     (\<forall>(i, d) \<in> set (sent_datagrams s). \<exists>k header k' f.
        seal (env_enc e) k header (fragment_tostring f) = (Inr d, k') \<and> seal_ocb k = c \<and>
        seal_direction k = ToServer \<and> f \<in> F \<and> fragment_num f \<le> MAX_FRAGMENT_INDEX)"

definition up_ok :: "('c, 'd) env \<Rightarrow> 'c \<Rightarrow> ('c, 'd) deployment \<Rightarrow> nat \<Rightarrow> ('c, 'd) session_loop \<Rightarrow> bool" where
  "up_ok e c \<delta> n s \<longleftrightarrow>
     seal_ocb (sealer s) = c \<and> seal_direction (sealer s) = ToServer \<and> user_inv n s \<and>
     unat (next_instruction_id (loop_fragmenter s)) \<le> n \<and>
     (\<exists>F. reachable (env_zc e) (env_zr e) (sys_of \<delta> F s) \<and> carried e c F s)"

text \<open>Each state the client holds of the terminal is what the server printed, and nothing the server says is fatal.\<close>

definition BUDGET_MESSAGE :: string where
  "BUDGET_MESSAGE = ''mosh: session exhausted its key budget''"

definition down_ok ::
  "('c, 'd) env \<Rightarrow> 'd \<Rightarrow> ('c, 'd) deployment \<Rightarrow> ('c, 'd) session_loop \<Rightarrow> bool" where
  "down_ok e d0 \<delta> s \<longleftrightarrow>
     display_inv (env_display e) (\<lambda>width height. (width, height) \<in> asked \<delta>) d0 s \<and> collecting (host_sent \<delta>) (assembly s) \<and>
     fatal s \<in> {None, Some BUDGET_MESSAGE} \<and>
     (\<forall>t \<in> set (received (receiver s)). printed (host_sent \<delta>) (ts_num t) (log_iter (host_log (ts_state t))))"

definition host_ok :: "('c, 'd) env \<Rightarrow> ('c, 'd) deployment \<Rightarrow> bool" where
  "host_ok e \<delta> \<longleftrightarrow>
     (\<forall>i inst frs. host_sent \<delta> i = Some (inst, frs) \<longrightarrow>
        sent_as (env_zc e) i inst frs \<and> ack_num inst \<in> reported \<delta> \<and> well_formed inst)"

definition linked ::
  "('c, 'd) env \<Rightarrow> 'c \<Rightarrow> 'd \<Rightarrow> ('c, 'd) deployment \<Rightarrow> nat \<Rightarrow> ('c, 'd) session_loop \<Rightarrow> bool" where
  "linked e c d0 \<delta> n s \<longleftrightarrow>
     zlib_ok (env_zc e) (env_zr e) \<and> host_ok e \<delta> \<and> up_ok e c \<delta> n s \<and> down_ok e d0 \<delta> s"

lemma linked_cong:
  assumes "linked e c d0 \<delta> n s"
    and "sender t = sender s" "prediction t = prediction s" "loop_fragmenter t = loop_fragmenter s"
      "sealer t = sealer s" "sent_datagrams t = sent_datagrams s" "receiver t = receiver s"
      "next_addr t = next_addr s" "engine_at t = engine_at s" "display t = display s" "assembly t = assembly s"
      "fatal t = fatal s"
  shows "linked e c d0 \<delta> n t"
  using assms display_inv_cong [of t s "env_display e" "\<lambda>width height. (width, height) \<in> asked \<delta>" d0]
  by (simp add: linked_def up_ok_def down_ok_def user_inv_def sys_of_def carried_def)

subsection \<open>Instructions from the server\<close>

text \<open>Abstract steps that only change the sender.\<close>

lemma reachable_outcome:
  assumes "reachable zc zr \<sigma>"
  shows "reachable zc zr (\<sigma>\<lparr>sys_sender := apply_recv_outcome (sys_sender \<sigma>) o' now\<rparr>)"
proof (cases o')
  case (Latest num had_diff st)
  let ?a = "\<sigma>\<lparr>sys_sender := set_ack_num (sys_sender \<sigma>) num\<rparr>"
  let ?b = "?a\<lparr>sys_sender := remote_heard (sys_sender ?a) now\<rparr>"
  have b: "reachable zc zr ?b"
    by (rule reachable.step [OF reachable.step [OF assms sys_step.peer [of _ _ _ num]] sys_step.heard])
  show ?thesis
  proof (cases had_diff)
    case True
    with reachable.step [OF b sys_step.data] Latest show ?thesis by (simp add: Let_def)
  next
    case False
    with b Latest show ?thesis by (simp add: Let_def)
  qed
qed (use assms in simp_all)

lemma up_instruction:
  assumes up: "up_ok e c \<delta> n s" and ack: "ack_num inst \<in> reported \<delta>"
  shows "up_ok e c \<delta> n (handle_instruction e s inst now)"
proof -
  let ?s' = "handle_instruction e s inst now"
  from up obtain F where F: "reachable (env_zc e) (env_zr e) (sys_of \<delta> F s)" "carried e c F s"
    by (auto simp: up_ok_def)
  have "reachable (env_zc e) (env_zr e) (sys_of \<delta> F ?s')"
    using handle_instruction_sender [of e s inst now]
  proof
    assume "sender ?s' = sender s"
    with F(1) show ?thesis by (simp add: sys_of_def)
  next
    assume "\<exists>o' :: host_stream_state recv_outcome. sender ?s'
        = apply_recv_outcome (process_acknowledgment_through (sender s) (ack_num inst)) o' now"
    then obtain o' :: "host_stream_state recv_outcome" where
      o': "sender ?s' = apply_recv_outcome (process_acknowledgment_through (sender s) (ack_num inst)) o' now" by blast
    have "ack_num inst \<in> acks (sys_of \<delta> F s)" using ack by (simp add: sys_of_def)
    from reachable_outcome [OF reachable.step [OF F(1) sys_step.ack [OF this]], of o' now] o'
    show ?thesis by (simp add: sys_of_def)
  qed
  moreover have "carried e c F ?s'" using F(2) by (simp add: carried_def)
  ultimately show ?thesis using up by (auto simp: up_ok_def intro: user_instruction)
qed

lemma printed_process:
  assumes inv: "receiver_inv r" and fam: "log_family free (insert l (logs r))"
    and told: "\<forall>t \<in> set (received r). printed reg (ts_num t) (log_iter (host_log (ts_state t)))"
    and sent: "reg i = Some (inst, frs)" and ok: "well_formed inst"
    and step: "process_instruction host_apply_string free r inst now = (res, r', free')"
  shows "\<forall>t \<in> set (received r'). printed reg (ts_num t) (log_iter (host_log (ts_state t)))"
  using inv step
proof (cases rule: process_instruction_cases)
  case (inserted outcome reference st)
  from ok obtain m where m: "host_decode (diff inst) = Inr m" by (auto simp: well_formed_def)
  have ref: "printed reg (old_num inst) (log_iter (host_log (ts_state reference)))"
    using told inserted(5,6) by (auto simp: kept_def)
  have "log_iter (host_log st) = log_iter (host_log (ts_state reference)) @ diff_events inst"
  proof (cases "diff inst = []")
    case True
    moreover have "host_decode [] = Inr \<lparr>host_instructions = []\<rparr>" by code_simp
    ultimately show ?thesis using inserted(7) by (simp add: diff_events_def)
  next
    case False
    with inserted(7) have ap: "host_apply_string free (ts_state reference) (diff inst) = (Inr st, free')" by simp
    have "host_log (ts_state reference) \<in> insert l (logs r)" using inserted(5) by (auto simp: logs_def kept_def)
    from host_apply_string_effect [OF fam this ap] obtain m' where "host_decode (diff inst) = Inr m'"
      "log_iter (host_log st) = log_iter (host_log (ts_state reference)) @ concat (map host_instruction_events (host_instructions m'))"
      by metis
    then show ?thesis by (simp add: diff_events_def)
  qed
  with printed.link [OF ref sent] have "printed reg (new_num inst) (log_iter (host_log st))" by simp
  with told inserted(8) show ?thesis by (auto simp: kept_def)
qed (use told in \<open>auto simp: kept_def\<close>)

lemma handle_instruction_receiver:
  "receiver (handle_instruction e s inst now) = receiver s \<or>
   (\<exists>res free'. process_instruction host_apply_string (next_addr s) (receiver s) inst now
      = (res, receiver (handle_instruction e s inst now), free'))"
  by (auto simp: handle_instruction_def Let_def split: prod.split sum.split recv_outcome.split)

lemma instruction_fatal:
  assumes inv: "receiver_inv (receiver s)" and ok: "well_formed inst"
  shows "fatal (handle_instruction e s inst now) = fatal s"
proof -
  from ok obtain m where v: "protocol_version inst = MOSH_PROTOCOL_VERSION" and m: "host_decode (diff inst) = Inr m"
    by (auto simp: well_formed_def)
  obtain res r' free' where st: "process_instruction host_apply_string (next_addr s) (receiver s) inst now = (res, r', free')"
    by (metis surj_pair)
  have "\<exists>outcome. res = Inr outcome"
    using inv st
  proof (cases rule: process_instruction_cases)
    case (bad_diff err reference)
    with m show ?thesis by (auto simp: host_apply_string_def split: prod.splits)
  qed (use v in simp_all)
  with v st show ?thesis by (auto simp: handle_instruction_def Let_def split: recv_outcome.split)
qed

lemma down_instruction:
  assumes down: "down_ok e d0 \<delta> s" and sent: "host_sent \<delta> i = Some (inst, frs)" and ok: "well_formed inst"
  shows "down_ok e d0 \<delta> (handle_instruction e s inst now)"
proof -
  have "display_inv (env_display e) (\<lambda>width height. (width, height) \<in> asked \<delta>) d0 (handle_instruction e s inst now)"
    using down by (simp add: down_ok_def display_instruction)
  moreover have "\<forall>t \<in> set (received (receiver (handle_instruction e s inst now))).
      printed (host_sent \<delta>) (ts_num t) (log_iter (host_log (ts_state t)))"
    using handle_instruction_receiver [of e s inst now] down
      printed_process [of "receiver s" "next_addr s" "engine_at s" "host_sent \<delta>" i inst frs now] sent ok
    by (auto simp: down_ok_def display_inv_def log_inv_def)
  moreover have "fatal (handle_instruction e s inst now) = fatal s"
    using down ok by (intro instruction_fatal) (auto simp: down_ok_def display_inv_def log_inv_def)
  ultimately show ?thesis using down by (simp add: down_ok_def)
qed

lemma linked_fragment:
  assumes lk: "linked e c d0 \<delta> n s" and f: "from_host (host_sent \<delta>) f"
  shows "linked e c d0 \<delta> n (handle_fragment e s f now)"
proof -
  from f obtain inst frs where reg: "host_sent \<delta> (frag_id f) = Some (inst, frs)" "f \<in> set frs"
    by (auto simp: from_host_def)
  have z: "zlib_ok (env_zc e) (env_zr e)" and host: "host_ok e \<delta>" and up: "up_ok e c \<delta> n s"
    and down: "down_ok e d0 \<delta> s" using lk by (simp_all add: linked_def)
  have all: "\<forall>i inst frs. host_sent \<delta> i = Some (inst, frs) \<longrightarrow> sent_as (env_zc e) i inst frs"
    and inst: "ack_num inst \<in> reported \<delta>" "well_formed inst"
    using host reg(1) by (auto simp: host_ok_def)
  obtain r a where add: "add_fragment (env_zr e) (assembly s) f = (r, a)" by fastforce
  have "collecting (host_sent \<delta>) (assembly s)" using down by (simp add: down_ok_def)
  from add_fragment_collecting [OF z all this reg] add
  have a: "collecting (host_sent \<delta>) a" "\<And>out. r = Some out \<Longrightarrow> out = inst" by simp_all
  let ?s1 = "s\<lparr>assembly := a\<rparr>"
  have "up_ok e c \<delta> n ?s1" using up by (simp add: up_ok_def sys_of_def carried_def user_inv_def)
  moreover have "down_ok e d0 \<delta> ?s1"
    using down a(1) display_inv_cong [of ?s1 s "env_display e" "\<lambda>width height. (width, height) \<in> asked \<delta>" d0] by (simp add: down_ok_def)
  ultimately show ?thesis
    using z host inst a(2) add unfolding linked_def handle_fragment_def
    by (cases r) (simp_all add: up_instruction down_instruction [OF _ reg(1)])
qed

subsection \<open>Ticks and sends\<close>

lemma run_tick_ids:
  assumes inv: "user_inv n s" and n: "n < NUMBER_LIMIT" and t: "run_tick e s now = (out, s')"
    and ids: "unat (next_instruction_id (loop_fragmenter s)) \<le> n"
  shows "unat (next_instruction_id (loop_fragmenter s')) \<le> Suc n"
proof -
  from inv obtain base H where i: "sender_inv events base H (sender s)" by (auto simp: user_inv_def)
  obtain fr where tk: "tick user_diff_from user_subtract (env_zc e) (sender s) now (rto s) (send_interval s) (fragment_mtu s)
      (loop_fragmenter s) [] = (sender s', fr, out)" and fr: "loop_fragmenter s' = fr" using run_tick_sender [OF t] .
  have one: "next_instruction_id fr'' \<in> {next_instruction_id f0, next_instruction_id f0 + 1}"
    if "make_fragments zc f0 inst mtu = (res, fr'')" for zc f0 inst mtu res fr''
  proof (cases "FRAG_HEADER_LEN < mtu")
    case True
    with make_fragments_state(4) [OF that] show ?thesis by auto
  next
    case False
    with that show ?thesis by (simp add: make_fragments_def)
  qed
  have "next_instruction_id fr \<in> {next_instruction_id (loop_fragmenter s), next_instruction_id (loop_fragmenter s) + 1}"
    using us.tick_inv [OF i user_room [OF inv n] tk] one
    by (fastforce dest!: sendsD(13) simp: emits_def split: prod.splits sum.splits)
  moreover have "unat (next_instruction_id (loop_fragmenter s) + 1) = Suc (unat (next_instruction_id (loop_fragmenter s)))"
    using ids n by (simp add: NUMBER_LIMIT_def unat_word_ariths)
  ultimately show ?thesis using ids fr by auto
qed

text \<open>The fragments of a tick are in flight as soon as it has made them; sending seals each.\<close>

lemma up_sends:
  assumes "up_ok e c \<delta> n s" and "reachable (env_zc e) (env_zr e) (sys_of \<delta> F s)" and "carried e c F s"
    and "\<forall>f \<in> set out. f \<in> F \<and> fragment_num f \<le> MAX_FRAGMENT_INDEX"
  shows "up_ok e c \<delta> n (send_fragments e s out clk)"
  using assms
proof (induction out arbitrary: s clk)
  case (Cons f out)
  let ?s1 = "send_fragment e s f (clk 0)"
  from send_fragment_eq [of e s f "clk 0"] obtain dgs where
    d: "sent_datagrams ?s1 = sent_datagrams s @ dgs" "\<forall>(i, d) \<in> set dgs.
        \<exists>header k'. seal (env_enc e) (sealer s) header (fragment_tostring f) = (Inr d, k')" by fastforce
  have k: "seal_ocb (sealer s) = c" "seal_direction (sealer s) = ToServer" using Cons.prems(1) by (simp_all add: up_ok_def)
  have c1: "carried e c F ?s1"
    using Cons.prems(3,4) d(2) k unfolding carried_def d(1) by fastforce
  have r1: "reachable (env_zc e) (env_zr e) (sys_of \<delta> F ?s1)" using Cons.prems(2) by (simp add: sys_of_def)
  have "up_ok e c \<delta> n ?s1"
    using Cons.prems(1) r1 c1 send_fragment_sealer [of e s f "clk 0"] user.fragment [of n s e f "clk 0"]
    by (auto simp: up_ok_def)
  from Cons.IH [OF this r1 c1] Cons.prems(4) show ?case by simp
qed simp

lemma linked_sent:
  assumes lk: "linked e c d0 \<delta> n s" and n: "n < NUMBER_LIMIT" and t: "run_tick e s now = (out, s')"
    and fit: "fits (env_zc e) out"
  shows "linked e c d0 \<delta> (Suc n) (send_fragments e s' out clk)"
proof -
  have up: "up_ok e c \<delta> n s" and down: "down_ok e d0 \<delta> s" using lk by (simp_all add: linked_def)
  then obtain F where F: "reachable (env_zc e) (env_zr e) (sys_of \<delta> F s)" "carried e c F s"
    and u: "user_inv n s" "unat (next_instruction_id (loop_fragmenter s)) \<le> n" by (auto simp: up_ok_def)
  obtain fr where tk: "tick user_diff_from user_subtract (env_zc e) (sender s) now (rto s) (send_interval s) (fragment_mtu s)
      (loop_fragmenter s) [] = (sender s', fr, out)" and fr: "loop_fragmenter s' = fr" using run_tick_sender [OF t] .
  have id: "next_instruction_id (loop_fragmenter s) \<noteq> u64_max"
    using u(2) n unat_u64_max by (auto simp: NUMBER_LIMIT_def)
  let ?F = "F \<union> set out"
  have "sys_step (env_zc e) (env_zr e) (sys_of \<delta> F s) (sys_of \<delta> ?F s')"
    using sys_step.tick [of "env_zc e" "sys_of \<delta> F s" now "rto s" "send_interval s" "fragment_mtu s" "sender s'" fr out "env_zr e"]
      tk fr user_room [OF u(1) n] id fit by (simp add: sys_of_def)
  with F(1) have r: "reachable (env_zc e) (env_zr e) (sys_of \<delta> ?F s')" by (rule reachable.step)
  have frame: "sealer s' = sealer s" "sent_datagrams s' = sent_datagrams s" "assembly s' = assembly s"
    using t by (auto simp: run_tick_def Let_def split: prod.splits)
  have c: "carried e c ?F s'" using F(2) unfolding carried_def frame by fastforce
  have q: "queue_ok (sender s)" using u(1) sender_queue by (auto simp: user_inv_def)
  have small: "\<forall>f \<in> set out. f \<in> ?F \<and> fragment_num f \<le> MAX_FRAGMENT_INDEX"
    using run_tick_wireable [OF q t] by (simp add: wireable_def)
  have "up_ok e c \<delta> (Suc n) s'"
    using up user_tick [OF u(1) n t] run_tick_ids [OF u(1) n t u(2)] r c by (auto simp: up_ok_def frame)
  from up_sends [OF this r c small] have "up_ok e c \<delta> (Suc n) (send_fragments e s' out clk)" .
  moreover have "down_ok e d0 \<delta> (send_fragments e s' out clk)"
    using down shown.fragments [of e "\<lambda>width height. (width, height) \<in> asked \<delta>" d0 s' out clk] shown.ticked [of e "\<lambda>width height. (width, height) \<in> asked \<delta>" d0 s 0 1 now out s'] t
      send_fragments_fatal [of e s' out clk]
    by (auto simp: down_ok_def send_fragments_wire frame run_tick_frame [OF t] BUDGET_MESSAGE_def)
  ultimately show ?thesis using lk by (simp add: linked_def)
qed

subsection \<open>Whole rounds\<close>

interpretation far: round_invariant e "linked e c d0 \<delta>" "from_host (host_sent \<delta>)" "fits (env_zc e)" NUMBER_LIMIT
  for e :: "('c, 'd) env" and c d0 and \<delta> :: "('c, 'd) deployment"
proof
  fix s s' :: "('c, 'd) session_loop" and n f now out clk b
  show "linked e c d0 \<delta> n s \<Longrightarrow> from_host (host_sent \<delta>) f \<Longrightarrow>
      linked e c d0 \<delta> n (handle_fragment e s f now)" by (rule linked_fragment)
  show "linked e c d0 \<delta> n s \<Longrightarrow> n < NUMBER_LIMIT \<Longrightarrow> run_tick e s now = (out, s') \<Longrightarrow> fits (env_zc e) out \<Longrightarrow>
      linked e c d0 \<delta> (Suc n) (send_fragments e s' out clk)" by (rule linked_sent)
  show "linked e c d0 \<delta> (Suc n) s" if "linked e c d0 \<delta> n s"
    using that user.later [where n = n and s = s] by (auto simp: linked_def up_ok_def)
  show "linked e c d0 \<delta> n (prune_sockets (maybe_hop_port s now b) now)" if "linked e c d0 \<delta> n s"
    by (rule linked_cong [OF that]) simp_all
  show "linked e c d0 \<delta> n (snd (run_wait s now))" if lk: "linked e c d0 \<delta> n s"
  proof -
    obtain x sd where w: "wait_time (sender s) now (rto s) (send_interval s) = (x, sd)"
      "sender (snd (run_wait s now)) = sd" by (rule run_wait_sender)
    from lk obtain F where F: "reachable (env_zc e) (env_zr e) (sys_of \<delta> F s)" "carried e c F s"
      by (auto simp: linked_def up_ok_def)
    have "reachable (env_zc e) (env_zr e) (sys_of \<delta> F (snd (run_wait s now)))"
      using reachable.step [OF F(1) sys_step.poll [of "sys_of \<delta> F s" now "rto s" "send_interval s" x sd]] w
      by (simp add: sys_of_def)
    moreover have "carried e c F (snd (run_wait s now))" using F(2) by (simp add: carried_def)
    moreover have "display_inv (env_display e) (\<lambda>width height. (width, height) \<in> asked \<delta>) d0 (snd (run_wait s now))"
      using lk shown.waited [where s = s and now = now] by (simp add: linked_def down_ok_def)
    ultimately show ?thesis
      using lk user.waited [where n = n and s = s and now = now] by (auto simp: linked_def up_ok_def down_ok_def)
  qed
qed (erule linked_cong; simp add: emit_def)+

text \<open>The commands of a round are input of the abstract system, entered exactly as far as the loop accepts them.\<close>

lemma up_command:
  assumes "up_ok e c \<delta> n s"
  shows "up_ok e c (\<delta>\<lparr>entered := entered \<delta> @ (if shutdown_in_progress (sender s) then [] else command_events x)\<rparr>) n
           (handle_command ops s now x)"
proof -
  let ?\<delta>' = "\<delta>\<lparr>entered := entered \<delta> @ (if shutdown_in_progress (sender s) then [] else command_events x)\<rparr>"
  let ?s' = "handle_command ops s now x"
  from assms obtain F where F: "reachable (env_zc e) (env_zr e) (sys_of \<delta> F s)" "carried e c F s"
    by (auto simp: up_ok_def)
  have "reachable (env_zc e) (env_zr e) (sys_of ?\<delta>' F ?s')"
  proof (cases "shutdown_in_progress (sender s) \<and> x \<noteq> StartShutdown \<or> x = Terminate")
    case True
    with F(1) show ?thesis by (cases x) (auto simp: handle_command_def sys_of_def)
  next
    case False
    then have "sys_step (env_zc e) (env_zr e) (sys_of \<delta> F s) (sys_of ?\<delta>' F ?s')"
      using sys_step.keys [of "sys_of \<delta> F s"] sys_step.resize [of "sys_of \<delta> F s"] sys_step.shutdown [of _ _ "sys_of \<delta> F s" now]
      by (cases x) (auto simp: handle_command_def sys_of_def)
    with F(1) show ?thesis by (rule reachable.step)
  qed
  moreover have "carried e c F ?s'" using F(2) by (simp add: carried_def handle_command_sent)
  ultimately show ?thesis using assms user_command [of n s ops now x] by (auto simp: up_ok_def)
qed

lemma command_shutdown:
  "shutdown_in_progress (sender (handle_command ops s now x)) \<longleftrightarrow> shutdown_in_progress (sender s) \<or> x = StartShutdown"
  by (auto simp: handle_command_def start_shutdown_def split: session_command.split)

lemma up_drain:
  assumes "up_ok e c \<delta> n s"
  shows "up_ok e c (\<delta>\<lparr>entered := entered \<delta> @ (if shutdown_in_progress (sender s) then [] else
           concat (map command_events (takeWhile (\<lambda>c. c \<noteq> StartShutdown \<and> c \<noteq> Terminate) cs)))\<rparr>) n
         (snd (drain_loop ops s now cs))"
  using assms
proof (induction cs arbitrary: s \<delta>)
  case Nil
  then show ?case by (simp add: up_ok_def user_inv_def sys_of_def carried_def)
next
  case (Cons x cs)
  show ?case
  proof (cases "x = Terminate")
    case True
    with Cons.prems show ?thesis by (simp add: up_ok_def user_inv_def sys_of_def carried_def)
  next
    case False
    note step = Cons.IH [OF up_command [OF Cons.prems, of x ops now]]
    show ?thesis
    proof (cases "x = StartShutdown")
      case True
      with step show ?thesis by (simp add: command_shutdown split: if_splits)
    next
      case other: False
      with False step show ?thesis by (auto simp: command_shutdown)
    qed
  qed
qed

text \<open>The relation looks at the client and the server side only.\<close>

lemma linked_fields [simp]:
  "linked e c d0 (\<delta>\<lparr>client := s', running := go, entered := T, asked := A, turns := k\<rparr>) n s
     = linked e c d0 (\<delta>\<lparr>entered := T, asked := A\<rparr>) n s"
  by (simp add: linked_def host_ok_def up_ok_def down_ok_def sys_of_def)

lemma up_ok_asked [simp]: "up_ok e c (\<delta>\<lparr>asked := A\<rparr>) n s = up_ok e c \<delta> n s"
  by (simp add: up_ok_def sys_of_def)

lemma linked_woken:
  assumes "linked e c d0 \<delta> n s"
  shows "linked e c d0 (\<delta>\<lparr>asked := asked \<delta> \<union> sizes w\<rparr>) n (woken (env_display e) s w)"
proof -
  have "display_inv (env_display e) (\<lambda>width height. (width, height) \<in> asked \<delta> \<union> sizes w) d0 s"
    using assms by (auto simp: linked_def down_ok_def intro: display_inv_mono)
  then have "display_inv (env_display e) (\<lambda>width height. (width, height) \<in> asked \<delta> \<union> sizes w) d0 (woken (env_display e) s w)"
    by (rule shown.awake) (simp add: sizes_def)
  with assms show ?thesis by (simp add: linked_def host_ok_def up_ok_def down_ok_def user_inv_def sys_of_def carried_def)
qed

lemma linked_turn:
  assumes lk: "linked e c d0 \<delta> n s" and n: "n < NUMBER_LIMIT"
    and gen: "genuine_wake e (opener s) (from_host (host_sent \<delta>)) w" and fit: "fits (env_zc e) (round_output e s w)"
  shows "linked e c d0 (\<delta>\<lparr>entered := entered \<delta> @ accepted s w, asked := asked \<delta> \<union> sizes w\<rparr>) (Suc n) (snd (run_round e s w))"
proof -
  let ?\<delta>' = "\<delta>\<lparr>entered := entered \<delta> @ accepted s w, asked := asked \<delta> \<union> sizes w\<rparr>"
  obtain go s1 where d: "drain_commands (env_display e) (woken (env_display e) s w) (wake_now w) = (go, s1)" by fastforce
  note wk = linked_woken [OF lk, of w]
  have s1: "s1 = snd (drain_loop (env_display e) (woken (env_display e) s w) (wake_now w) (commands s @ wake_commands w))"
    using d by (simp add: drain_commands_def)
  have "up_ok e c ?\<delta>' n s1"
    using up_drain [of e c \<delta> n "woken (env_display e) s w" "commands s @ wake_commands w" "env_display e" "wake_now w"] wk
    by (simp add: linked_def s1 accepted_def)
  moreover have "down_ok e d0 ?\<delta>' s1"
    using wk shown.drained [where e = e and R = "\<lambda>width height. (width, height) \<in> asked ?\<delta>'" and ?d0.0 = d0 and s = "woken (env_display e) s w" and now = "wake_now w" and cs = "commands s @ wake_commands w"]
    by (simp add: linked_def down_ok_def s1 drain_fatal)
  ultimately have "linked e c d0 ?\<delta>' n s1" using lk by (simp add: linked_def host_ok_def)
  from far.round_drained [OF d this n] gen fit show ?thesis by simp
qed

subsection \<open>The server\<close>

lemma linked_hear:
  assumes lk: "linked e c d0 \<delta> n (client \<delta>)" and ok: "aead_ok (env_enc e) (env_dec e)"
    and op: "open_ocb op = c" "peer_direction op = ToServer"
    and bs: "bs \<in> snd ` set (sent_datagrams (client \<delta>)) \<or> (\<exists>err. open_datagram (env_dec e) op bs = Inl err)"
  shows "linked e c d0 (far_hears e op \<delta> bs now) n (client \<delta>) \<and> client (far_hears e op \<delta> bs now) = client \<delta>
       \<and> entered (far_hears e op \<delta> bs now) = entered \<delta> \<and> turns (far_hears e op \<delta> bs now) = turns \<delta>"
  using bs
proof
  assume "\<exists>err. open_datagram (env_dec e) op bs = Inl err"
  with lk show ?thesis by (auto simp: far_hears_def)
next
  assume sent: "bs \<in> snd ` set (sent_datagrams (client \<delta>))"
  from lk obtain F where F: "reachable (env_zc e) (env_zr e) (sys_of \<delta> F (client \<delta>))" "carried e c F (client \<delta>)"
    by (auto simp: linked_def up_ok_def)
  with sent obtain k header k' f where k: "seal (env_enc e) k header (fragment_tostring f) = (Inr bs, k')"
    "seal_ocb k = c" "seal_direction k = ToServer" and f: "f \<in> F" "fragment_num f \<le> MAX_FRAGMENT_INDEX"
    unfolding carried_def by fastforce
  have opened: "open_datagram (env_dec e) op bs = Inr (next_seq k, header, fragment_tostring f)"
    by (rule open_sealed [OF ok k(1)]) (simp_all add: op k)
  obtain r a where add: "add_fragment (env_zr e) (far_assembly \<delta>) f = (r, a)" by fastforce
  show ?thesis
  proof (cases r)
    case None
    let ?\<delta>' = "\<delta>\<lparr>far_assembly := a\<rparr>"
    have "sys_step (env_zc e) (env_zr e) (sys_of \<delta> F (client \<delta>)) (sys_of ?\<delta>' F (client \<delta>))"
      using sys_step.partial [of f "sys_of \<delta> F (client \<delta>)" "env_zr e" a "env_zc e"] f(1) add None by (simp add: sys_of_def)
    from reachable.step [OF F(1) this] F(2) lk
    have "linked e c d0 ?\<delta>' n (client \<delta>)" by (auto simp: linked_def up_ok_def down_ok_def host_ok_def)
    with None add f(2) show ?thesis by (simp add: far_hears_def opened fragment_parse_tostring)
  next
    case (Some inst)
    obtain res r' u where p: "process_instruction (lift_apply user_apply_string) () (far_receiver \<delta>) inst now = (res, r', u)"
      by (metis surj_pair)
    let ?\<delta>' = "\<delta>\<lparr>far_assembly := a, far_receiver := r', reported := insert (ts_num (latest r')) (reported \<delta>)\<rparr>"
    have "sys_step (env_zc e) (env_zr e) (sys_of \<delta> F (client \<delta>)) (sys_of ?\<delta>' F (client \<delta>))"
      using sys_step.deliver [of f "sys_of \<delta> F (client \<delta>)" "env_zr e" inst a now res r' u "env_zc e"] f(1) add Some p
      by (simp add: sys_of_def)
    from reachable.step [OF F(1) this] F(2) lk
    have "linked e c d0 ?\<delta>' n (client \<delta>)" by (auto simp: linked_def up_ok_def down_ok_def host_ok_def)
    with Some add f(2) p show ?thesis by (simp add: far_hears_def opened fragment_parse_tostring)
  qed
qed

lemma linked_speak:
  assumes lk: "linked e c d0 \<delta> n s" and new: "host_sent \<delta> i = None" "sent_as (env_zc e) i inst frs"
    "ack_num inst \<in> reported \<delta>" "well_formed inst"
  shows "linked e c d0 (\<delta>\<lparr>host_sent := (host_sent \<delta>)(i \<mapsto> (inst, frs))\<rparr>) n s"
proof -
  have "extends_reg (host_sent \<delta>) ((host_sent \<delta>)(i \<mapsto> (inst, frs)))" using new(1) by (auto simp: extends_reg_def)
  with lk new(2-) show ?thesis
    by (auto simp: linked_def up_ok_def down_ok_def host_ok_def sys_of_def intro: collecting_extends printed_extends)
qed

section \<open>Reachable deployments\<close>

lemma launched_linked:
  assumes z: "zlib_ok (env_zc e) (env_zr e)" and fw: "fresh_world self"
  shows "linked e (new_ocb ocb_new (launch_key l)) (display self) (deployed l (launch_loop ocb_new l self)) 0
           (launch_loop ocb_new l self)"
proof -
  let ?loop = "launch_loop ocb_new l self"
  have "sys_step (env_zc e) (env_zr e) (sys_init 0 1) (sys_of (deployed l ?loop) {} ?loop)"
    using sys_step.resize [of "sys_init 0 1" "env_zc e" "env_zr e" "launch_cols l" "launch_rows l"]
    by (simp add: sys_init_def sys_of_def deployed_def sender_new_def launch_loop_def session_loop_new_def Let_def)
  then have "reachable (env_zc e) (env_zr e) (sys_of (deployed l ?loop) {} ?loop)"
    by (rule reachable.step [OF reachable.start])
  moreover have "carried e (new_ocb ocb_new (launch_key l)) {} ?loop" by (simp add: carried_def)
  moreover have "sealer ?loop = sealer_new ocb_new (launch_key l) ToServer" "loop_fragmenter ?loop = fragmenter_default"
    "assembly ?loop = assembly_new" "fatal ?loop = None" by (simp_all add: launch_loop_def session_loop_new_def Let_def)
  ultimately show ?thesis
    using z launched_user [OF fw, of ocb_new l] launched_display [where ops = "env_display e" and w = self and R = "\<lambda>_ _. False" and o' = ocb_new and l = l]
    by (auto simp: linked_def host_ok_def up_ok_def down_ok_def deployed_def sealer_new_def fragmenter_default_def
        collecting_def receiver_new_def host_stream_new_def log_iter_def event_log_new_def intro: printed.origin)
qed

lemma e2e_linked:
  assumes ok: "aead_ok (env_enc e) (env_dec e)" and op: "open_ocb op = c" "peer_direction op = ToServer"
    and init: "linked e c d0 \<delta>0 (turns \<delta>0) (client \<delta>0)" and reach: "e2e_reachable e op \<delta>0 \<delta>"
  shows "linked e c d0 \<delta> (turns \<delta>) (client \<delta>)"
  using reach
proof induction
  case start
  show ?case by (rule init)
next
  case (step \<delta> \<delta>')
  from step.hyps(2) step.IH show ?case
  proof cases
    case (turn w go s')
    with linked_turn [OF step.IH turn(3,4,5)] show ?thesis by simp
  next
    case (hear bs now)
    from linked_hear [OF step.IH ok op hear(2)] show ?thesis by (simp add: hear(1))
  next
    case (speak i inst frs)
    from linked_speak [OF step.IH speak(2-)] show ?thesis by (simp add: speak(1))
  qed
qed

text \<open>A deployment of a session: launched by \<open>start\<close>, with a server that holds the same key.\<close>

definition session_of ::
  "('c, 'd) env \<Rightarrow> (bytes \<Rightarrow> 'c) \<Rightarrow> 'd mosh_session \<Rightarrow> ('c, 'd) deployment \<Rightarrow> bool" where
  "session_of e ocb_new self \<delta> \<longleftrightarrow>
     fresh_world self \<and>
     (\<exists>self' loop l. start ocb_new self = (self', Some loop) \<and> launch self = Some l \<and>
        e2e_reachable e (opener_new ocb_new (launch_key l) ToServer) (deployed l loop) \<delta>)"

lemma session_linked:
  assumes "aead_ok (env_enc e) (env_dec e)" and "zlib_ok (env_zc e) (env_zr e)" and "session_of e ocb_new self \<delta>"
  obtains c where "linked e c (display self) \<delta> (turns \<delta>) (client \<delta>)"
proof -
  from assms(3) obtain self' loop l where st: "start ocb_new self = (self', Some loop)" "launch self = Some l"
    and fw: "fresh_world self"
    and r: "e2e_reachable e (opener_new ocb_new (launch_key l) ToServer) (deployed l loop) \<delta>"
    unfolding session_of_def by blast
  have loop: "loop = launch_loop ocb_new l self" using start_loop [OF st(1)] st(2) by auto
  have "linked e (new_ocb ocb_new (launch_key l)) (display self) (deployed l loop) (turns (deployed l loop))
      (client (deployed l loop))"
    using launched_linked [OF assms(2) fw, where ocb_new = ocb_new and l = l] by (simp add: loop deployed_def)
  from that [OF e2e_linked [OF assms(1) _ _ this r]] show thesis by (simp add: opener_new_def)
qed

end
