(* ===== verification/Sample_Session.thy ===== *)
theory Sample_Session
  imports Deployment
begin

text \<open>
  One session of a deployment, evaluated step by step, for the witnesses of \<open>End_To_End\<close>: the window is
  80 by 24 and the user types \<open>ls\<close> at 5 ms; the second round, at 300 ms, sends both in one datagram,
  which the server hears at 320 ms; the server acknowledges it and prints a prompt in a datagram that
  the client's third round, at 340 ms, receives.
\<close>

section \<open>The sender's side\<close>

lemma toy_timers: "rto_ms 1000 500 = 1000" "send_interval_ms 1000 = 250"
proof -
  have "f64_mul 4 500 = 2000" "f64_add 1000 2000 = 3000" "f64_div 1000 2 = 500"
    using f64_round_int_exact [of 2000] f64_round_int_exact [of 3000] f64_round_int_exact [of 500]
    by (simp_all add: f64_mul_def f64_add_def f64_div_def)
  then show "rto_ms 1000 500 = 1000" "send_interval_ms 1000 = 250"
    by (simp_all add: rto_ms_def send_interval_ms_def f64_clamp_def f64_as_u64_def)
qed

definition sess_typed :: "user_stream ssp_sender" where
  "sess_typed = set_current_state (sender_new user_stream_new 0 1) \<lparr>events = [Resize 80 24, Byte 108, Byte 115]\<rparr>"

definition sess_polled :: "user_stream ssp_sender" where
  "sess_polled = sess_typed\<lparr>mindelay_clock := Some 5\<rparr>"

definition sess_sent :: "user_stream ssp_sender" where
  "sess_sent = sess_typed\<lparr>assumed_receiver := 1, next_ack_time := 3300, sent_states :=
     [\<lparr>ts_timestamp = 0, ts_num = 0, ts_state = \<lparr>events = []\<rparr>\<rparr>,
      \<lparr>ts_timestamp = 300, ts_num = 1, ts_state = \<lparr>events = [Resize 80 24, Byte 108, Byte 115]\<rparr>\<rparr>]\<rparr>"

definition sess_inst :: transport_instruction where
  "sess_inst = \<lparr>protocol_version = 2, old_num = 0, new_num = 1, ack_num = 0, throwaway_num = 0,
     diff = [10, 6, 26, 4, 40, 80, 48, 24, 10, 6, 18, 4, 34, 2, 108, 115], chaff = []\<rparr>"

definition sess_bytes :: bytes where
  "sess_bytes = [8, 2, 16, 0, 24, 1, 32, 0, 40, 0, 50, 16, 10, 6, 26, 4, 40, 80, 48, 24, 10, 6, 18, 4, 34, 2, 108, 115, 58, 0]"

definition sess_frag :: fragment where
  "sess_frag = \<lparr>frag_id = 1, fragment_num = 0, final = True, contents = sess_bytes\<rparr>"

definition sess_framer :: fragmenter where
  "sess_framer = \<lparr>next_instruction_id = 1, last_header = Some (header_of sess_inst), last_mtu = 1214\<rparr>"

lemma sess_diff: "user_diff_from \<lparr>events = [Resize 80 24, Byte 108, Byte 115]\<rparr> \<lparr>events = []\<rparr> = diff sess_inst"
  by code_simp

lemma sess_idle: "tick user_diff_from user_subtract (\<lambda>x. x) sess_typed 5 1000 250 mtu fr [] = (sess_polled, fr, [])"
  by (simp add: tick_def sess_typed_def sess_polled_def sender_new_def user_stream_new_def
      set_current_state_def update_assumed_receiver_state_def rationalize_states_def
      compute_timers_def start_clocks_def next_send_at_def Let_def is_due_def ACTIVE_RETRY_TIMEOUT_MS_def ACK_INTERVAL_MS_def
      attempt_prospective_resend_optimization_def sess_diff SHUTDOWN_NUM_def u64_max_def)

lemma sess_wait: "wait_time sess_polled 5 1000 250 = (245, sess_polled)" "wait_time sess_sent 300 1000 250 = (1100, sess_sent)"
  by code_simp+

lemma sess_encode: "transport_encode sess_inst = sess_bytes"
  by code_simp

lemma sess_make: "make_fragments (\<lambda>x. x) fragmenter_default sess_inst 1224 = (Inr [sess_frag], sess_framer)"
  by (simp add: make_fragments_def Let_def fragmenter_default_def FRAG_HEADER_LEN_def sess_encode sess_framer_def
      sess_frag_def slice_loop.simps MAX_FRAGMENT_INDEX_def sess_bytes_def)

lemma sess_tick:
  "tick user_diff_from user_subtract (\<lambda>x. x) sess_polled 300 1000 250 1224 fragmenter_default []
   = (sess_sent, sess_framer, [sess_frag])"
  using sess_make
  by (simp add: tick_def sess_polled_def sess_typed_def sess_sent_def sender_new_def user_stream_new_def
      set_current_state_def update_assumed_receiver_state_def rationalize_states_def
      compute_timers_def start_clocks_def next_send_at_def Let_def is_due_def ACK_INTERVAL_MS_def
      ACTIVE_RETRY_TIMEOUT_MS_def attempt_prospective_resend_optimization_def sess_diff SHUTDOWN_NUM_def
      u64_max_def send_to_receiver_def add_sent_state_def SENT_QUEUE_CAP_def send_in_fragments_def
      outgoing_def sess_inst_def MOSH_PROTOCOL_VERSION_def)

lemma toy_loop_fields: 
  "socks toy_loop = [7]" "loop_rtt toy_loop = rtt_new" "loop_mtu toy_loop = 1252" "fatal toy_loop = None" "commands toy_loop = []"
  "sender toy_loop = set_current_state (sender_new user_stream_new 0 1) \<lparr>events = [Resize 80 24]\<rparr>"
  "loop_fragmenter toy_loop = fragmenter_default" "sent_datagrams toy_loop = []"
  "last_port_choice toy_loop = 0" "last_roundtrip_success toy_loop = 0" "hop_interval_ms toy_loop = PORT_HOP_INTERVAL_MS"
  by (simp_all add: toy_loop_def launch_loop_def session_loop_new_def Let_def toy_launch_def toy_session_def push_resize_def user_stream_new_def)
 (simp_all add: sender_new_def)


lemma one_socket: "socks s = [k] \<Longrightarrow> prune_sockets (maybe_hop_port s now None) now = s"
  by (simp add: prune_sockets_def maybe_hop_port_def Let_def drop_oldest.simps MAX_PORTS_OPEN_def)



text \<open>The sender rests after the send.\<close>

lemma sess_rest: "tick user_diff_from user_subtract (\<lambda>x. x) sess_sent 340 1000 250 mtu fr [] = (sess_sent, fr, [])"
  "wait_time sess_sent 340 1000 250 = (1060, sess_sent)"
proof -
  have "user_diff_from (current_state sess_sent) (ts_state (sent_states sess_sent ! assumed_receiver sess_sent)) = []"
    by code_simp
  moreover have "update_assumed_receiver_state sess_sent 340 1000 = sess_sent" by code_simp
  moreover have "rationalize_states user_subtract sess_sent = sess_sent" by code_simp
  moreover have "compute_timers sess_sent 340 1000 250 = ((Some 1400, Some 3300), sess_sent)" by code_simp
  ultimately show "tick user_diff_from user_subtract (\<lambda>x. x) sess_sent 340 1000 250 mtu fr [] = (sess_sent, fr, [])"
    by (simp add: tick_def Let_def is_due_def)
  show "wait_time sess_sent 340 1000 250 = (1060, sess_sent)" by code_simp
qed

section \<open>Rounds of the sample\<close>

text \<open>What the rounds of the sample leave as \<open>launch_loop\<close> made it.\<close>

definition resting :: "user_stream ssp_sender \<Rightarrow> fragmenter \<Rightarrow> (unit, bytes) session_loop \<Rightarrow> bool" where
  "resting sd fr s \<longleftrightarrow> sender s = sd \<and> loop_fragmenter s = fr \<and> socks s = [7] \<and> fatal s = None \<and> loop_rtt s = rtt_new \<and>
     loop_mtu s = 1252 \<and> commands s = [] \<and> opener s = opener toy_loop \<and> receiver s = receiver toy_loop \<and>
     next_addr s = 0 \<and> assembly s = assembly_new"

lemma resting_cong:
  "resting sd0 fr0 s \<Longrightarrow> sender t = sd \<Longrightarrow> loop_fragmenter t = fr \<Longrightarrow> socks t = socks s \<Longrightarrow> fatal t = fatal s \<Longrightarrow>
   loop_rtt t = loop_rtt s \<Longrightarrow> loop_mtu t = loop_mtu s \<Longrightarrow> commands t = [] \<Longrightarrow> opener t = opener s \<Longrightarrow>
   receiver t = receiver s \<Longrightarrow> next_addr t = next_addr s \<Longrightarrow> assembly t = assembly s \<Longrightarrow> resting sd fr t"
  by (simp add: resting_def)

lemma toy_resting: "resting (set_current_state (sender_new user_stream_new 0 1) \<lparr>events = [Resize 80 24]\<rparr>) fragmenter_default toy_loop"
  by (simp add: resting_def toy_loop_def launch_loop_def session_loop_new_def Let_def toy_launch_def toy_session_def
      push_resize_def user_stream_new_def) (simp add: sender_new_def)

lemma toy_env_display [simp]: "env_display toy_env = toy_ops"
  by (simp add: toy_env_def)

text \<open>A round: the commands are drained into \<open>s1\<close>, the tick makes \<open>out\<close>, and the loop goes on to receive.\<close>

lemma sample_round:
  assumes w: "wake_now w = now" "wake_bind w = None" "wake_sends w = (\<lambda>_. (now, now, SendOk))"
    and d: "drain_commands toy_ops (woken toy_ops s w) now = (True, s1)" and s1: "resting sd0 fr0 s1"
    and t: "tick user_diff_from user_subtract (\<lambda>x. x) sd0 now 1000 250 1224 fr0 [] = (sd, fr, out)"
    and sd: "\<not> shutdown_in_progress sd" "\<not> counterparty_shutdown_acknowledged fr" "wait_time sd now 1000 250 = (x, sd)"
  shows "round_output toy_env s w = out"
    and "\<exists>s2 wt sh. s2 = s1\<lparr>shared_of := sh, sender := sd, loop_fragmenter := fr\<rparr> \<and>
      run_round toy_env s w =
        (True, receive toy_env ((send_fragments toy_env s2 out (\<lambda>_. (now, now, SendOk)))\<lparr>sender := sd\<rparr>) wt w)"
proof -
  let ?s2 = "s1\<lparr>shared_of := (shared_of s1)\<lparr>shared_rto_ms := 1000\<rparr>, sender := sd, loop_fragmenter := fr\<rparr>"
  let ?s3 = "send_fragments toy_env ?s2 out (\<lambda>_. (now, now, SendOk))"
  have r: "sender s1 = sd0" "loop_fragmenter s1 = fr0" "socks s1 = [7]" "fatal s1 = None" "loop_rtt s1 = rtt_new"
    "loop_mtu s1 = 1252" using s1 by (simp_all add: resting_def)
  have zc: "env_zc toy_env = (\<lambda>x. x)" by (simp add: toy_env_def)
  have tk: "run_tick toy_env s1 now = (out, ?s2)"
    using t by (simp add: run_tick_def Let_def rto_def send_interval_def r rtt_new_def toy_timers fragment_mtu_def zc)
  then show "round_output toy_env s w = out" using d by (simp add: round_output_def w)
  have frag: "socks ?s3 = [7]" "sender ?s3 = sd" "loop_fragmenter ?s3 = fr" "loop_rtt ?s3 = rtt_new"
    by (simp_all add: r)
  have wait: "run_wait ?s3 now = (min (max x 1) POLL_CAP_MS, ?s3\<lparr>sender := sd\<rparr>)"
    using sd(3) by (simp add: run_wait_def rto_def send_interval_def r rtt_new_def toy_timers)
  have "run_round toy_env s w = (True, receive toy_env (?s3\<lparr>sender := sd\<rparr>) (min (max x 1) POLL_CAP_MS) w)"
    using d tk wait sd(1,2) one_socket [OF frag(1)] by (simp add: run_round_def Let_def w r frag)
  then show "\<exists>s2 wt sh. s2 = s1\<lparr>shared_of := sh, sender := sd, loop_fragmenter := fr\<rparr> \<and>
      run_round toy_env s w =
        (True, receive toy_env ((send_fragments toy_env s2 out (\<lambda>_. (now, now, SendOk)))\<lparr>sender := sd\<rparr>) wt w)"
    by (intro exI conjI) (rule refl)
qed

lemma toy_wake_fields [simp]:
  "wake_now (toy_wake now cs) = now" "wake_bind (toy_wake now cs) = None" "wake_newest (toy_wake now cs) = None"
  "wake_sends (toy_wake now cs) = (\<lambda>_. (now, now, SendOk))" "wake_commands (toy_wake now cs) = cs"
  by (simp_all add: toy_wake_def)

lemma receive_nothing: "wake_newest w = None \<Longrightarrow> socks s = [7] \<Longrightarrow> receive e s wt w = s\<lparr>read_timeout := wt\<rparr>"
  by (simp add: receive_def)

text \<open>The first round polls.\<close>

lemma sample_first:
  "\<exists>s. run_round toy_env toy_loop (toy_wake 5 [Input [108, 115]]) = (True, s) \<and> resting sess_polled fragmenter_default s \<and>
     sealer s = sealer toy_loop \<and> sent_datagrams s = [] \<and> round_output toy_env toy_loop (toy_wake 5 [Input [108, 115]]) = []"
proof -
  let ?w = "toy_wake 5 [Input [108, 115]]"
  obtain s1 where s1: "s1 = snd (drain_commands toy_ops (woken toy_ops toy_loop ?w) 5)" by blast
  have d: "drain_commands toy_ops (woken toy_ops toy_loop ?w) 5 = (True, s1)"
    by (simp add: s1 drain_commands_def toy_loop_fields)
  have f: "sealer s1 = sealer toy_loop" "sent_datagrams s1 = []"
    by (simp_all add: s1 drain_commands_def toy_loop_fields handle_command_sent)
  have r: "resting sess_typed fragmenter_default s1"
    by (rule resting_cong [OF toy_resting])
      (simp_all add: s1 drain_commands_def toy_loop_fields handle_command_def sess_typed_def
        set_current_state_def sender_new_def push_bytes_def)
  have quiet: "\<not> shutdown_in_progress sess_polled" "\<not> counterparty_shutdown_acknowledged fragmenter_default"
    by (simp_all add: sess_polled_def sess_typed_def set_current_state_def sender_new_def
        counterparty_shutdown_acknowledged_def last_ack_sent_def fragmenter_default_def)
  note round = sample_round [OF _ _ _ d r sess_idle quiet sess_wait(1)]
  from round(2) obtain wt sh s where s: "s = s1\<lparr>shared_of := sh, sender := sess_polled, loop_fragmenter := fragmenter_default,
      sender := sess_polled, read_timeout := wt\<rparr>" and "run_round toy_env toy_loop ?w = (True, s)"
    using receive_nothing [of ?w] r by (fastforce simp: resting_def)
  moreover have "resting sess_polled fragmenter_default s" by (rule resting_cong [OF r]) (use r in \<open>simp_all add: s resting_def\<close>)
  moreover have "round_output toy_env toy_loop ?w = []" by (rule round(1)) simp_all
  ultimately show ?thesis using f s by (intro exI [of _ s]) simp
qed

lemma sample_seal:
  "\<exists>d k. seal toy_enc (sealer_new (\<lambda>_. ()) toy_key ToServer) header (fragment_tostring sess_frag) = (Inr d, k)"
proof -
  have "length (header_write header @ fragment_tostring sess_frag) = 44"
    by (simp add: length_fragment_tostring FRAG_HEADER_LEN_def sess_frag_def sess_bytes_def)
  then have "packet_blocks (header_write header @ fragment_tostring sess_frag) = 3"
    unfolding packet_blocks_def by simp
  then show ?thesis
    by (simp add: seal_def next_nonce_def sealer_new_def toy_enc_def SEQ_MASK_mask mask_eq_exp_minus_1 BLOCK_LIMIT_def Let_def)
qed

text \<open>The second round sends.\<close>

lemma sample_second:
  assumes r0: "resting sess_polled fragmenter_default s" and "sealer s = sealer toy_loop" "sent_datagrams s = []"
  shows "round_output toy_env s (toy_wake 300 []) = [sess_frag]"
    and "\<exists>s' d header k'. run_round toy_env s (toy_wake 300 []) = (True, s') \<and> resting sess_sent sess_framer s' \<and>
       sent_datagrams s' = [(7, d)] \<and>
       seal toy_enc (sealer toy_loop) header (fragment_tostring sess_frag) = (Inr d, k')"
proof -
  define s1 where "s1 = (woken toy_ops s (toy_wake 300 []))\<lparr>commands := []\<rparr>"
  have d: "drain_commands toy_ops (woken toy_ops s (toy_wake 300 [])) 300 = (True, s1)"
    using r0 by (simp add: s1_def drain_commands_def resting_def)
  have r: "resting sess_polled fragmenter_default s1"
    by (rule resting_cong [OF r0]) (use r0 in \<open>simp_all add: s1_def resting_def\<close>)
  have quiet: "\<not> shutdown_in_progress sess_sent" "\<not> counterparty_shutdown_acknowledged sess_framer"
    by (simp_all add: sess_sent_def sess_typed_def set_current_state_def sender_new_def sess_framer_def sess_inst_def
        counterparty_shutdown_acknowledged_def last_ack_sent_def header_of_def SHUTDOWN_NUM_def u64_max_def)
  note round = sample_round [OF _ _ _ d r sess_tick quiet sess_wait(2)]
  show "round_output toy_env s (toy_wake 300 []) = [sess_frag]" by (rule round(1)) simp_all
  from round(2) obtain s2 wt sh where s2: "s2 = s1\<lparr>shared_of := sh, sender := sess_sent, loop_fragmenter := sess_framer\<rparr>"
    and rr: "run_round toy_env s (toy_wake 300 []) =
      (True, receive toy_env ((send_fragment toy_env s2 sess_frag (300, 300, SendOk))\<lparr>sender := sess_sent\<rparr>) wt (toy_wake 300 []))"
    by auto
  have sl: "sealer s2 = sealer_new (\<lambda>_. ()) toy_key ToServer" "sent_datagrams s2 = []" "socks s2 = [7]"
    using assms r by (simp_all add: s2 s1_def resting_def toy_loop_def launch_loop_def session_loop_new_def Let_def toy_launch_def)
  obtain reply s3 where rp: "outgoing_reply s2 300 = (reply, s3)" by fastforce
  with outgoing_reply_eq [of s2 300] obtain st where s3: "s3 = s2\<lparr>saved_timestamp := st\<rparr>" by auto
  let ?h = "\<lparr>timestamp = timestamp16 300, timestamp_reply = (case reply of Some r \<Rightarrow> r | None \<Rightarrow> u16_max)\<rparr>"
  obtain d k where sealed: "seal toy_enc (sealer_new (\<lambda>_. ()) toy_key ToServer) ?h (fragment_tostring sess_frag) = (Inr d, k)"
    using sample_seal by blast
  define s' where "s' = s2\<lparr>saved_timestamp := st, sealer := k, sent_datagrams := [(7, d)], sender := sess_sent, read_timeout := wt\<rparr>"
  have "send_fragment toy_env s2 sess_frag (300, 300, SendOk) = s2\<lparr>saved_timestamp := st, sealer := k, sent_datagrams := [(7, d)]\<rparr>"
    using sl sealed by (simp add: send_fragment_def rp s3 Let_def toy_env_def)
  then have "run_round toy_env s (toy_wake 300 []) = (True, s')"
    using rr sl(3) by (simp add: receive_nothing s'_def)
  moreover have "resting sess_sent sess_framer s'"
    by (rule resting_cong [OF r]) (use r in \<open>simp_all add: s'_def s2 resting_def\<close>)
  moreover have "sealer_new (\<lambda>_. ()) toy_key ToServer = sealer toy_loop"
    by (simp add: toy_loop_def launch_loop_def session_loop_new_def Let_def toy_launch_def)
  ultimately show "\<exists>s' d header k'. run_round toy_env s (toy_wake 300 []) = (True, s') \<and> resting sess_sent sess_framer s' \<and>
      sent_datagrams s' = [(7, d)] \<and> seal toy_enc (sealer toy_loop) header (fragment_tostring sess_frag) = (Inr d, k')"
    using sealed by (auto simp: s'_def)
qed

section \<open>The server's side\<close>

lemma sess_assemble: "add_fragment toy_zr assembly_new sess_frag = (Some sess_inst, assembly_reset (assembly_new\<lparr>current_id := 1\<rparr>))"
proof -
  have len: "length sess_bytes = 30" by (simp add: sess_bytes_def)
  have z: "zlib_decompress toy_zr sess_bytes = Inr sess_bytes"
    by (simp add: zlib_decompress_def toy_zr_def len DECOMPRESS_LIMIT_def)
  have dec: "transport_decode sess_bytes = Inr sess_inst"
    using transport_codec.decode_encode [of sess_inst] by (simp add: sess_encode) (simp add: sess_bytes_def)
  have f: "frag_id sess_frag = 1" "fragment_num sess_frag = 0" "final sess_frag" "contents sess_frag = sess_bytes"
    by (simp_all add: sess_frag_def)
  show ?thesis
    by (simp add: add_fragment_def store_fragment_def note_final_def take_assembly_def assembly_new_def
        Let_def f len ASSEMBLY_LIMIT_def z dec assembly_reset_def)
qed

definition sess_received :: "user_stream ssp_receiver" where
  "sess_received = \<lparr>received = [\<lparr>ts_timestamp = 0, ts_num = 0, ts_state = \<lparr>events = []\<rparr>\<rparr>,
     \<lparr>ts_timestamp = 320, ts_num = 1, ts_state = \<lparr>events = [Resize 80 24, Byte 108, Byte 115]\<rparr>\<rparr>], quench_until = 0\<rparr>"

lemma sess_process:
  "process_instruction (lift_apply user_apply_string) () (receiver_new user_stream_new 0) sess_inst 320
   = (Inr (Latest 1 True \<lparr>events = [Resize 80 24, Byte 108, Byte 115]\<rparr>), sess_received, ())"
proof -
  have ap: "user_apply_string \<lparr>events = []\<rparr> (diff sess_inst) = Inr \<lparr>events = [Resize 80 24, Byte 108, Byte 115]\<rparr>"
    using us.apply_diff [of "\<lparr>events = []\<rparr>" "\<lparr>events = [Resize 80 24, Byte 108, Byte 115]\<rparr>"]
    by (simp add: sess_diff) (simp add: sess_inst_def)
  have gate: "RECEIVED_QUEUE_CAP \<noteq> 0" by (simp add: RECEIVED_QUEUE_CAP_def)
  have i: "diff sess_inst \<noteq> []" "protocol_version sess_inst = 2" "old_num sess_inst = 0" "new_num sess_inst = 1" "throwaway_num sess_inst = 0"
    by (simp_all add: sess_inst_def)
  show ?thesis
    by (simp add: process_instruction_def receiver_new_def user_stream_new_def i MOSH_PROTOCOL_VERSION_def
        process_throwaway_until_def gate Let_def lift_apply_def ap insert_state_def sess_received_def)
qed

lemma sess_fits: "fits (\<lambda>x. x) []" "fits (\<lambda>x. x) [sess_frag]"
proof -
  have "length sess_bytes = 30" by (simp add: sess_bytes_def)
  then show "fits (\<lambda>x. x) [sess_frag]" by (auto simp: fits_def sess_frag_def ASSEMBLY_LIMIT_def DECOMPRESS_LIMIT_def)
qed (auto simp: fits_def transport_encode_def DECOMPRESS_LIMIT_def)


text \<open>The server's answer: it acknowledges state 1 and prints a prompt.\<close>

definition prompt_inst :: transport_instruction where
  "prompt_inst = \<lparr>protocol_version = 2, old_num = 0, new_num = 1, ack_num = 1, throwaway_num = 0,
     diff = [10, 6, 18, 4, 34, 2, 36, 32], chaff = []\<rparr>"

definition prompt_bytes :: bytes where
  "prompt_bytes = [8, 2, 16, 0, 24, 1, 32, 1, 40, 0, 50, 8, 10, 6, 18, 4, 34, 2, 36, 32, 58, 0]"

definition prompt_frag :: fragment where
  "prompt_frag = \<lparr>frag_id = 9, fragment_num = 0, final = True, contents = prompt_bytes\<rparr>"

lemma prompt_encode: "transport_encode prompt_inst = prompt_bytes"
  by code_simp

lemma prompt_decode: "host_decode (diff prompt_inst) = Inr \<lparr>host_instructions = [HostBytes [36, 32]]\<rparr>"
proof -
  have "host_encode \<lparr>host_instructions = [HostBytes [36, 32]]\<rparr> = diff prompt_inst" by code_simp
  then show ?thesis using host_codec.decode_encode [of "\<lparr>host_instructions = [HostBytes [36, 32]]\<rparr>"]
    by (simp add: prompt_inst_def)
qed

lemma prompt_sent: "sent_as (\<lambda>x. x) 9 prompt_inst [prompt_frag]" "well_formed prompt_inst"
proof -
  have "length prompt_bytes = 22" by (simp add: prompt_bytes_def)
  then show "sent_as (\<lambda>x. x) 9 prompt_inst [prompt_frag]"
    by (simp add: sent_as_def prompt_encode numbered_single prompt_frag_def ASSEMBLY_LIMIT_def DECOMPRESS_LIMIT_def)
  show "well_formed prompt_inst"
    using prompt_decode by (simp add: well_formed_def MOSH_PROTOCOL_VERSION_def) (simp add: prompt_inst_def)
qed

lemma prompt_assemble: "add_fragment toy_zr assembly_new prompt_frag = (Some prompt_inst, assembly_reset (assembly_new\<lparr>current_id := 9\<rparr>))"
proof -
  have len: "length prompt_bytes = 22" by (simp add: prompt_bytes_def)
  have z: "zlib_decompress toy_zr prompt_bytes = Inr prompt_bytes"
    by (simp add: zlib_decompress_def toy_zr_def len DECOMPRESS_LIMIT_def)
  have dec: "transport_decode prompt_bytes = Inr prompt_inst"
    using transport_codec.decode_encode [of prompt_inst] by (simp add: prompt_encode) (simp add: prompt_bytes_def)
  have f: "frag_id prompt_frag = 9" "fragment_num prompt_frag = 0" "final prompt_frag" "contents prompt_frag = prompt_bytes"
    by (simp_all add: prompt_frag_def)
  show ?thesis
    by (simp add: add_fragment_def store_fragment_def note_final_def take_assembly_def assembly_new_def
        Let_def f len ASSEMBLY_LIMIT_def z dec assembly_reset_def)
qed

lemma prompt_process:
  "\<exists>st q free. process_instruction host_apply_string 0 (receiver_new host_stream_new 0) prompt_inst now = (Inr (Latest 1 True st), q, free) \<and>
     ts_num (latest q) = 1"
proof -
  obtain st free where ap: "host_apply_string 0 host_stream_new (diff prompt_inst) = (Inr st, free)"
    by (cases "foldl apply_host_instruction (host_stream_new, 0) [HostBytes [36, 32]]")
      (simp add: host_apply_string_def prompt_decode)
  have gate: "RECEIVED_QUEUE_CAP \<noteq> 0" by (simp add: RECEIVED_QUEUE_CAP_def)
  have i: "diff prompt_inst \<noteq> []" "protocol_version prompt_inst = 2" "old_num prompt_inst = 0" "new_num prompt_inst = 1"
    "throwaway_num prompt_inst = 0" by (simp_all add: prompt_inst_def)
  show ?thesis
    by (simp add: process_instruction_def receiver_new_def i MOSH_PROTOCOL_VERSION_def process_throwaway_until_def gate
        Let_def ap insert_state_def latest_def)
qed


text \<open>The third round receives it.\<close>

lemma instruction_effect:
  assumes "protocol_version inst = MOSH_PROTOCOL_VERSION"
    and "process_instruction host_apply_string (next_addr s) (receiver s) inst now = (res, r', free')"
  shows "receiver (handle_instruction e s inst now) = r'"
    and "sent_states (sender (handle_instruction e s inst now)) = sent_states (process_acknowledgment_through (sender s) (ack_num inst))"
    and "current_state (sender (handle_instruction e s inst now)) = current_state (process_acknowledgment_through (sender s) (ack_num inst))"
  using assms
  by (auto simp: handle_instruction_def Let_def apply_recv_core simp del: apply_recv_outcome.simps split: sum.split recv_outcome.split)

lemma prompt_seal:
  obtains d k where "seal toy_enc (sealer_new (\<lambda>_. ()) toy_key ToClient) toy_header (fragment_tostring prompt_frag) = (Inr d, k)"
    and "length d = 60"
    and "open_datagram toy_dec (opener toy_loop) d = Inr (0, toy_header, fragment_tostring prompt_frag)"
proof -
  have len: "length (fragment_tostring prompt_frag) = 32"
    by (simp add: length_fragment_tostring FRAG_HEADER_LEN_def prompt_frag_def prompt_bytes_def)
  then have "packet_blocks (header_write toy_header @ fragment_tostring prompt_frag) = 3"
    unfolding packet_blocks_def by simp
  then obtain d k where s: "seal toy_enc (sealer_new (\<lambda>_. ()) toy_key ToClient) toy_header (fragment_tostring prompt_frag) = (Inr d, k)"
    by (simp add: seal_def next_nonce_def sealer_new_def toy_enc_def SEQ_MASK_mask mask_eq_exp_minus_1 BLOCK_LIMIT_def Let_def)
  have "opener toy_loop = opener_new (\<lambda>_. ()) toy_key ToClient"
    by (simp add: toy_loop_def launch_loop_def session_loop_new_def Let_def toy_launch_def)
  then have "open_datagram toy_dec (opener toy_loop) d
      = Inr (next_seq (sealer_new (\<lambda>_. ()) toy_key ToClient :: unit mosh_sealer), toy_header, fragment_tostring prompt_frag)"
    by (intro open_sealed [OF toy_aead_ok s]) (simp_all add: sealer_new_def opener_new_def)
  moreover have "length d = 60"
    using sealed_length [OF toy_aead_ok s] len by (simp add: WIRE_NONCE_LEN_def TAG_LEN_def)
  ultimately show thesis using that [OF s] by (simp add: sealer_new_def)
qed

lemma prompt_parse: "fragment_parse (fragment_tostring prompt_frag) = Inr prompt_frag"
  by (rule fragment_parse_tostring) (simp add: prompt_frag_def MAX_FRAGMENT_INDEX_def)

lemma sample_third:
  assumes r0: "resting sess_sent sess_framer s"
    and len: "length d = 60" and op: "open_datagram toy_dec (opener toy_loop) d = Inr (0, toy_header, fragment_tostring prompt_frag)"
    and w: "w = (toy_wake 340 [])\<lparr>wake_newest := Some (d, 340, 340)\<rparr>"
  shows "round_output toy_env s w = []"
    and "\<exists>s'. run_round toy_env s w = (True, s') \<and> ts_num (latest (receiver s')) = 1 \<and>
       current_state (sender s') = ts_state (hd (sent_states (sender s')))"
proof -
  define s1 where "s1 = (woken toy_ops s w)\<lparr>commands := []\<rparr>"
  have d: "drain_commands toy_ops (woken toy_ops s w) 340 = (True, s1)"
    using r0 by (simp add: s1_def drain_commands_def resting_def w)
  have r: "resting sess_sent sess_framer s1"
    by (rule resting_cong [OF r0]) (use r0 in \<open>simp_all add: s1_def resting_def\<close>)
  have quiet: "\<not> shutdown_in_progress sess_sent" "\<not> counterparty_shutdown_acknowledged sess_framer"
    by (simp_all add: sess_sent_def sess_typed_def set_current_state_def sender_new_def sess_framer_def sess_inst_def
        counterparty_shutdown_acknowledged_def last_ack_sent_def header_of_def SHUTDOWN_NUM_def u64_max_def)
  note round = sample_round [OF _ _ _ d r sess_rest(1) quiet sess_rest(2)]
  show "round_output toy_env s w = []" by (rule round(1)) (simp_all add: w)
  have "\<exists>s2 wt sh. s2 = s1\<lparr>shared_of := sh, sender := sess_sent, loop_fragmenter := sess_framer\<rparr> \<and>
      run_round toy_env s w = (True, receive toy_env (s2\<lparr>sender := sess_sent\<rparr>) wt w)"
    using round(2) by (simp add: w)
  then obtain s2 wt where rr: "run_round toy_env s w = (True, receive toy_env s2 wt w)" and r2: "resting sess_sent sess_framer s2"
    using r resting_cong [OF r] by (fastforce simp: resting_def)
  define s3 where "s3 = s2\<lparr>read_timeout := wt\<rparr>"
  have rd: "read_datagram (d, 340, 340) = (d, 340, 340)" using len by (simp add: read_datagram_def RECV_BUFFER_LEN_def)
  define s4 where "s4 = (if 0 \<ge> expected_receiver_seq s3 then note_fresh s3 0 toy_header 340 340 else s3)"
  define s5 where "s5 = s4\<lparr>assembly := assembly_reset (assembly_new\<lparr>current_id := 9\<rparr>)\<rparr>"
  have f4: "assembly s4 = assembly_new" "receiver s4 = receiver_new host_stream_new 0" "next_addr s4 = 0" "sender s4 = sess_sent"
    "socks s4 = [7]"
    using r2 toy_resting
    by (simp_all add: s4_def s3_def resting_def toy_loop_def launch_loop_def session_loop_new_def Let_def)
  have hd: "handle_datagram toy_env s3 (d, 340, 340) = handle_instruction toy_env s5 prompt_inst 340"
  proof -
    have "opener s3 = opener toy_loop" "assembly s3 = assembly_new" using r2 by (simp_all add: s3_def resting_def)
    moreover have "env_dec toy_env = toy_dec" "env_zr toy_env = toy_zr" by (simp_all add: toy_env_def)
    ultimately show ?thesis
      using op prompt_parse prompt_assemble by (simp add: handle_datagram_def handle_fragment_def s4_def s5_def Let_def)
  qed
  obtain st q free where "process_instruction host_apply_string 0 (receiver_new host_stream_new 0) prompt_inst 340
      = (Inr (Latest 1 True st), q, free)" and q: "ts_num (latest q) = 1" using prompt_process by blast
  then have p: "process_instruction host_apply_string (next_addr s5) (receiver s5) prompt_inst 340
      = (Inr (Latest 1 True st), q, free)" by (simp add: s5_def f4)
  have "protocol_version prompt_inst = MOSH_PROTOCOL_VERSION" by (simp add: prompt_inst_def MOSH_PROTOCOL_VERSION_def)
  note eff = instruction_effect [OF this p, of toy_env]
  have "receive toy_env s2 wt w = handle_instruction toy_env s5 prompt_inst 340"
    using f4(5) by (simp add: receive_def w rd s3_def [symmetric] hd Let_def s5_def)
  moreover have "ack_num prompt_inst = 1" by (simp add: prompt_inst_def)
  moreover have "current_state (process_acknowledgment_through sess_sent 1)
      = ts_state (hd (sent_states (process_acknowledgment_through sess_sent 1)))" by code_simp
  ultimately show "\<exists>s'. run_round toy_env s w = (True, s') \<and> ts_num (latest (receiver s')) = 1 \<and>
       current_state (sender s') = ts_state (hd (sent_states (sender s')))"
    using rr eff q by (simp add: s5_def f4)
qed


section \<open>The session\<close>

definition sample_reach :: "(unit, bytes) deployment \<Rightarrow> bool" where
  "sample_reach = e2e_reachable toy_env (opener_new (\<lambda>_. ()) toy_key ToServer) (deployed toy_launch toy_loop)"

abbreviation sample_step :: "(unit, bytes) deployment \<Rightarrow> (unit, bytes) deployment \<Rightarrow> bool" where
  "sample_step \<equiv> e2e_step toy_env (opener_new (\<lambda>_. ()) toy_key ToServer)"

lemma sample_start: "sample_reach (deployed toy_launch toy_loop)"
  unfolding sample_reach_def by (rule e2e_reachable.start)

lemma sample_next: "sample_reach \<delta> \<Longrightarrow> sample_step \<delta> \<delta>' \<Longrightarrow> sample_reach \<delta>'"
  unfolding sample_reach_def by (rule e2e_reachable.step)

lemma toy_quiet: "genuine_wake toy_env op g (toy_wake now cs)"
  by (simp add: genuine_wake_def toy_wake_def)

lemma toy_codecs: "env_zc toy_env = (\<lambda>x. x)" "env_zr toy_env = toy_zr" "env_dec toy_env = toy_dec"
  by (simp_all add: toy_env_def)

text \<open>After the rounds at 5 ms and at 300 ms the datagram with the input is on its way.\<close>

lemma sample_sent:
  obtains \<delta> d header k where "sample_reach \<delta>" and "sent_datagrams (client \<delta>) = [(7, d)]"
    and "resting sess_sent sess_framer (client \<delta>)" and "entered \<delta> = [Resize 80 24, Byte 108, Byte 115]"
    and "seal toy_enc (sealer toy_loop) header (fragment_tostring sess_frag) = (Inr d, k)"
    and "far_assembly \<delta> = assembly_new" and "far_receiver \<delta> = receiver_new user_stream_new 0"
    and "host_sent \<delta> = Map.empty" and "running \<delta>" and "turns \<delta> = 2" and "asked \<delta> = {}"
proof -
  let ?w1 = "toy_wake 5 [Input [108, 115]]" and ?typed = "[Resize 80 24, Byte 108, Byte 115]"
  from sample_first obtain s1 where r1: "run_round toy_env toy_loop ?w1 = (True, s1)"
    and s1: "resting sess_polled fragmenter_default s1" "sealer s1 = sealer toy_loop" "sent_datagrams s1 = []"
    and o1: "round_output toy_env toy_loop ?w1 = []" by blast
  define \<delta>1 where "\<delta>1 = (deployed toy_launch toy_loop)\<lparr>client := s1, running := True, entered := ?typed, asked := {}, turns := 1\<rparr>"
  have "accepted toy_loop ?w1 = [Byte 108, Byte 115]"
    by (simp add: accepted_def toy_loop_fields set_current_state_def sender_new_def)
  then have "sample_step (deployed toy_launch toy_loop) \<delta>1"
    using e2e_step.turn [of "deployed toy_launch toy_loop" toy_env ?w1 True s1] toy_quiet r1 o1 sess_fits(1)
    by (simp add: deployed_def toy_codecs NUMBER_LIMIT_def toy_launch_def \<delta>1_def sizes_def)
  then have reach1: "sample_reach \<delta>1" by (rule sample_next [OF sample_start])
  from sample_second(2) [OF s1] obtain s2 d header k where r2: "run_round toy_env s1 (toy_wake 300 []) = (True, s2)"
    and s2: "sent_datagrams s2 = [(7, d)]" "resting sess_sent sess_framer s2"
    and sealed: "seal toy_enc (sealer toy_loop) header (fragment_tostring sess_frag) = (Inr d, k)"
    by blast
  define \<delta>2 where "\<delta>2 = \<delta>1\<lparr>client := s2, running := True, entered := entered \<delta>1, asked := {}, turns := Suc (turns \<delta>1)\<rparr>"
  have "accepted s1 (toy_wake 300 []) = []" using s1(1) by (simp add: accepted_def resting_def)
  then have "sample_step \<delta>1 \<delta>2"
    using e2e_step.turn [of \<delta>1 toy_env "toy_wake 300 []" True s2] toy_quiet r2 sample_second(1) [OF s1] sess_fits(2)
    by (simp add: toy_codecs NUMBER_LIMIT_def \<delta>1_def \<delta>2_def sizes_def)
  with reach1 have "sample_reach \<delta>2" by (rule sample_next)
  with that [of \<delta>2 d header k] s2 sealed show thesis by (simp add: \<delta>2_def \<delta>1_def deployed_def)
qed

text \<open>The server hears it and answers.\<close>

lemma sample_answered:
  obtains \<delta> where "sample_reach \<delta>" and "resting sess_sent sess_framer (client \<delta>)" and "running \<delta>" and "turns \<delta> = 2"
    and "entered \<delta> = [Resize 80 24, Byte 108, Byte 115]" and "far_receiver \<delta> = sess_received"
    and "host_sent \<delta> = [9 \<mapsto> (prompt_inst, [prompt_frag])]" and "asked \<delta> = {}"
proof -
  let ?op = "opener_new (\<lambda>_. ()) toy_key ToServer :: unit mosh_opener"
  obtain \<delta>2 d header k where reach: "sample_reach \<delta>2" and sent: "sent_datagrams (client \<delta>2) = [(7, d)]"
    and rest: "resting sess_sent sess_framer (client \<delta>2)" and typed: "entered \<delta>2 = [Resize 80 24, Byte 108, Byte 115]"
    and sealed: "seal toy_enc (sealer toy_loop) header (fragment_tostring sess_frag) = (Inr d, k)"
    and far: "far_assembly \<delta>2 = assembly_new" "far_receiver \<delta>2 = receiver_new user_stream_new 0"
      "host_sent \<delta>2 = Map.empty" "running \<delta>2" "turns \<delta>2 = 2" "asked \<delta>2 = {}"
    by (rule sample_sent)
  define \<delta>3 where "\<delta>3 = far_hears toy_env ?op \<delta>2 d 320"
  have reach3: "sample_reach \<delta>3"
    unfolding \<delta>3_def by (rule sample_next [OF reach e2e_step.hear]) (simp add: sent)
  have sl: "sealer toy_loop = sealer_new (\<lambda>_. ()) toy_key ToServer"
    by (simp add: toy_loop_def launch_loop_def session_loop_new_def Let_def toy_launch_def)
  have "open_datagram toy_dec ?op d = Inr (next_seq (sealer toy_loop), header, fragment_tostring sess_frag)"
    by (rule open_sealed [OF toy_aead_ok sealed]) (simp_all add: sl opener_new_def sealer_new_def)
  moreover have "fragment_parse (fragment_tostring sess_frag) = Inr sess_frag"
    by (rule fragment_parse_tostring) (simp add: sess_frag_def MAX_FRAGMENT_INDEX_def)
  ultimately have \<delta>3: "far_receiver \<delta>3 = sess_received" "entered \<delta>3 = entered \<delta>2" "client \<delta>3 = client \<delta>2" "running \<delta>3"
      "turns \<delta>3 = 2" "1 \<in> reported \<delta>3" "host_sent \<delta>3 = Map.empty" "asked \<delta>3 = {}"
    using sess_assemble sess_process far
    by (simp_all add: \<delta>3_def far_hears_def toy_codecs) (simp add: sess_received_def latest_def)
  define \<delta>4 where "\<delta>4 = \<delta>3\<lparr>host_sent := (host_sent \<delta>3)(9 \<mapsto> (prompt_inst, [prompt_frag]))\<rparr>"
  have "sample_step \<delta>3 \<delta>4"
    unfolding \<delta>4_def
    by (rule e2e_step.speak) (use \<delta>3 prompt_sent in \<open>simp_all add: toy_codecs\<close>, simp add: prompt_inst_def)
  with reach3 have "sample_reach \<delta>4" by (rule sample_next)
  then show thesis using that [of \<delta>4] rest typed \<delta>3 by (simp add: \<delta>4_def)
qed

text \<open>The round at 340 ms receives the answer.\<close>

lemma sample_session:
  obtains \<delta> where "session_of toy_env (\<lambda>_. ()) toy_session \<delta>" and "far_receiver \<delta> = sess_received"
    and "entered \<delta> = [Resize 80 24, Byte 108, Byte 115]" and "ts_num (latest (receiver (client \<delta>))) = 1"
    and "current_state (sender (client \<delta>)) = ts_state (hd (sent_states (sender (client \<delta>))))"
    and "host_sent \<delta> = [9 \<mapsto> (prompt_inst, [prompt_frag])]" and "asked \<delta> = {}"
proof -
  obtain \<delta> where reach: "sample_reach \<delta>" and rest: "resting sess_sent sess_framer (client \<delta>)"
    and \<delta>: "running \<delta>" "turns \<delta> = 2" "entered \<delta> = [Resize 80 24, Byte 108, Byte 115]" "far_receiver \<delta> = sess_received"
    and host: "host_sent \<delta> = [9 \<mapsto> (prompt_inst, [prompt_frag])]" and asked: "asked \<delta> = {}" by (rule sample_answered)
  have from_: "from_host (host_sent \<delta>) prompt_frag" by (simp add: from_host_def host) (simp add: prompt_frag_def)
  obtain d where len: "length d = 60"
    and op: "open_datagram toy_dec (opener toy_loop) d = Inr (0, toy_header, fragment_tostring prompt_frag)"
    using prompt_seal by metis
  define w where "w = (toy_wake 340 [])\<lparr>wake_newest := Some (d, 340, 340)\<rparr>"
  note third = sample_third [OF rest len op w_def]
  from third(2) obtain s where r: "run_round toy_env (client \<delta>) w = (True, s)" and s: "ts_num (latest (receiver s)) = 1"
    "current_state (sender s) = ts_state (hd (sent_states (sender s)))" by blast
  have "read_datagram (d, 340, 340) = (d, 340, 340)" using len by (simp add: read_datagram_def RECV_BUFFER_LEN_def)
  then have gen: "genuine_wake toy_env (opener (client \<delta>)) (from_host (host_sent \<delta>)) w"
    using rest op prompt_parse from_
    by (auto simp: genuine_wake_def genuine_arrival_def w_def toy_wake_def toy_codecs resting_def)
  define \<delta>' where "\<delta>' = \<delta>\<lparr>client := s, running := True, entered := entered \<delta> @ accepted (client \<delta>) w,
    asked := {}, turns := Suc (turns \<delta>)\<rparr>"
  have "sample_step \<delta> \<delta>'"
    unfolding \<delta>'_def
    using e2e_step.turn [OF \<delta>(1) _ gen _ r] \<delta>(2) third(1) sess_fits(1) asked
    by (simp add: toy_codecs NUMBER_LIMIT_def sizes_def w_def)
  with reach have "sample_reach \<delta>'" by (rule sample_next)
  then have "session_of toy_env (\<lambda>_. ()) toy_session \<delta>'"
    using toy_start toy_fresh unfolding session_of_def sample_reach_def
    by (auto simp: toy_session_def toy_launch_def)
  moreover have "accepted (client \<delta>) w = []" using rest by (simp add: accepted_def resting_def w_def)
  ultimately show thesis using that [of \<delta>'] s \<delta> host by (simp add: \<delta>'_def)
qed

text \<open>There is one way to the prompt.\<close>

lemma prompt_printed:
  assumes "printed [9 \<mapsto> (prompt_inst, [prompt_frag])] 1 evs"
  shows "evs = [Bytes [36, 32]]"
proof -
  have nums: "old_num prompt_inst = 0" "new_num prompt_inst = 1" "diff_events prompt_inst = [Bytes [36, 32]]"
    using prompt_decode by (simp_all add: prompt_inst_def diff_events_def)
  have origin: "xs = []" if "printed [9 \<mapsto> (prompt_inst, [prompt_frag])] 0 xs" for xs
    using that by cases (auto simp: nums split: if_splits)
  show ?thesis using assms
  proof cases
    case (link inst xs i frs)
    then show ?thesis using origin by (auto simp: nums split: if_splits)
  qed simp
qed

end
