(* ===== verification/End_To_End.thy ===== *)
theory End_To_End
  imports Sample_Session
begin

text \<open>
  The properties of a session with its server over a hostile network, end to end: from the commands of
  the embedder to the server's receiver, and from the server's terminal to the display. They follow from
  the simulation of \<open>Deployment\<close>; their witnesses are the session of \<open>Sample_Session\<close>.
\<close>

section \<open>Properties\<close>

text \<open>C4: The deployment refines the abstract system: whatever the network did, some set of fragments on an
  abstract network explains the client's sender and fragmenter, the server's reassembly and receiver,
  and what was entered, as a reachable state of \<open>Ssp_System\<close>; and what the client has sent as bytes is
  those fragments, sealed.\<close>

theorem deployment_refines_system:
  assumes "aead_ok (env_enc e) (env_dec e)" and "zlib_ok (env_zc e) (env_zr e)" and "session_of e ocb_new self \<delta>"
  shows "\<exists>F c. reachable (env_zc e) (env_zr e) (sys_of \<delta> F (client \<delta>)) \<and> carried e c F (client \<delta>)"
proof -
  obtain c where "linked e c (display self) \<delta> (turns \<delta>) (client \<delta>)" using session_linked [OF assms] .
  then show ?thesis by (auto simp: linked_def up_ok_def)
qed

text \<open>C1: What the server holds is what the user typed: over sealed datagrams that the network loses,
  repeats, reorders and alters, every state the server's receiver ever holds is a prefix of the
  initial window size followed by the input the loop accepted, in order.\<close>

theorem server_holds_what_was_typed:
  assumes "aead_ok (env_enc e) (env_dec e)" and "zlib_ok (env_zc e) (env_zr e)" and "session_of e ocb_new self \<delta>"
    and "t \<in> set (received (far_receiver \<delta>))"
  shows "prefix (events (ts_state t)) (entered \<delta>)"
proof -
  obtain c where "linked e c (display self) \<delta> (turns \<delta>) (client \<delta>)" using session_linked [OF assms(1-3)] .
  then obtain F where "reachable (env_zc e) (env_zr e) (sys_of \<delta> F (client \<delta>))" by (auto simp: linked_def up_ok_def)
  from received_prefix [OF assms(2) this] assms(4) show ?thesis by (simp add: sys_of_def)
qed

text \<open>C2: When the client's sender believes that everything was acknowledged, the server does hold
  everything that was entered.\<close>

theorem acknowledged_input_arrived:
  assumes "aead_ok (env_enc e) (env_dec e)" and "zlib_ok (env_zc e) (env_zr e)" and "session_of e ocb_new self \<delta>"
    and "current_state (sender (client \<delta>)) = ts_state (hd (sent_states (sender (client \<delta>))))"
  shows "\<exists>t \<in> set (received (far_receiver \<delta>)). events (ts_state t) = entered \<delta>"
proof -
  obtain c where "linked e c (display self) \<delta> (turns \<delta>) (client \<delta>)" using session_linked [OF assms(1-3)] .
  then obtain F where "reachable (env_zc e) (env_zr e) (sys_of \<delta> F (client \<delta>))" by (auto simp: linked_def up_ok_def)
  from acknowledged_held [OF assms(2) this] assms(4) show ?thesis by (simp add: sys_of_def)
qed

text \<open>C3: What the user sees is what the server's terminal printed: the display has drawn the diffs of a chain
  of instructions that the server sent, from its state 0 to the newest state number received, each event
  once and in order, starting from the embedder's display or a blank one; and besides them nothing but
  the embedder's own resizes. If it made none, the display is exactly that chain replayed. The server
  may have framed a number several times, from different bases and with different diffs.\<close>

theorem screen_shows_what_was_printed:
  assumes "aead_ok (env_enc e) (env_dec e)" and "zlib_ok (env_zc e) (env_zr e)" and "session_of e ocb_new self \<delta>"
  shows "\<exists>evs. printed (host_sent \<delta>) (ts_num (latest (receiver (client \<delta>)))) evs \<and>
           mixed (env_display e) (\<lambda>width height. (width, height) \<in> asked \<delta>) (display self) (display (client \<delta>)) evs \<and>
           (asked \<delta> = {} \<longrightarrow>
              (\<exists>d. (d = display self \<or> (\<exists>cols rows. d = new_blank (env_display e) cols rows)) \<and>
                   display (client \<delta>) = replay (env_display e) d evs))"
proof -
  let ?c = "client \<delta>"
  obtain c where "linked e c (display self) \<delta> (turns \<delta>) ?c" using session_linked [OF assms] .
  then have "down_ok e (display self) \<delta> ?c" by (simp add: linked_def)
  then have inv: "receiver_inv (receiver ?c)"
    and sh: "mixed (env_display e) (\<lambda>width height. (width, height) \<in> asked \<delta>) (display self) (display ?c)
        (log_iter (host_log (latest_state (receiver ?c))))"
    and told: "\<forall>t \<in> set (received (receiver ?c)). printed (host_sent \<delta>) (ts_num t) (log_iter (host_log (ts_state t)))"
    by (auto simp: down_ok_def display_inv_def log_inv_def shows_newest_def)
  have "printed (host_sent \<delta>) (ts_num (latest (receiver ?c))) (log_iter (host_log (latest_state (receiver ?c))))"
    using told latest_in [OF inv] by (simp add: latest_state_def)
  with sh mixed_unresized [OF sh] show ?thesis by auto
qed

text \<open>C5: With an honest server the only error a session can end with is the exhausted key budget: no
  instruction is refused and no diff fails to parse, whatever the network does.\<close>

theorem only_the_budget_is_fatal:
  assumes "aead_ok (env_enc e) (env_dec e)" and "zlib_ok (env_zc e) (env_zr e)" and "session_of e ocb_new self \<delta>"
  shows "fatal (client \<delta>) = None \<or> fatal (client \<delta>) = Some ''mosh: session exhausted its key budget''"
proof -
  obtain c where "linked e c (display self) \<delta> (turns \<delta>) (client \<delta>)" using session_linked [OF assms] .
  then show ?thesis by (simp add: linked_def down_ok_def BUDGET_MESSAGE_def)
qed

section \<open>Witnesses\<close>

lemma toy_zlib: "zlib_ok (env_zc toy_env) (env_zr toy_env)"
  using toy_zlib_ok by (simp add: toy_env_def)

theorem deployment_refines_system_witness:
  "\<exists>(\<delta> :: (unit, bytes) deployment) F. far_receiver \<delta> = sess_received \<and>
     reachable (\<lambda>x. x) toy_zr (sys_of \<delta> F (client \<delta>))"
proof -
  obtain \<delta> where "session_of toy_env (\<lambda>_. ()) toy_session \<delta>" "far_receiver \<delta> = sess_received"
    using sample_session by metis
  with deployment_refines_system [OF toy_env_ok toy_zlib this(1)] show ?thesis by (auto simp: toy_env_def)
qed

theorem server_holds_what_was_typed_witness:
  "\<exists>\<delta>. session_of toy_env (\<lambda>_. ()) toy_session \<delta> \<and> entered \<delta> = [Resize 80 24, Byte 108, Byte 115] \<and>
     prefix (events \<lparr>events = [Resize 80 24, Byte 108, Byte 115]\<rparr>) (entered \<delta>)"
proof -
  obtain \<delta> where \<delta>: "session_of toy_env (\<lambda>_. ()) toy_session \<delta>" "far_receiver \<delta> = sess_received"
    "entered \<delta> = [Resize 80 24, Byte 108, Byte 115]" using sample_session by metis
  from server_holds_what_was_typed [OF toy_env_ok toy_zlib \<delta>(1),
      of "\<lparr>ts_timestamp = 320, ts_num = 1, ts_state = \<lparr>events = [Resize 80 24, Byte 108, Byte 115]\<rparr>\<rparr>"] \<delta>
  show ?thesis by (auto simp: sess_received_def)
qed

theorem acknowledged_input_arrived_witness:
  "\<exists>\<delta>. session_of toy_env (\<lambda>_. ()) toy_session \<delta> \<and>
     (\<exists>t \<in> set (received (far_receiver \<delta>)). events (ts_state t) = [Resize 80 24, Byte 108, Byte 115])"
proof -
  obtain \<delta> where \<delta>: "session_of toy_env (\<lambda>_. ()) toy_session \<delta>"
    "entered \<delta> = [Resize 80 24, Byte 108, Byte 115]"
    "current_state (sender (client \<delta>)) = ts_state (hd (sent_states (sender (client \<delta>))))" using sample_session by metis
  from acknowledged_input_arrived [OF toy_env_ok toy_zlib \<delta>(1,3)] \<delta>(1,2) show ?thesis by auto
qed

theorem screen_shows_what_was_printed_witness:
  "\<exists>\<delta>. session_of toy_env (\<lambda>_. ()) toy_session \<delta> \<and> display (client \<delta>) = [36, 32]"
proof -
  obtain \<delta> where \<delta>: "session_of toy_env (\<lambda>_. ()) toy_session \<delta>" "ts_num (latest (receiver (client \<delta>))) = 1"
    "host_sent \<delta> = [9 \<mapsto> (prompt_inst, [prompt_frag])]" "asked \<delta> = {}"
    using sample_session by metis
  from screen_shows_what_was_printed [OF toy_env_ok toy_zlib \<delta>(1)] \<delta>(2-4) obtain evs d where
    evs: "printed [9 \<mapsto> (prompt_inst, [prompt_frag])] 1 evs" and d: "d = display toy_session \<or> (\<exists>cols rows. d = new_blank toy_ops cols rows)"
    and shown: "display (client \<delta>) = replay toy_ops d evs" by auto
  have "d = []" using d by (auto simp: toy_session_def toy_ops_def)
  with shown prompt_printed [OF evs] have "display (client \<delta>) = [36, 32]" by (simp add: toy_ops_def)
  with \<delta>(1) show ?thesis by blast
qed

theorem only_the_budget_is_fatal_witness:
  "\<exists>\<delta>. session_of toy_env (\<lambda>_. ()) toy_session \<delta> \<and> far_receiver \<delta> = sess_received \<and>
     fatal (client \<delta>) \<in> {None, Some BUDGET_MESSAGE}"
proof -
  obtain \<delta> where \<delta>: "session_of toy_env (\<lambda>_. ()) toy_session \<delta>" "far_receiver \<delta> = sess_received"
    using sample_session by metis
  from only_the_budget_is_fatal [OF toy_env_ok toy_zlib this(1)] \<delta> show ?thesis by (auto simp: BUDGET_MESSAGE_def)
qed

end
