(* ===== verification/Log_Memory.thy ===== *)
theory Log_Memory
  imports Host_Log "HOL-Library.Finite_Map" "HOL-Library.Multiset"
begin

text \<open>
  \<^verbatim>\<open>src/ssp.rs\<close> lines 198-293: the memory under the event log. Here a node is a cell of an explicit heap
  with the strong count of its \<open>Arc\<close>, a log is a pointer with a length, and the operations of the
  source are functions on the heap: \<open>clone\<close> raises a count, \<open>push\<close> allocates, and the hand-written
  \<open>drop\<close> walks the chain and frees what only the dropped log owns.

  The lemmas refine \<open>Host_Log\<close>, whose logs are immutable values with addresses, by this memory: for
  every sequence of operations on a pool of logs the counts are exact, the cells in use are exactly
  the nodes of the live logs, and each log reads as its value does.
\<close>

section \<open>The heap\<close>

record cell =
  strong :: nat
  up :: "nat option"
  cell_event :: host_event

type_synonym heap = "(nat, cell) fmap"

record log_handle =
  handle_node :: "nat option"
  handle_len :: nat

text \<open>\<open>Option<Arc<LogNode>>::clone\<close>.\<close>

fun arc_clone :: "heap \<Rightarrow> nat option \<Rightarrow> heap" where
  "arc_clone h None = h"
| "arc_clone h (Some a) =
     (case fmlookup h a of None \<Rightarrow> h | Some c \<Rightarrow> fmupd a (c\<lparr>strong := strong c + 1\<rparr>) h)"

lemma freeing_shrinks: "fmlookup h a = Some c \<Longrightarrow> fcard (fmdom (fmdrop a h)) < fcard (fmdom h)"
  using fcard_fminus1_less [of a "fmdom h"] by (simp add: fmdomI)

text \<open>The loop of \<open>drop\<close>: \<open>try_unwrap\<close> succeeds on the last owner and frees the node, whose parent the loop
  takes over; otherwise the failed \<open>Arc\<close> is dropped, which only lowers the count.\<close>

function drop_loop :: "heap \<Rightarrow> nat option \<Rightarrow> heap" where
  "drop_loop h None = h"
| "drop_loop h (Some a) =
     (case fmlookup h a of
        None \<Rightarrow> h
      | Some c \<Rightarrow>
          if strong c = 1 then drop_loop (fmdrop a h) (up c) else fmupd a (c\<lparr>strong := strong c - 1\<rparr>) h)"
  by pat_completeness auto
termination by (relation "measure (\<lambda>(h, p). fcard (fmdom h))") (simp_all add: freeing_shrinks del: fmdom_drop)

text \<open>What the loop replaces: the drop of the standard library's \<open>Arc\<close>, which calls itself on the parent from
  the drop of the node it frees. The second component is the depth of the calls.\<close>

function drop_glue :: "heap \<Rightarrow> nat option \<Rightarrow> heap \<times> nat" where
  "drop_glue h None = (h, 0)"
| "drop_glue h (Some a) =
     (case fmlookup h a of
        None \<Rightarrow> (h, 0)
      | Some c \<Rightarrow>
          if strong c = 1 then (case drop_glue (fmdrop a h) (up c) of (h', depth) \<Rightarrow> (h', depth + 1))
          else (fmupd a (c\<lparr>strong := strong c - 1\<rparr>) h, 1))"
  by pat_completeness auto
termination by (relation "measure (\<lambda>(h, p). fcard (fmdom h))") (simp_all add: freeing_shrinks del: fmdom_drop)

text \<open>The loop frees what the glue frees; the glue would need a call for each freed node.\<close>

lemma drop_loop_is_glue: "fst (drop_glue h p) = drop_loop h p"
  by (induction h p rule: drop_glue.induct) (auto simp: case_prod_unfold split: option.split)

lemma drop_glue_depth: "fcard (fmdom h) \<le> fcard (fmdom (drop_loop h p)) + snd (drop_glue h p)"
proof (induction h p rule: drop_glue.induct)
  case (2 h a)
  show ?case
  proof (cases "fmlookup h a")
    case (Some c)
    then have "a |\<in>| fmdom h" by (rule fmdomI)
    then have "fcard (fmdom h) = Suc (fcard (fmdom (fmdrop a h)))"
      by (metis fcard_Suc_fminus1 fmdom_drop)
    with 2 [OF Some] Some show ?thesis
      by (auto simp: case_prod_unfold finsert_absorb \<open>a |\<in>| fmdom h\<close> simp del: fmdom_drop)
  qed simp
qed simp

text \<open>The walk of \<open>iter\<close> along the pointers; \<open>None\<close> is a dangling pointer or a cycle.\<close>

partial_function (option) mem_walk :: "heap \<Rightarrow> nat option \<Rightarrow> host_event list option" where
  "mem_walk h p =
     (case p of
        None \<Rightarrow> Some []
      | Some a \<Rightarrow>
          (case fmlookup h a of
             None \<Rightarrow> None
           | Some c \<Rightarrow> Option.bind (mem_walk h (up c)) (\<lambda>es. Some (cell_event c # es))))"

definition mem_iter :: "heap \<Rightarrow> log_handle \<Rightarrow> host_event list option" where
  "mem_iter h self = map_option rev (mem_walk h (handle_node self))"

text \<open>\<open>push\<close>: the parent is a clone of the node pointer, and the assignment drops the old pointer, of
  which the new node holds the clone.\<close>

definition mem_push :: "nat \<Rightarrow> heap \<Rightarrow> log_handle \<Rightarrow> host_event \<Rightarrow> log_handle \<times> heap \<times> nat" where
  "mem_push free h self ev =
     (let h1 = arc_clone h (handle_node self);
          h2 = fmupd free \<lparr>strong = 1, up = handle_node self, cell_event = ev\<rparr> h1;
          h3 = fst (drop_glue h2 (handle_node self))
      in (self\<lparr>handle_node := Some free, handle_len := handle_len self + 1\<rparr>, h3, free + 1))"

text \<open>The states of the client: each holds a log, made by \<open>new\<close> or by cloning another, grown by \<open>push\<close>, and
  dropped at some time, in any order.\<close>

datatype log_op = OpNew | OpClone nat | OpPush nat host_event | OpDrop nat

record log_memory =
  heap_of :: heap
  free_of :: nat
  handles :: "log_handle list"

definition memory_start :: log_memory where
  "memory_start = \<lparr>heap_of = fmempty, free_of = 0, handles = []\<rparr>"

definition without :: "nat \<Rightarrow> 'a list \<Rightarrow> 'a list" where
  "without i xs = take i xs @ drop (Suc i) xs"

fun memory_step :: "log_memory \<Rightarrow> log_op \<Rightarrow> log_memory" where
  "memory_step m OpNew = m\<lparr>handles := handles m @ [\<lparr>handle_node = None, handle_len = 0\<rparr>]\<rparr>"
| "memory_step m (OpClone i) =
     (if i < length (handles m) then
        m\<lparr>heap_of := arc_clone (heap_of m) (handle_node (handles m ! i)), handles := handles m @ [handles m ! i]\<rparr>
      else m)"
| "memory_step m (OpPush i ev) =
     (if i < length (handles m) then
        (case mem_push (free_of m) (heap_of m) (handles m ! i) ev of
           (l, h, free) \<Rightarrow> m\<lparr>heap_of := h, free_of := free, handles := (handles m)[i := l]\<rparr>)
      else m)"
| "memory_step m (OpDrop i) =
     (if i < length (handles m) then
        m\<lparr>heap_of := drop_loop (heap_of m) (handle_node (handles m ! i)), handles := without i (handles m)\<rparr>
      else m)"

text \<open>The same operations on the logs of \<open>Host_Log\<close>.\<close>

fun pool_step :: "event_log list \<times> nat \<Rightarrow> log_op \<Rightarrow> event_log list \<times> nat" where
  "pool_step (ls, free) OpNew = (ls @ [event_log_new], free)"
| "pool_step (ls, free) (OpClone i) = (if i < length ls then (ls @ [ls ! i], free) else (ls, free))"
| "pool_step (ls, free) (OpPush i ev) =
     (if i < length ls then (case log_push free (ls ! i) ev of (l, free') \<Rightarrow> (ls[i := l], free')) else (ls, free))"
| "pool_step (ls, free) (OpDrop i) = (if i < length ls then (without i ls, free) else (ls, free))"

section \<open>Owners\<close>

text \<open>Where a log value starts, and that its nodes are cells.\<close>

abbreviation root :: "log_node option \<Rightarrow> nat option" where
  "root n \<equiv> map_option addr n"

fun stored :: "heap \<Rightarrow> log_node option \<Rightarrow> bool" where
  "stored h None = True"
| "stored h (Some (LogNode a p ev)) =
     ((\<exists>c. fmlookup h a = Some c \<and> up c = root p \<and> cell_event c = ev) \<and> stored h p)"

definition kids :: "heap \<Rightarrow> nat \<Rightarrow> nat set" where
  "kids h a = {b. Option.bind (fmlookup h b) up = Some a}"

text \<open>The pointers to a cell: those of the logs \<open>R\<close> and those of the cells above it.\<close>

definition owners :: "heap \<Rightarrow> log_node option multiset \<Rightarrow> nat \<Rightarrow> nat" where
  "owners h R a = count (image_mset root R) (Some a) + card (kids h a)"

definition heap_ok :: "nat \<Rightarrow> heap \<Rightarrow> log_node option multiset \<Rightarrow> bool" where
  "heap_ok free h R \<longleftrightarrow> (\<forall>n \<in># R. stored h n) \<and>
     (\<forall>a c. fmlookup h a = Some c \<longrightarrow> a < free \<and> (\<forall>b. up c = Some b \<longrightarrow> b < a \<and> b |\<in>| fmdom h) \<and>
        strong c = owners h R a \<and> 0 < strong c)"

lemma finite_kids [simp]: "finite (kids h a)"
proof (rule finite_subset)
  show "kids h a \<subseteq> fset (fmdom h)" by (auto simp: kids_def bind_eq_Some_conv intro: fmdomI)
qed simp

lemma kids_upd: "kids (fmupd b c h) a = (if up c = Some a then insert b (kids h a) else kids h a - {b})"
  by (auto simp: kids_def)

lemma kids_drop: "kids (fmdrop b h) a = kids h a - {b}"
  by (auto simp: kids_def)

lemma kids_strong: "fmlookup h b = Some c \<Longrightarrow> kids (fmupd b (c\<lparr>strong := k\<rparr>) h) a = kids h a"
  by (auto simp: kids_upd) (auto simp: kids_def)

lemma stored_strong: "fmlookup h b = Some c \<Longrightarrow> stored h n \<Longrightarrow> stored (fmupd b (c\<lparr>strong := k\<rparr>) h) n"
  by (induction h n rule: stored.induct) auto

lemma stored_drop: "a \<notin> addr ` set (chain n) \<Longrightarrow> stored h n \<Longrightarrow> stored (fmdrop a h) n"
  by (induction h n rule: stored.induct) auto

lemma stored_fresh: "fmlookup h a = None \<Longrightarrow> stored h n \<Longrightarrow> stored (fmupd a c h) n"
  by (induction h n rule: stored.induct) auto

text \<open>A node of a stored log is its first or has a cell above it.\<close>

lemma stored_owned: "stored h n \<Longrightarrow> a \<in> addr ` set (chain n) \<Longrightarrow> root n = Some a \<or> kids h a \<noteq> {}"
proof (induction h n rule: stored.induct)
  case (2 h b p ev)
  show ?case
  proof (cases "a = b")
    case False
    with 2 consider "root p = Some a" | "kids h a \<noteq> {}" by auto
    then show ?thesis
    proof cases
      case 1
      with 2(2) have "b \<in> kids h a" by (auto simp: kids_def)
      then show ?thesis by blast
    qed simp
  qed simp
qed simp

lemma heap_okD:
  assumes "heap_ok free h R"
  shows "n \<in># R \<Longrightarrow> stored h n" and "fmlookup h a = Some c \<Longrightarrow> a < free"
    and "fmlookup h a = Some c \<Longrightarrow> up c = Some b \<Longrightarrow> b < a \<and> b |\<in>| fmdom h"
    and "fmlookup h a = Some c \<Longrightarrow> strong c = owners h R a" and "fmlookup h a = Some c \<Longrightarrow> 0 < owners h R a"
  using assms unfolding heap_ok_def by metis+

lemma heap_ok_start: "heap_ok free fmempty {#}"
  by (simp add: heap_ok_def)

lemma heap_ok_None [simp]: "heap_ok free h (add_mset None R) = heap_ok free h R"
  by (simp add: heap_ok_def owners_def)

section \<open>The operations keep the counts\<close>

lemma fmdom_same: "fmlookup h a = Some c \<Longrightarrow> fmdom (fmupd a c' h) = fmdom h"
  by (simp add: fmdomI finsert_absorb)

text \<open>Changing a count by as much as the pointers to its cell have changed.\<close>

lemma heap_ok_count:
  assumes ok: "heap_ok free h R" and a: "fmlookup h a = Some c"
    and n: "\<forall>n \<in># R'. stored h n" and k: "k = owners h R' a" "0 < k"
    and rest: "\<And>b. b \<noteq> a \<Longrightarrow> owners h R' b = owners h R b"
  shows "heap_ok free (fmupd a (c\<lparr>strong := k\<rparr>) h) R'"
proof -
  let ?h = "fmupd a (c\<lparr>strong := k\<rparr>) h"
  have own: "owners ?h R' b = owners h R' b" for b by (simp add: owners_def kids_strong [OF a])
  have "b < free \<and> (\<forall>p. up d = Some p \<longrightarrow> p < b \<and> p |\<in>| fmdom ?h) \<and> strong d = owners ?h R' b \<and> 0 < strong d"
    if d: "fmlookup ?h b = Some d" for b d
  proof (cases "b = a")
    case True
    with d heap_okD(2,3) [OF ok a] k(2) show ?thesis by (auto simp: own fmdom_same [OF a] simp flip: k(1))
  next
    case False
    with d have "fmlookup h b = Some d" by simp
    with heap_okD(2-5) [OF ok this] show ?thesis by (simp add: own rest [OF False] fmdom_same [OF a])
  qed
  moreover have "\<forall>n \<in># R'. stored ?h n" using n stored_strong [OF a] by blast
  ultimately show ?thesis unfolding heap_ok_def by blast
qed

lemma arc_clone_ok:
  assumes ok: "heap_ok free h R" and n: "n \<in># R"
  shows "heap_ok free (arc_clone h (root n)) (add_mset n R)"
proof (cases n)
  case None
  with ok show ?thesis by simp
next
  case (Some nd)
  then obtain a p ev where nd: "n = Some (LogNode a p ev)" by (cases nd) simp
  with heap_okD(1) [OF ok n] obtain c where c: "fmlookup h a = Some c" by auto
  have "heap_ok free (fmupd a (c\<lparr>strong := strong c + 1\<rparr>) h) (add_mset n R)"
    using heap_okD(1) [OF ok n] heap_okD(1) [OF ok] heap_okD(4) [OF ok c]
    by (intro heap_ok_count [OF ok c]) (auto simp: owners_def nd)
  with nd c show ?thesis by simp
qed

text \<open>A new cell takes over the pointer that becomes its parent.\<close>

lemma alloc_ok:
  assumes ok: "heap_ok free h (add_mset n R)" and c: "strong c = 1" "up c = root n" "cell_event c = ev"
  shows "heap_ok (Suc free) (fmupd free c h) (add_mset (Some (LogNode free n ev)) R)"
    (is "heap_ok _ ?h ?R")
proof -
  have fresh: "fmlookup h free = None" using heap_okD(2) [OF ok] by (cases "fmlookup h free") auto
  note keep = stored_fresh [OF fresh]
  have top: "free \<notin> kids h b" for b using fresh by (simp add: kids_def)
  then have own: "owners ?h ?R b = owners h (add_mset n R) b + (if b = free then 1 else 0)" for b
    by (cases n) (auto simp: owners_def kids_upd c)
  have none: "owners h (add_mset n R) free = 0"
  proof -
    have "root m \<noteq> Some free" if "m \<in># add_mset n R" for m
    proof
      assume "root m = Some free"
      then obtain p ev where "m = Some (LogNode free p ev)" by (cases m; cases "the m") auto
      with heap_okD(1) [OF ok that] fresh show False by simp
    qed
    then have "Some free \<notin> root ` set_mset (add_mset n R)" by (metis imageE)
    then have "count (image_mset root (add_mset n R)) (Some free) = 0"
      by (simp only: count_eq_zero_iff set_image_mset not_False_eq_True)
    moreover have "kids h free = {}"
      using heap_okD(2,3) [OF ok] by (fastforce simp: kids_def bind_eq_Some_conv)
    ultimately show ?thesis by (simp add: owners_def)
  qed
  have "root n = Some b \<Longrightarrow> b < free \<and> b |\<in>| fmdom h" for b
    using heap_okD(1) [OF ok, of n] heap_okD(2) [OF ok] by (cases n; cases "the n") (auto intro: fmdomI)
  with heap_okD [OF ok] keep own none c show ?thesis
    unfolding heap_ok_def by (auto simp: less_Suc_eq)
qed

text \<open>The last owner frees the cell and takes over its parent.\<close>

lemma free_ok:
  assumes ok: "heap_ok free h (add_mset (Some (LogNode a p ev)) R)" and last: "owners h R a = 0"
  shows "heap_ok free (fmdrop a h) (add_mset p R)"
    (is "heap_ok _ ?h ?R")
proof -
  have st: "stored h (Some (LogNode a p ev))" by (rule heap_okD(1) [OF ok]) simp
  then obtain c where c: "fmlookup h a = Some c" "up c = root p" by auto
  have none: "Some a \<notin> root ` set_mset R" "kids h a = {}"
    using last by (auto simp: owners_def count_eq_zero_iff simp flip: set_image_mset)
  have "a \<notin> addr ` set (chain m)" if "m \<in># ?R" for m
  proof
    assume "a \<in> addr ` set (chain m)"
    moreover have "stored h m" using heap_okD(1) [OF ok, of m] that st by auto
    ultimately have "root m = Some a" using stored_owned none(2) by blast
    with that none(1) have "root p = Some a" by force
    with c heap_okD(3) [OF ok c(1), of a] show False by simp
  qed
  then have keep: "\<forall>m \<in># ?R. stored ?h m" using heap_okD(1) [OF ok] st by (auto intro!: stored_drop)
  have own: "owners ?h ?R b = owners h (add_mset (Some (LogNode a p ev)) R) b" if "b \<noteq> a" for b
  proof -
    have "a \<in> kids h b \<longleftrightarrow> root p = Some b" using c by (simp add: kids_def)
    moreover from this have "0 < card (kids h b)" if "root p = Some b" using that by (auto simp: card_gt_0_iff)
    ultimately show ?thesis using that by (auto simp: owners_def kids_drop)
  qed
  have "b < free \<and> (\<forall>q. up d = Some q \<longrightarrow> q < b \<and> q |\<in>| fmdom ?h) \<and> strong d = owners ?h ?R b \<and> 0 < strong d"
    if d: "fmlookup ?h b = Some d" for b d
  proof -
    from d have b: "b \<noteq> a" "fmlookup h b = Some d" by (auto split: if_splits)
    have "b \<notin> kids h a" using none(2) by blast
    with b have "up d \<noteq> Some a" by (simp add: kids_def)
    with heap_okD(2-5) [OF ok b(2)] own [OF b(1)] show ?thesis by auto
  qed
  with keep show ?thesis unfolding heap_ok_def by blast
qed

lemma drop_ok: "heap_ok free h (add_mset n R) \<Longrightarrow> heap_ok free (drop_loop h (root n)) R"
proof (induction n arbitrary: h rule: chain.induct)
  case (2 a p ev)
  let ?n = "Some (LogNode a p ev)"
  from heap_okD(1) [OF 2(2), of ?n] obtain c where c: "fmlookup h a = Some c" "up c = root p" by auto
  have own: "strong c = Suc (owners h R a)" using heap_okD(4) [OF 2(2) c(1)] by (simp add: owners_def)
  show ?case
  proof (cases "owners h R a = 0")
    case True
    from 2(1) [OF free_ok [OF 2(2) True]] own True c show ?thesis by simp
  next
    case False
    have "heap_ok free (fmupd a (c\<lparr>strong := owners h R a\<rparr>) h) R"
      using heap_okD(1) [OF 2(2)] False by (intro heap_ok_count [OF 2(2) c(1)]) (auto simp: owners_def)
    with own False c show ?thesis by simp
  qed
qed simp

lemma mem_push_ok:
  assumes ok: "heap_ok free h (add_mset n R)"
  shows "mem_push free h \<lparr>handle_node = root n, handle_len = k\<rparr> ev
      = (\<lparr>handle_node = Some free, handle_len = k + 1\<rparr>, fst (snd (mem_push free h \<lparr>handle_node = root n, handle_len = k\<rparr> ev)), Suc free) \<and>
    heap_ok (Suc free) (fst (snd (mem_push free h \<lparr>handle_node = root n, handle_len = k\<rparr> ev)))
      (add_mset (Some (LogNode free n ev)) R)"
proof -
  have "heap_ok free (arc_clone h (root n)) (add_mset n (add_mset n R))" by (rule arc_clone_ok [OF ok]) simp
  from alloc_ok [OF this, of "\<lparr>strong = 1, up = root n, cell_event = ev\<rparr>" ev]
  have "heap_ok (Suc free) (fmupd free \<lparr>strong = 1, up = root n, cell_event = ev\<rparr> (arc_clone h (root n)))
      (add_mset n (add_mset (Some (LogNode free n ev)) R))" by (simp add: add_mset_commute)
  from drop_ok [OF this] show ?thesis by (simp add: mem_push_def drop_loop_is_glue)
qed

section \<open>What the heap holds\<close>

lemma mem_walk_stored: "stored h n \<Longrightarrow> mem_walk h (root n) = Some (walk n)"
  by (induction h n rule: stored.induct) (subst mem_walk.simps, auto)+

lemma stored_unique: "stored h n \<Longrightarrow> stored h m \<Longrightarrow> root n = root m \<Longrightarrow> n = m"
proof (induction h n arbitrary: m rule: stored.induct)
  case (2 h a p ev)
  then obtain q ev' where m: "m = Some (LogNode a q ev')" by (cases m; cases "the m") auto
  with 2 show ?case by auto
qed simp

lemma stored_nodes: "stored h n \<Longrightarrow> x \<in> set (chain n) \<Longrightarrow> stored h (Some x)"
  by (induction h n rule: stored.induct) auto

text \<open>Two logs in one heap are coherent: equal addresses are the same node.\<close>

lemma stored_coherent:
  assumes "stored h (log_node l)" and "stored h (log_node m)"
  shows "coherent l m"
  using stored_nodes [OF assms(1)] stored_nodes [OF assms(2)] stored_unique
  unfolding coherent_def by (metis option.inject option.map(2))

text \<open>No cell leaks: each is a node of a live log.\<close>

lemma no_garbage: "heap_ok free h R \<Longrightarrow> fmlookup h a = Some c \<Longrightarrow> \<exists>n \<in># R. a \<in> addr ` set (chain n)"
proof (induction "free - a" arbitrary: a c rule: less_induct)
  case less
  note ok = less.prems(1)
  consider "0 < count (image_mset root R) (Some a)" | "kids h a \<noteq> {}"
    using heap_okD(5) [OF ok less.prems(2)] by (cases "kids h a = {}") (auto simp: owners_def)
  then show ?case
  proof cases
    case 1
    then have "Some a \<in> root ` set_mset R" by (simp only: count_greater_zero_iff set_image_mset)
    then obtain n where n: "n \<in># R" "root n = Some a" by (metis imageE)
    then have "a \<in> addr ` set (chain n)" by (cases n; cases "the n") auto
    with n show ?thesis by blast
  next
    case 2
    then obtain b d where b: "fmlookup h b = Some d" "up d = Some a" by (auto simp: kids_def bind_eq_Some_conv)
    from heap_okD(2,3) [OF ok b(1)] b have "free - b < free - a" by (meson diff_less_mono2 less_trans)
    from less.hyps [OF this ok b(1)] obtain n where n: "n \<in># R" "b \<in> addr ` set (chain n)" by blast
    then obtain x where x: "x \<in> set (chain n)" "b = addr x" by blast
    with stored_nodes [OF heap_okD(1) [OF ok n(1)] x(1)] b have "root (parent x) = Some a" by (cases x) auto
    then have "a \<in> addr ` set (chain n)" using x(1)
      by (induction n rule: chain.induct) (auto simp: image_iff chain_Some)
    with n show ?thesis by blast
  qed
qed

section \<open>A pool of logs\<close>

definition handle_of :: "event_log \<Rightarrow> log_handle" where
  "handle_of l = \<lparr>handle_node = root (log_node l), handle_len = log_len l\<rparr>"

definition pool_ok :: "log_memory \<Rightarrow> event_log list \<times> nat \<Rightarrow> bool" where
  "pool_ok m p \<longleftrightarrow> handles m = map handle_of (fst p) \<and> free_of m = snd p \<and>
     heap_ok (snd p) (heap_of m) (mset (map log_node (fst p))) \<and> (\<forall>l \<in> set (fst p). log_ok l)"

lemma mset_without: "i < length xs \<Longrightarrow> mset xs = add_mset (xs ! i) (mset (without i xs))"
  using arg_cong [OF id_take_nth_drop, of i xs mset] by (simp add: without_def)

lemma mset_replace: "i < length xs \<Longrightarrow> mset (xs[i := x]) = add_mset x (mset (without i xs))"
  by (simp add: upd_conv_take_nth_drop without_def)

lemma map_without: "map f (without i xs) = without i (map f xs)"
  by (simp add: without_def take_map drop_map)

lemma set_without: "set (without i xs) \<subseteq> set xs"
  by (auto simp: without_def dest: in_set_takeD in_set_dropD)

lemma pool_out: "i < length ls \<Longrightarrow>
    mset (map log_node ls) = add_mset (log_node (ls ! i)) (mset (map log_node (without i ls)))"
  using mset_without [of i "map log_node ls"] by (simp add: map_without)

lemma pool_push_ok:
  assumes ok: "pool_ok m (ls, free)" and i: "i < length ls"
  shows "pool_ok (memory_step m (OpPush i ev)) (pool_step (ls, free) (OpPush i ev))"
proof -
  let ?l = "ls ! i" and ?others = "mset (map log_node (without i ls))"
  let ?l' = "?l\<lparr>log_node := Some (LogNode free (log_node ?l) ev), log_len := log_len ?l + 1\<rparr>"
  from ok have "heap_ok free (heap_of m) (add_mset (log_node ?l) ?others)" by (simp only: pool_ok_def pool_out [OF i] fst_conv snd_conv)
  from mem_push_ok [OF this, of "log_len ?l" ev]
  obtain h where h: "mem_push free (heap_of m) (handle_of ?l) ev = (handle_of ?l', h, Suc free)"
    "heap_ok (Suc free) h (add_mset (log_node ?l') ?others)"
    by (auto simp: handle_of_def)
  have "mset (map log_node (ls[i := ?l'])) = add_mset (log_node ?l') ?others"
    using mset_replace [of i "map log_node ls"] i by (simp add: map_update map_without)
  moreover have "\<forall>l \<in> set (ls[i := ?l']). log_ok l"
    using ok i set_update_subset_insert [of ls i ?l'] by (auto simp: log_ok_def pool_ok_def)
  ultimately show ?thesis using h i ok by (simp add: pool_ok_def log_push_def map_update)
qed

lemma pool_step_ok:
  assumes ok: "pool_ok m p"
  shows "pool_ok (memory_step m op) (pool_step p op)"
proof -
  obtain ls free where p: "p = (ls, free)" by fastforce
  from ok have hs: "handles m = map handle_of ls" "free_of m = free"
    and hp: "heap_ok free (heap_of m) (mset (map log_node ls))" and lok: "\<forall>l \<in> set ls. log_ok l"
    by (simp_all add: pool_ok_def p)
  show ?thesis
  proof (cases op)
    case OpNew
    with hs hp lok show ?thesis by (simp add: p pool_ok_def handle_of_def event_log_new_def log_ok_def)
  next
    case (OpClone i)
    have "heap_ok free (arc_clone (heap_of m) (root (log_node (ls ! i)))) (add_mset (log_node (ls ! i)) (mset (map log_node ls)))"
      if "i < length ls" using that by (intro arc_clone_ok [OF hp]) simp
    with OpClone hs hp lok show ?thesis by (simp add: p pool_ok_def handle_of_def)
  next
    case (OpPush i ev)
    with ok hs pool_push_ok [of m ls free i ev] show ?thesis by (cases "i < length ls") (simp_all add: p)
  next
    case (OpDrop i)
    have "heap_ok free (drop_loop (heap_of m) (root (log_node (ls ! i)))) (mset (map log_node (without i ls)))"
      if "i < length ls" using hp that by (intro drop_ok) (simp only: pool_out)
    with OpDrop hs hp lok set_without [of i ls] show ?thesis
      by (cases "i < length ls") (auto simp: p pool_ok_def handle_of_def map_without)
  qed
qed

lemma pool_run_ok: "pool_ok m p \<Longrightarrow> pool_ok (foldl memory_step m ops) (foldl pool_step p ops)"
  by (induction ops arbitrary: m p) (simp_all add: pool_step_ok)

lemma pool_start_ok: "pool_ok memory_start ([], 0)"
  by (simp add: pool_ok_def memory_start_def heap_ok_start)

section \<open>Properties\<close>

text \<open>C37: The memory under the event logs is exact. After any sequence of creating, cloning, pushing and
  dropping logs, in any order: every live log reads, through its pointers, as the sequence of events
  that was pushed to it; the cells in use are exactly the nodes of the live logs, so that the
  hand-written \<open>drop\<close> neither leaks a node nor frees one that another log shares; and the logs have
  the coherent addresses that the pointer comparison of \<open>suffix_over\<close> rests on.\<close>

theorem log_memory_exact:
  "map (mem_iter (heap_of (foldl memory_step memory_start ops))) (handles (foldl memory_step memory_start ops))
     = map (Some \<circ> log_iter) (fst (foldl pool_step ([], 0) ops)) \<and>
   fmdom' (heap_of (foldl memory_step memory_start ops))
     = (\<Union>l \<in> set (fst (foldl pool_step ([], 0) ops)). addr ` set (chain (log_node l))) \<and>
   log_family (snd (foldl pool_step ([], 0) ops)) (set (fst (foldl pool_step ([], 0) ops)))"
proof -
  define m ls free where m: "m = foldl memory_step memory_start ops" and "ls = fst (foldl pool_step ([], 0) ops)"
    and "free = snd (foldl pool_step ([], 0) ops)"
  then have p: "foldl pool_step ([], 0) ops = (ls, free)" by simp
  from pool_run_ok [OF pool_start_ok, of ops]
  have hs: "handles m = map handle_of ls" and ok: "heap_ok free (heap_of m) (mset (map log_node ls))"
    and lok: "\<forall>l \<in> set ls. log_ok l"
    by (simp_all add: m p pool_ok_def)
  have st: "stored (heap_of m) (log_node l)" if "l \<in> set ls" for l using heap_okD(1) [OF ok] that by simp
  have "map (mem_iter (heap_of m)) (handles m) = map (Some \<circ> log_iter) ls"
    by (simp add: hs mem_iter_def handle_of_def mem_walk_stored st log_iter_def)
  moreover have "fmdom' (heap_of m) = (\<Union>l \<in> set ls. addr ` set (chain (log_node l)))"
  proof (intro set_eqI iffI)
    fix a assume "a \<in> fmdom' (heap_of m)"
    then obtain c where "fmlookup (heap_of m) a = Some c" by (auto simp: fmlookup_dom'_iff)
    from no_garbage [OF ok this] show "a \<in> (\<Union>l \<in> set ls. addr ` set (chain (log_node l)))" by auto
  next
    fix a assume "a \<in> (\<Union>l \<in> set ls. addr ` set (chain (log_node l)))"
    then obtain l x where "l \<in> set ls" "x \<in> set (chain (log_node l))" "a = addr x" by auto
    with stored_nodes [OF st] show "a \<in> fmdom' (heap_of m)" by (cases x) (fastforce simp: fmlookup_dom'_iff)
  qed
  moreover have "log_family free (set ls)"
  proof -
    have "log_below free l" if "l \<in> set ls" for l
      using stored_nodes [OF st [OF that]] heap_okD(2) [OF ok] unfolding log_below_def
      by (metis log_node.exhaust_sel stored.simps(2))
    with lok stored_coherent [OF st st] show ?thesis by (simp add: log_family_def)
  qed
  ultimately show ?thesis by (simp add: m p)
qed

end
