(* ===== verification/Fuzz_Harness.thy ===== *)
theory Fuzz_Harness
  imports Ssp_Sender Ssp_Receiver Host_Log
begin

text \<open>
  \<^verbatim>\<open>src/fuzz/src/lib.rs\<close>: the bodies of the fuzz targets and the seeds of their corpora. The drivers run
  the crate's own engines on a byte string; their counts say what an input has reached. The theorems
  are the claims of \<^verbatim>\<open>src/fuzz/tests/reachability.rs\<close>, for every input and every compressor: the two
  drivers agree, the input format round-trips, and the seeds do reach reassembly and both receivers.
\<close>

section \<open>The drivers\<close>

record ssp_receive_counts =
  parsed_fragments :: u32
  assembled :: u32
  multi_fragment_completions :: u32
  user_latest :: u32
  host_latest :: u32

definition counts_default :: ssp_receive_counts where
  "counts_default = \<lparr>parsed_fragments = 0, assembled = 0, multi_fragment_completions = 0, user_latest = 0, host_latest = 0\<rparr>"

text \<open>\<open>u16::to_le_bytes\<close> and \<open>from_le_bytes\<close>.\<close>

definition le16 :: "u16 \<Rightarrow> bytes" where
  "le16 w = rev (be16 w)"

definition rdle16 :: "bytes \<Rightarrow> u16" where
  "rdle16 bs = rd16 (rev bs)"

text \<open>The iterator over the chunks from \<open>pos\<close> on: the fragments it yields until it ends.\<close>

function parse_chunks :: "bytes \<Rightarrow> nat \<Rightarrow> fragment list" where
  "parse_chunks data pos =
     (if pos + 2 \<le> length data then
        let len = unat (rdle16 [data ! pos, data ! (pos + 1)]); pos1 = pos + 2
        in if pos1 + len > length data then []
           else
             let bs = take len (drop pos1 data); pos2 = pos1 + len
             in case fragment_parse bs of
                  Inr frag \<Rightarrow> frag # parse_chunks data pos2
                | Inl _ \<Rightarrow> parse_chunks data pos2
      else [])"
  by pat_completeness auto
termination by (relation "measure (\<lambda>(data, pos). length data - pos)") auto

declare parse_chunks.simps [simp del]

text \<open>What a driver keeps between fragments.\<close>

record ssp_drive =
  drive_counts :: ssp_receive_counts
  drive_assembly :: fragment_assembly
  user_rx :: "user_stream ssp_receiver"
  host_rx :: "host_stream_state ssp_receiver"
  host_free :: nat

fun is_latest :: "ssp_error + 's recv_outcome \<Rightarrow> bool" where
  "is_latest (Inr (Latest _ _ _)) = True"
| "is_latest _ = False"

definition user_process ::
  "user_stream ssp_receiver \<Rightarrow> transport_instruction \<Rightarrow> (ssp_error + user_stream recv_outcome) \<times> user_stream ssp_receiver" where
  "user_process r inst =
     (case process_instruction (\<lambda>_ s d. (user_apply_string s d, ())) () r inst 0 of (res, r', _) \<Rightarrow> (res, r'))"

definition drive_instruction :: "ssp_drive \<Rightarrow> transport_instruction \<Rightarrow> bool \<Rightarrow> ssp_drive" where
  "drive_instruction self inst completing =
     (let c = drive_counts self;
          c1 = c\<lparr>assembled := assembled c + 1\<rparr>;
          c2 = (if completing then c1\<lparr>multi_fragment_completions := multi_fragment_completions c1 + 1\<rparr> else c1)
      in case user_process (user_rx self) inst of
           (ures, urx) \<Rightarrow>
             let c3 = (if is_latest ures then c2\<lparr>user_latest := user_latest c2 + 1\<rparr> else c2)
             in case process_instruction host_apply_string (host_free self) (host_rx self) inst 0 of
                  (hres, hrx, free) \<Rightarrow>
                    let c4 = (if is_latest hres then c3\<lparr>host_latest := host_latest c3 + 1\<rparr> else c3)
                    in self\<lparr>drive_counts := c4, user_rx := urx, host_rx := hrx, host_free := free\<rparr>)"

definition drive_fragment :: "zlib_read \<Rightarrow> ssp_drive \<Rightarrow> fragment \<Rightarrow> ssp_drive" where
  "drive_fragment zr self frag =
     (let c = drive_counts self;
          self1 = self\<lparr>drive_counts := c\<lparr>parsed_fragments := parsed_fragments c + 1\<rparr>\<rparr>;
          completing = (fragment_num frag \<ge> 1)
      in case add_fragment zr (drive_assembly self1) frag of
           (Some inst, a) \<Rightarrow> drive_instruction (self1\<lparr>drive_assembly := a\<rparr>) inst completing
         | (None, a) \<Rightarrow> self1\<lparr>drive_assembly := a\<rparr>)"

definition drive_start :: ssp_drive where
  "drive_start =
     \<lparr>drive_counts = counts_default, drive_assembly = assembly_new, user_rx = receiver_new user_stream_new 0,
      host_rx = receiver_new host_stream_new 0, host_free = 0\<rparr>"

definition drive_ssp_receive :: "zlib_read \<Rightarrow> bytes \<Rightarrow> ssp_receive_counts" where
  "drive_ssp_receive zr data = drive_counts (foldl (drive_fragment zr) drive_start (parse_chunks data 0))"

fun assembly_step ::
  "zlib_read \<Rightarrow> (u32 \<times> u32 \<times> u32) \<times> fragment_assembly \<Rightarrow> fragment \<Rightarrow> (u32 \<times> u32 \<times> u32) \<times> fragment_assembly" where
  "assembly_step zr ((parsed, fin, multi), a) frag =
     (let completing = (fragment_num frag \<ge> 1)
      in case add_fragment zr a frag of
           (Some _, a') \<Rightarrow> ((parsed + 1, fin + 1, if completing then multi + 1 else multi), a')
         | (None, a') \<Rightarrow> ((parsed + 1, fin, multi), a'))"

definition drive_fragment_assembly :: "zlib_read \<Rightarrow> bytes \<Rightarrow> u32 \<times> u32 \<times> u32" where
  "drive_fragment_assembly zr data =
     fst (foldl (assembly_step zr) ((0, 0, 0), assembly_new) (parse_chunks data 0))"

record wire_decode_counts =
  count_user :: u32
  count_host :: u32
  count_transport :: u32

fun is_ok :: "'e + 'a \<Rightarrow> bool" where
  "is_ok (Inr _) = True"
| "is_ok (Inl _) = False"

definition drive_wire_decode :: "bytes \<Rightarrow> wire_decode_counts" where
  "drive_wire_decode data =
     \<lparr>count_user = (if is_ok (user_decode data) then 1 else 0),
      count_host = (if is_ok (host_decode data) then 1 else 0),
      count_transport = (if is_ok (transport_decode data) then 1 else 0)\<rparr>"

section \<open>The seeds\<close>

definition user_diff :: "bytes \<Rightarrow> bytes" where
  "user_diff bs = user_encode \<lparr>user_instructions = [Keystroke bs]\<rparr>"

definition host_diff :: bytes where
  "host_diff = host_encode \<lparr>host_instructions =
     [HostBytes [27, 91, 72, 27, 91, 50, 74, 103, 111, 108, 100, 101, 110, 36, 32], HResize 100 30, EchoAck 4]\<rparr>"

definition seed_inst :: "bytes \<Rightarrow> u64 \<Rightarrow> u64 \<Rightarrow> u64 \<Rightarrow> u64 \<Rightarrow> transport_instruction" where
  "seed_inst d old new ack throwaway =
     \<lparr>protocol_version = MOSH_PROTOCOL_VERSION, old_num = old, new_num = new, ack_num = ack,
      throwaway_num = throwaway, diff = d, chaff = []\<rparr>"

definition echo_golden :: bytes where
  "echo_golden = [101, 99, 104, 111, 32, 103, 111, 108, 100, 101, 110, 13]"

definition typed_sender :: "user_stream ssp_sender" where
  "typed_sender =
     foldl (\<lambda>s chunk. set_current_state s (push_bytes (current_state s) chunk)) (sender_new user_stream_new 0 1)
       [echo_golden, [127], [109, 111, 114, 101, 27, 91, 65]]"

definition sender_shaped :: "(bytes \<Rightarrow> bytes) \<Rightarrow> fragment list" where
  "sender_shaped zc =
     (case tick user_diff_from user_subtract zc typed_sender 1 120 20 1200 fragmenter_default [] of
        (s1, fr1, out1) \<Rightarrow>
          (case tick user_diff_from user_subtract zc s1 20 120 20 1200 fr1 out1 of (_, _, out) \<Rightarrow> out))"

definition sender_shaped_fragments :: "(bytes \<Rightarrow> bytes) \<Rightarrow> bytes list" where
  "sender_shaped_fragments zc = map fragment_tostring (sender_shaped zc)"

definition prefix_chunk :: "bytes \<Rightarrow> bytes" where
  "prefix_chunk bs = (let n = min (length bs) (unat u16_max) in le16 (of_nat n) @ take n bs)"

definition wire_seeds :: "bytes list" where
  "wire_seeds =
     [user_encode \<lparr>user_instructions = []\<rparr>, user_diff [104, 105, 32, 109, 111, 115, 104, 13],
      host_encode \<lparr>host_instructions = []\<rparr>, host_diff,
      transport_encode (seed_inst [] 0 0 0 0),
      transport_encode (seed_inst (user_diff echo_golden) 0 1 1 0),
      transport_encode (seed_inst [] 3 SHUTDOWN_NUM 4 1),
      transport_encode (seed_inst host_diff 0 1 0 0)]"

text \<open>The linear congruential generator of the incompressible diff.\<close>

fun lcg_bytes :: "nat \<Rightarrow> u64 \<Rightarrow> bytes" where
  "lcg_bytes 0 mix = []"
| "lcg_bytes (Suc n) mix =
     (let mix' = mix * 6364136223846793005 + 1442695040888963407
      in ucast (drop_bit 56 mix') # lcg_bytes n mix')"

definition sequence_instructions :: "transport_instruction list" where
  "sequence_instructions =
     [seed_inst [] 0 0 0 0, seed_inst (user_diff echo_golden) 0 1 1 0, seed_inst [] 3 SHUTDOWN_NUM 4 1,
      seed_inst host_diff 0 1 0 0, seed_inst (lcg_bytes 3000 0x243F6A8885A308D3) 0 1 0 0]"

fun frame_all :: "(bytes \<Rightarrow> bytes) \<Rightarrow> fragmenter \<Rightarrow> transport_instruction list \<Rightarrow> fragment list" where
  "frame_all zc fr [] = []"
| "frame_all zc fr (i # is) =
     (case make_fragments zc fr i 1200 of
        (Inr frs, fr') \<Rightarrow> frs @ frame_all zc fr' is
      | (Inl _, fr') \<Rightarrow> frame_all zc fr' is)"

definition seed_sequence :: "(bytes \<Rightarrow> bytes) \<Rightarrow> bytes list" where
  "seed_sequence zc =
     map fragment_tostring (frame_all zc fragmenter_default sequence_instructions) @ sender_shaped_fragments zc"

definition sequence_seeds :: "(bytes \<Rightarrow> bytes) \<Rightarrow> bytes list" where
  "sequence_seeds zc =
     map prefix_chunk (seed_sequence zc) @ [concat (map prefix_chunk (seed_sequence zc))]"

section \<open>The input format\<close>

lemma rdle16_le16 [simp]: "rdle16 (le16 w) = w"
  by (simp add: rdle16_def le16_def codec_simps)

lemma length_le16 [simp]: "length (le16 w) = 2"
  by (simp add: le16_def)

lemma unat_u16_max: "unat u16_max = 2 ^ 16 - 1"
  by (simp add: u16_max_def unsigned_minus_1_eq_mask mask_eq_exp_minus_1)

lemma two_bytes: "length bs = 2 \<Longrightarrow> [bs ! 0, bs ! 1] = bs"
  by (cases bs; cases "tl bs") auto

text \<open>The iterator ends at a chunk that is not whole, and otherwise reads one.\<close>

definition chunk_len :: "bytes \<Rightarrow> nat \<Rightarrow> nat" where
  "chunk_len data pos = unat (rdle16 [data ! pos, data ! (pos + 1)])"

lemma parse_chunks_end:
  "length data < pos + 2 \<or> length data < pos + 2 + chunk_len data pos \<Longrightarrow> parse_chunks data pos = []"
  by (auto simp: parse_chunks.simps [of data pos] chunk_len_def Let_def)

lemma parse_chunks_next:
  assumes "pos + 2 + chunk_len data pos \<le> length data"
  shows "parse_chunks data pos =
    (case fragment_parse (take (chunk_len data pos) (drop (pos + 2) data)) of
       Inr frag \<Rightarrow> frag # parse_chunks data (pos + 2 + chunk_len data pos)
     | Inl _ \<Rightarrow> parse_chunks data (pos + 2 + chunk_len data pos))"
  using assms by (auto simp: parse_chunks.simps [of data pos] chunk_len_def Let_def split: sum.split)

text \<open>A chunk at the read position yields its fragment, and the iterator moves behind it.\<close>

lemma parse_chunks_chunk:
  assumes d: "drop pos data = prefix_chunk (fragment_tostring f) @ rest"
    and f: "fragment_num f \<le> MAX_FRAGMENT_INDEX" "length (fragment_tostring f) < 2 ^ 16"
  shows "parse_chunks data pos = f # parse_chunks data (pos + length (prefix_chunk (fragment_tostring f)))"
proof -
  let ?bs = "fragment_tostring f"
  have chunk: "prefix_chunk ?bs = le16 (of_nat (length ?bs)) @ ?bs" (is "_ = ?p @ _")
    using f(2) by (simp add: prefix_chunk_def unat_u16_max)
  have n: "unat (of_nat (length ?bs) :: u16) = length ?bs" using f(2) by (simp add: unsigned_of_nat take_bit_nat_eq_self)
  have "length data - pos = 2 + length ?bs + length rest"
    using arg_cong [OF d, of length] by (simp add: chunk)
  then have pos: "pos + 2 + length ?bs \<le> length data" by linarith
  have nth: "data ! (pos + k) = (?p @ ?bs @ rest) ! k" for k
    using d pos by (simp add: chunk flip: nth_drop)
  have len: "chunk_len data pos = length ?bs"
    using nth [of 0] nth [of 1] two_bytes [of ?p] by (simp add: nth_append chunk_len_def n)
  have "drop (pos + 2) data = drop 2 (drop pos data)" by (simp add: add.commute)
  then have "take (length ?bs) (drop (pos + 2) data) = ?bs" by (simp add: d chunk)
  then show ?thesis
    using parse_chunks_next [of pos data] pos fragment_parse_tostring [OF f(1)] by (simp add: len chunk)
qed

text \<open>A chunk that the input breaks off: less than a length prefix, or less than the length it names.\<close>

definition broken_off :: "bytes \<Rightarrow> bool" where
  "broken_off rest \<longleftrightarrow> length rest < 2 \<or> length rest < 2 + unat (rdle16 (take 2 rest))"

lemma parse_chunks_broken_off:
  assumes "drop pos data = rest" and "broken_off rest"
  shows "parse_chunks data pos = []"
proof (rule parse_chunks_end, rule ccontr)
  assume whole: "\<not> (length data < pos + 2 \<or> length data < pos + 2 + chunk_len data pos)"
  then have "[data ! pos, data ! (pos + 1)] = take 2 rest"
    using assms(1) by (intro nth_equalityI) (auto simp: less_Suc_eq nth_Cons' numeral_2_eq_2)
  moreover have "length rest = length data - pos" using assms(1) by auto
  ultimately show False using whole assms(2) by (auto simp: broken_off_def chunk_len_def)
qed

lemma parse_chunks_all:
  assumes "drop pos data = concat (map (\<lambda>f. prefix_chunk (fragment_tostring f)) fs) @ rest" and "broken_off rest"
    and "\<forall>f \<in> set fs. fragment_num f \<le> MAX_FRAGMENT_INDEX \<and> length (fragment_tostring f) < 2 ^ 16"
  shows "parse_chunks data pos = fs"
  using assms
proof (induction fs arbitrary: pos)
  case Nil
  then show ?case by (simp add: parse_chunks_broken_off)
next
  case (Cons f fs)
  let ?c = "prefix_chunk (fragment_tostring f)" and ?rest = "concat (map (\<lambda>f. prefix_chunk (fragment_tostring f)) fs) @ rest"
  have d: "drop pos data = ?c @ ?rest" using Cons.prems(1) by simp
  then have "drop (pos + length ?c) data = ?rest"
    by (metis append_eq_conv_conj drop_drop add.commute)
  with Cons.IH Cons.prems(2,3) parse_chunks_chunk [OF d] show ?case by simp
qed

text \<open>Every fragment has a length prefix and a header.\<close>

lemma parse_chunks_length: "12 * length (parse_chunks data pos) \<le> length data - pos"
proof (induction "length data - pos" arbitrary: pos rule: less_induct)
  case less
  let ?next = "pos + 2 + chunk_len data pos" and ?bs = "take (chunk_len data pos) (drop (pos + 2) data)"
  show ?case
  proof (cases "?next \<le> length data")
    case False
    then have "parse_chunks data pos = []" by (intro parse_chunks_end) linarith
    then show ?thesis by simp
  next
    case True
    then have ih: "12 * length (parse_chunks data ?next) \<le> length data - ?next" by (intro less) linarith
    show ?thesis
    proof (cases "fragment_parse ?bs")
      case (Inl err)
      with parse_chunks_next [OF True] ih show ?thesis by simp
    next
      case (Inr f)
      then have "10 \<le> length ?bs" by (auto simp: fragment_parse_def FRAG_HEADER_LEN_def Let_def split: if_splits)
      then have "10 \<le> chunk_len data pos" by simp
      then have "12 + 12 * length (parse_chunks data ?next) \<le> length data - pos" using ih True by linarith
      with parse_chunks_next [OF True] Inr show ?thesis by simp
    qed
  qed
qed

section \<open>The counts\<close>

definition assembly_view :: "ssp_drive \<Rightarrow> (u32 \<times> u32 \<times> u32) \<times> fragment_assembly" where
  "assembly_view s =
     ((parsed_fragments (drive_counts s), assembled (drive_counts s), multi_fragment_completions (drive_counts s)),
      drive_assembly s)"

lemma drive_instruction_frame:
  "parsed_fragments (drive_counts (drive_instruction s inst completing)) = parsed_fragments (drive_counts s)"
  "assembled (drive_counts (drive_instruction s inst completing)) = assembled (drive_counts s) + 1"
  "multi_fragment_completions (drive_counts (drive_instruction s inst completing))
     = multi_fragment_completions (drive_counts s) + (if completing then 1 else 0)"
  "drive_assembly (drive_instruction s inst completing) = drive_assembly s"
  "user_latest (drive_counts (drive_instruction s inst completing))
     \<in> {user_latest (drive_counts s), user_latest (drive_counts s) + 1}"
  "host_latest (drive_counts (drive_instruction s inst completing))
     \<in> {host_latest (drive_counts s), host_latest (drive_counts s) + 1}"
  by (auto simp: drive_instruction_def Let_def split: prod.split)

lemma drive_view_step: "assembly_step zr (assembly_view s) f = assembly_view (drive_fragment zr s f)"
  by (auto simp: drive_fragment_def assembly_view_def drive_instruction_frame Let_def split: prod.split option.split)

lemma drive_view: "foldl (assembly_step zr) (assembly_view s) fs = assembly_view (foldl (drive_fragment zr) s fs)"
  by (induction fs arbitrary: s) (simp_all add: drive_view_step)

text \<open>The counts are ordered as long as the number of fragments does not wrap around.\<close>

definition counts_ok :: "nat \<Rightarrow> ssp_receive_counts \<Rightarrow> bool" where
  "counts_ok n c \<longleftrightarrow> unat (parsed_fragments c) = n \<and> unat (assembled c) \<le> n \<and>
     unat (multi_fragment_completions c) \<le> unat (assembled c) \<and>
     unat (user_latest c) \<le> unat (assembled c) \<and> unat (host_latest c) \<le> unat (assembled c)"

lemma unat_plus_one: "Suc (unat x) < 2 ^ 32 \<Longrightarrow> unat (x + 1 :: u32) = Suc (unat x)"
  by (simp add: unat_word_ariths)

lemma drive_fragment_counts:
  assumes "counts_ok n (drive_counts s)" and n: "Suc n < 2 ^ 32"
  shows "counts_ok (Suc n) (drive_counts (drive_fragment zr s f))"
proof (cases "add_fragment zr (drive_assembly s) f")
  case (Pair r a)
  have c: "unat (parsed_fragments (drive_counts s) + 1) = Suc n"
    using assms unat_plus_one by (simp add: counts_ok_def)
  show ?thesis
  proof (cases r)
    case None
    with Pair assms c show ?thesis by (simp add: drive_fragment_def Let_def counts_ok_def)
  next
    case (Some inst)
    let ?s1 = "s\<lparr>drive_counts := (drive_counts s)\<lparr>parsed_fragments := parsed_fragments (drive_counts s) + 1\<rparr>, drive_assembly := a\<rparr>"
    have eq: "drive_fragment zr s f = drive_instruction ?s1 inst (fragment_num f \<ge> 1)"
      using Pair Some by (simp add: drive_fragment_def Let_def)
    have up: "unat (x + 1) = Suc (unat x)" if "unat x \<le> n" for x :: u32 using that n by (intro unat_plus_one) simp
    show ?thesis
      using drive_instruction_frame [of ?s1 inst "fragment_num f \<ge> 1"] assms c up
      unfolding counts_ok_def eq by auto
  qed
qed

lemma drive_counts_ok:
  "counts_ok n (drive_counts s) \<Longrightarrow> n + length fs < 2 ^ 32 \<Longrightarrow>
   counts_ok (n + length fs) (drive_counts (foldl (drive_fragment zr) s fs))"
proof (induction fs arbitrary: s n)
  case (Cons f fs)
  from Cons.IH [of "Suc n" "drive_fragment zr s f"] drive_fragment_counts [OF Cons.prems(1), of zr f] Cons.prems(2)
  show ?case by simp
qed simp

section \<open>Whole instructions\<close>

lemma feed_whole:
  assumes z: "zlib_ok zc zr" and sent: "sent_as zc i inst frs" and cl: "clean a"
  shows "fst (feed zr a frs) = replicate (length frs - 1) None @ [Some inst] \<and> clean (snd (feed zr a frs))"
proof -
  have num: "numbered i 0 frs" using sent by (simp add: sent_as_def)
  then have ne: "frs \<noteq> []" by (simp add: numbered_def)
  have dis: "distinct frs" by (rule numbered_distinct [OF num])
  from ne have split: "frs = butlast frs @ [last frs]" by simp
  have "set (butlast frs) \<subset> set frs"
    using dis split by (metis distinct_append disjoint_iff list.set_intros(1) psubsetI set_append subsetI UnCI)
  moreover have "insert (last frs) (set (butlast frs)) = set frs" using arg_cong [OF split, of set] by auto
  ultimately show ?thesis
    using feed_any_order [OF z sent disjI2 [OF cl], of "butlast frs" "last frs"] split ne by simp
qed

lemma drive_silent:
  "fst (feed zr (drive_assembly s) fs) = replicate (length fs) None \<Longrightarrow>
   foldl (drive_fragment zr) s fs = s\<lparr>drive_counts := (drive_counts s)\<lparr>parsed_fragments :=
     parsed_fragments (drive_counts s) + of_nat (length fs)\<rparr>, drive_assembly := snd (feed zr (drive_assembly s) fs)\<rparr>"
proof (induction fs arbitrary: s)
  case (Cons f fs)
  obtain r a where add: "add_fragment zr (drive_assembly s) f = (r, a)" by fastforce
  obtain rs a' where fd: "feed zr a fs = (rs, a')" by fastforce
  from Cons.prems add fd have r: "r = None" and rs: "rs = replicate (length fs) None" by simp_all
  let ?s1 = "s\<lparr>drive_counts := (drive_counts s)\<lparr>parsed_fragments := parsed_fragments (drive_counts s) + 1\<rparr>, drive_assembly := a\<rparr>"
  have "drive_fragment zr s f = ?s1" using add r by (simp add: drive_fragment_def Let_def)
  with Cons.IH [of ?s1] fd rs add show ?case by (simp add: add.assoc)
qed simp

text \<open>The part of the driver's state that only instructions change.\<close>

definition forget :: "ssp_drive \<Rightarrow> ssp_drive" where
  "forget s = s\<lparr>drive_counts := (drive_counts s)\<lparr>parsed_fragments := 0\<rparr>, drive_assembly := assembly_new\<rparr>"

lemma forget_instruction: "forget (drive_instruction s inst b) = drive_instruction (forget s) inst b"
  by (simp add: forget_def drive_instruction_def Let_def split: prod.split)

lemma drive_whole:
  assumes z: "zlib_ok zc zr" and sent: "sent_as zc i inst frs" and cl: "clean (drive_assembly s)"
  shows "forget (foldl (drive_fragment zr) s frs) = drive_instruction (forget s) inst (1 < length frs) \<and>
         clean (drive_assembly (foldl (drive_fragment zr) s frs))"
proof -
  have num: "numbered i 0 frs" using sent by (simp add: sent_as_def)
  then have ne: "frs \<noteq> []" by (simp add: numbered_def)
  define fs f where "fs = butlast frs" and "f = last frs"
  have split: "frs = fs @ [f]" using ne by (simp add: fs_def f_def)
  obtain rs a where fd: "feed zr (drive_assembly s) fs = (rs, a)" by fastforce
  obtain r a' where add: "add_fragment zr a f = (r, a')" by fastforce
  from feed_whole [OF z sent cl] fd add
  have "rs @ [r] = replicate (length fs) None @ [Some inst]" and cl': "clean a'"
    by (simp_all add: split feed_append)
  then have rs: "rs = replicate (length fs) None" and r: "r = Some inst" by simp_all
  have "unat (fragment_num f) = length fs"
    using num by (auto simp: numbered_def split nth_append dest: spec [of _ "length fs"])
  then have last: "fragment_num f \<ge> 1 \<longleftrightarrow> 1 < length frs" by (simp add: word_le_nat_alt split Suc_le_eq)
  let ?s1 = "foldl (drive_fragment zr) s fs"
  have s1: "forget ?s1 = forget s" "drive_assembly ?s1 = a"
    using drive_silent [of zr s fs] fd rs by (simp_all add: forget_def)
  let ?s2 = "?s1\<lparr>drive_counts := (drive_counts ?s1)\<lparr>parsed_fragments := parsed_fragments (drive_counts ?s1) + 1\<rparr>, drive_assembly := a'\<rparr>"
  have "foldl (drive_fragment zr) s frs = drive_instruction ?s2 inst (1 < length frs)"
    using add r s1(2) last by (simp add: split drive_fragment_def Let_def)
  moreover have "forget ?s2 = forget s" using s1(1) by (simp add: forget_def)
  ultimately show ?thesis using cl' by (simp add: forget_instruction drive_instruction_frame)
qed

text \<open>An instruction with its fragments, within the budget of 1200 bytes and the reassembly's limits.\<close>

definition framed :: "(bytes \<Rightarrow> bytes) \<Rightarrow> transport_instruction \<Rightarrow> fragment list \<Rightarrow> bool" where
  "framed zc inst frs \<longleftrightarrow> (\<exists>i. sent_as zc i inst frs) \<and>
     (\<forall>f \<in> set frs. fragment_num f \<le> MAX_FRAGMENT_INDEX \<and> length (fragment_tostring f) < 2 ^ 16) \<and>
     (1190 < length (zc (transport_encode inst)) \<longrightarrow> 1 < length frs)"

lemma drive_framed:
  assumes z: "zlib_ok zc zr" and "list_all2 (framed zc) insts frss" and "clean (drive_assembly s)"
  shows "forget (foldl (drive_fragment zr) s (concat frss))
       = foldl (\<lambda>s (inst, b). drive_instruction s inst b) (forget s) (zip insts (map (\<lambda>frs. 1 < length frs) frss))"
  using assms(2,3)
proof (induction arbitrary: s rule: list_all2_induct)
  case (Cons inst insts frs frss)
  from Cons.hyps(1) obtain i where "sent_as zc i inst frs" by (auto simp: framed_def)
  from drive_whole [OF z this Cons.prems] Cons.IH [of "foldl (drive_fragment zr) s frs"] show ?case by simp
qed simp

section \<open>The seeds\<close>

text \<open>A varint has at most ten bytes.\<close>

lemma length_write_varint_bits: "0 < n \<Longrightarrow> unat v < 2 ^ (7 * n) \<Longrightarrow> length (write_varint v) \<le> n"
proof (induction n arbitrary: v)
  case (Suc n)
  show ?case
  proof (cases "drop_bit 7 v = 0")
    case True
    then show ?thesis by (subst write_varint.simps) (simp add: Let_def)
  next
    case False
    have "unat (drop_bit 7 v) = unat v div 2 ^ 7" by (simp add: drop_bit_eq_div unat_div)
    also have "\<dots> < 2 ^ (7 * n)" using Suc.prems(2) by (simp add: less_mult_imp_div_less power_add mult.commute)
    finally have small: "unat (drop_bit 7 v) < 2 ^ (7 * n)" .
    with False have "0 < n" by (cases n) (auto simp: unat_eq_0)
    from Suc.IH [OF this small] False show ?thesis by (subst write_varint.simps) (simp add: Let_def)
  qed
qed simp

lemma length_write_varint: "length (write_varint v) \<le> 10"
proof (rule length_write_varint_bits)
  have "unat v < 2 ^ 64" using unsigned_less [of v, where ?'a = nat] by simp
  also have "\<dots> \<le> (2 :: nat) ^ (7 * 10)" by simp
  finally show "unat v < 2 ^ (7 * 10)" .
qed simp

lemma length_transport_encode: "length (transport_encode i) \<le> 140 + length (diff i) + length (chaff i)"
proof -
  have "length (write_varint_field f v) \<le> 20" for f v
    using length_write_varint [of "push_bit 3 (ucast f) OR ucast (0 :: u8)"] length_write_varint [of v]
    by (simp add: write_varint_field_def write_tag_def)
  note v = this
  have b: "length (write_bytes_field f bs) \<le> 20 + length bs" for f bs
    using length_write_varint [of "push_bit 3 (ucast f) OR ucast (2 :: u8)"] length_write_varint [of "of_nat (length bs)"]
    by (simp add: write_bytes_field_def write_tag_def)
  show ?thesis
    using v [of 1 "ucast (protocol_version i)"] v [of 2 "old_num i"] v [of 3 "new_num i"] v [of 4 "ack_num i"]
      v [of 5 "throwaway_num i"] b [of 6 "diff i"] b [of 7 "chaff i"]
    by (simp add: transport_encode_def)
qed

text \<open>Compression expands an input by at most a factor of two and a few bytes (zlib's documented bound
  is smaller).\<close>

definition zlib_bound :: "(bytes \<Rightarrow> bytes) \<Rightarrow> bool" where
  "zlib_bound zc \<longleftrightarrow> (\<forall>x. length (zc x) \<le> 2 * length x + 64)"

text \<open>An instruction small enough for the limits of the fragmenter and of the reassembly, whatever it
  compresses to.\<close>

definition modest :: "transport_instruction \<Rightarrow> bool" where
  "modest i \<longleftrightarrow> length (diff i) + length (chaff i) \<le> 4096"

lemma modest_limits:
  assumes "zlib_bound zc" and "modest i"
  shows "length (transport_encode i) \<le> DECOMPRESS_LIMIT" and "length (zc (transport_encode i)) \<le> ASSEMBLY_LIMIT"
    and "length (zc (transport_encode i)) \<le> 1190 * 0x8000"
proof -
  have "length (transport_encode i) \<le> 4236" using length_transport_encode [of i] assms(2) by (simp add: modest_def)
  moreover have "length (zc (transport_encode i)) \<le> 2 * length (transport_encode i) + 64"
    using assms(1) by (simp add: zlib_bound_def)
  ultimately show "length (transport_encode i) \<le> DECOMPRESS_LIMIT" "length (zc (transport_encode i)) \<le> ASSEMBLY_LIMIT"
    "length (zc (transport_encode i)) \<le> 1190 * 0x8000" by (simp_all add: DECOMPRESS_LIMIT_def ASSEMBLY_LIMIT_def)
qed

lemma make_modest:
  assumes zb: "zlib_bound zc" and i: "modest i"
  obtains frs fr' where "make_fragments zc fr i 1200 = (Inr frs, fr')" and "framed zc i frs"
proof -
  obtain r fr' where mk: "make_fragments zc fr i 1200 = (r, fr')" by fastforce
  have sl: "slice_loop (next_instruction_id fr') 1190 (zc (transport_encode i)) 0 [] = r"
    using mk by (auto simp: make_fragments_def Let_def FRAG_HEADER_LEN_def split: if_splits)
  with slice_loop_total [of 1190 0 "zc (transport_encode i)"] modest_limits(3) [OF zb i]
  obtain frs where r: "r = Inr frs" by (force simp: MAX_FRAGMENT_INDEX_def)
  have sent: "sent_as zc (next_instruction_id fr') i frs"
    by (rule make_fragments_sent [OF mk [unfolded r] modest_limits(2,1) [OF zb i]])
  have each: "length (contents f) + FRAG_HEADER_LEN \<le> 1200 \<and> fragment_num f \<le> MAX_FRAGMENT_INDEX" if "f \<in> set frs" for f
    by (rule make_fragments_each [OF mk [unfolded r] that])
  have "1 < length frs" if "1190 < length (zc (transport_encode i))"
  proof (rule ccontr)
    assume "\<not> 1 < length frs"
    moreover have "length (zc (transport_encode i)) \<le> 1190 * length frs"
      using numbered_pieces [of frs 1190] each sent by (force simp: sent_as_def FRAG_HEADER_LEN_def)
    ultimately show False using that by (cases "length frs") auto
  qed
  with sent each have "framed zc i frs"
    by (force simp: framed_def length_fragment_tostring)
  with mk r show thesis by (intro that [of frs fr']) simp_all
qed

lemma frame_all_modest:
  "zlib_bound zc \<Longrightarrow> list_all modest is \<Longrightarrow>
   \<exists>frss. frame_all zc fr is = concat frss \<and> list_all2 (framed zc) is frss"
proof (induction "is" arbitrary: fr)
  case (Cons i "is")
  from Cons.prems obtain frs fr' where mk: "make_fragments zc fr i 1200 = (Inr frs, fr')" and frs: "framed zc i frs"
    using make_modest [of zc i fr] by auto
  from Cons.IH [of fr'] Cons.prems obtain frss where
    "frame_all zc fr' is = concat frss" "list_all2 (framed zc) is frss" by auto
  with mk frs show ?case by (intro exI [of _ "frs # frss"]) simp
qed simp

text \<open>The sender of \<open>sender_shaped\<close> is silent at 1 ms and sends all that was typed in one instruction at 20 ms.\<close>

definition typed_inst :: transport_instruction where
  "typed_inst = seed_inst (user_diff (echo_golden @ [127, 109, 111, 114, 101, 27, 91, 65])) 0 1 0 0"

lemma sender_shaped_one: "sender_shaped zc = frame_all zc fragmenter_default [typed_inst]"
proof -
  let ?typed = "echo_golden @ [127, 109, 111, 114, 101, 27, 91, 65]"
  define es where "es = map Byte ?typed"
  note unfold_tick = tick_def sender_new_def user_stream_new_def set_current_state_def
    update_assumed_receiver_state_def rationalize_states_def compute_timers_def start_clocks_def next_send_at_def
    is_due_def ACTIVE_RETRY_TIMEOUT_MS_def ACK_INTERVAL_MS_def attempt_prospective_resend_optimization_def
    SHUTDOWN_NUM_def u64_max_def
  have typed: "typed_sender = set_current_state (sender_new user_stream_new 0 1) \<lparr>events = es\<rparr>"
    by (simp add: typed_sender_def set_current_state_def push_bytes_def sender_new_def user_stream_new_def echo_golden_def es_def)
  have d: "user_diff_from \<lparr>events = es\<rparr> \<lparr>events = []\<rparr> = user_diff ?typed"
    unfolding es_def by code_simp
  define d0 where "d0 = user_diff ?typed"
  have "user_diff ?typed \<noteq> []" by code_simp
  then have ne: "d0 \<noteq> []" "es \<noteq> []" by (simp_all add: d0_def es_def)
  note d = d [folded d0_def]
  have cmp: "\<not> 3000 \<le> (1 :: u64)" "\<not> 20 \<le> (1 :: u64)" by (simp_all add: word_le_nat_alt)
  have idle: "tick user_diff_from user_subtract zc typed_sender 1 120 20 1200 fragmenter_default []
      = (typed_sender\<lparr>mindelay_clock := Some 1\<rparr>, fragmenter_default, [])"
    using ne cmp by (simp add: typed unfold_tick d Let_def)
  let ?inst = "\<lparr>protocol_version = 2, old_num = 0, new_num = 1, ack_num = 0, throwaway_num = 0, diff = d0, chaff = []\<rparr>"
  obtain r fr where mk: "make_fragments zc fragmenter_default ?inst 1200 = (r, fr)" by fastforce
  have send: "snd (snd (tick user_diff_from user_subtract zc (typed_sender\<lparr>mindelay_clock := Some 1\<rparr>) 20 120 20 1200 fragmenter_default []))
      = (case r of Inr frs \<Rightarrow> frs | Inl _ \<Rightarrow> [])"
    using ne mk
    by (cases r) (simp_all add: typed unfold_tick d Let_def send_to_receiver_def add_sent_state_def SENT_QUEUE_CAP_def
        send_in_fragments_def outgoing_def MOSH_PROTOCOL_VERSION_def)
  have "typed_inst = ?inst" by (simp add: typed_inst_def seed_inst_def d0_def MOSH_PROTOCOL_VERSION_def)
  with idle mk send show ?thesis by (cases r) (simp_all add: sender_shaped_def case_prod_unfold)
qed

section \<open>What the seeds reach\<close>

definition drive_all :: "ssp_drive \<Rightarrow> (transport_instruction \<times> bool) list \<Rightarrow> ssp_drive" where
  "drive_all = foldl (\<lambda>s (inst, b). drive_instruction s inst b)"

lemma drive_all_simps [simp]:
  "drive_all s [] = s" "drive_all s ((inst, b) # ps) = drive_all (drive_instruction s inst b) ps"
  by (simp_all add: drive_all_def)

lemma drive_all_counts:
  "assembled (drive_counts (drive_all s ps)) = assembled (drive_counts s) + of_nat (length ps)"
  "multi_fragment_completions (drive_counts (drive_all s ps))
     = multi_fragment_completions (drive_counts s) + of_nat (length (filter snd ps))"
proof (induction ps arbitrary: s)
  case (Cons p ps)
  { case 1 with Cons.IH show ?case by (cases p) (simp add: drive_instruction_frame) }
  { case 2 with Cons.IH show ?case by (cases p) (simp add: drive_instruction_frame) }
qed simp_all

lemma drive_all_latest:
  assumes "n + length ps < 2 ^ 32" and "unat (user_latest (drive_counts s)) \<le> n" "unat (host_latest (drive_counts s)) \<le> n"
  shows "user_latest (drive_counts s) \<le> user_latest (drive_counts (drive_all s ps)) \<and>
         host_latest (drive_counts s) \<le> host_latest (drive_counts (drive_all s ps))"
  using assms
proof (induction ps arbitrary: s n)
  case (Cons p ps)
  obtain inst b where p: "p = (inst, b)" by fastforce
  let ?s = "drive_instruction s inst b"
  have up: "unat (x + 1) = Suc (unat x)" if "unat x \<le> n" for x :: u32 using that Cons.prems(1) by (intro unat_plus_one) simp
  have "unat (user_latest (drive_counts ?s)) \<le> Suc n" "unat (host_latest (drive_counts ?s)) \<le> Suc n"
    "user_latest (drive_counts s) \<le> user_latest (drive_counts ?s)" "host_latest (drive_counts s) \<le> host_latest (drive_counts ?s)"
    using drive_instruction_frame(5,6) [of s inst b] Cons.prems(2,3) up by (auto simp: word_le_nat_alt)
  with Cons.IH [of "Suc n" ?s] Cons.prems(1) show ?case by (auto simp: p)
qed simp

text \<open>The first two seeds of the exchange give each receiver a new state; the user's keystrokes decode
  as host bytes too.\<close>

lemma seed_lengths:
  "length (user_diff echo_golden) = 18" "length (user_diff [104, 105, 32, 109, 111, 115, 104, 13]) = 14"
  "length host_diff = 35" "length (diff typed_inst) = 26"
  by code_simp+

lemma golden_decodes:
  "user_decode (user_diff echo_golden) = Inr \<lparr>user_instructions = [Keystroke echo_golden]\<rparr>"
  "host_decode (user_diff echo_golden) = Inr \<lparr>host_instructions = [HostBytes echo_golden]\<rparr>"
proof -
  have same: "user_diff echo_golden = host_encode \<lparr>host_instructions = [HostBytes echo_golden]\<rparr>"
    by (simp add: user_diff_def user_encode_def host_encode_def)
  show "user_decode (user_diff echo_golden) = Inr \<lparr>user_instructions = [Keystroke echo_golden]\<rparr>"
    using user_codec.decode_encode seed_lengths(1) by (simp add: user_diff_def)
  show "host_decode (user_diff echo_golden) = Inr \<lparr>host_instructions = [HostBytes echo_golden]\<rparr>"
    using host_codec.decode_encode seed_lengths(1) by (simp add: same)
qed

lemma drive_instruction_latest:
  "user_latest (drive_counts (drive_instruction s inst b))
     = user_latest (drive_counts s) + (if is_latest (fst (user_process (user_rx s) inst)) then 1 else 0)"
  "host_latest (drive_counts (drive_instruction s inst b)) = host_latest (drive_counts s) +
     (if is_latest (fst (process_instruction host_apply_string (host_free s) (host_rx s) inst 0)) then 1 else 0)"
  "user_rx (drive_instruction s inst b) = snd (user_process (user_rx s) inst)"
  "host_rx (drive_instruction s inst b) = fst (snd (process_instruction host_apply_string (host_free s) (host_rx s) inst 0))"
  "host_free (drive_instruction s inst b) = snd (snd (process_instruction host_apply_string (host_free s) (host_rx s) inst 0))"
  by (auto simp: drive_instruction_def Let_def split: prod.split)

lemma golden_latest:
  "user_latest (drive_counts (drive_all drive_start [(seed_inst [] 0 0 0 0, b), (seed_inst (user_diff echo_golden) 0 1 1 0, c)])) = 1 \<and>
   host_latest (drive_counts (drive_all drive_start [(seed_inst [] 0 0 0 0, b), (seed_inst (user_diff echo_golden) 0 1 1 0, c)])) = 1"
proof -
  let ?i = "seed_inst (user_diff echo_golden) 0 1 1 0"
  have ne: "user_diff echo_golden \<noteq> []" by code_simp
  have first: "process_instruction f h (receiver_new s0 0) (seed_inst [] 0 0 0 0) 0 = (Inr Duplicate, receiver_new s0 0, h)"
    for f :: "'h \<Rightarrow> 's \<Rightarrow> bytes \<Rightarrow> (wire_error + 's) \<times> 'h" and h s0
    by (simp add: process_instruction_def receiver_new_def seed_inst_def)
  have second: "is_latest (fst (process_instruction f h (receiver_new s0 0) ?i 0))"
    if "f h s0 (user_diff echo_golden) = (Inr s', h')"
    for f :: "'h \<Rightarrow> 's \<Rightarrow> bytes \<Rightarrow> (wire_error + 's) \<times> 'h" and h h' s0 s'
    using ne that by (simp add: process_instruction_def receiver_new_def seed_inst_def process_throwaway_until_def
      insert_state_def RECEIVED_QUEUE_CAP_def Let_def)
  have "is_latest (fst (process_instruction (\<lambda>_ s d. (user_apply_string s d, ())) () (receiver_new user_stream_new 0) ?i 0))"
    by (rule second) (simp add: user_apply_string_def golden_decodes)
  then have u: "is_latest (fst (user_process (receiver_new user_stream_new 0) ?i))"
    by (simp add: user_process_def case_prod_unfold)
  have "host_apply_string 0 host_stream_new (user_diff echo_golden)
      = (Inr (fst (foldl apply_host_instruction (host_stream_new, 0) [HostBytes echo_golden])),
         snd (foldl apply_host_instruction (host_stream_new, 0) [HostBytes echo_golden]))"
    by (simp add: host_apply_string_def golden_decodes case_prod_unfold)
  from second [of host_apply_string 0, OF this] u show ?thesis
    by (simp add: drive_instruction_latest first user_process_def drive_start_def counts_default_def)
qed

lemma length_lcg [simp]: "length (lcg_bytes n m) = n"
  by (induction n arbitrary: m) (simp_all add: Let_def)

lemma sequence_modest: "list_all modest (sequence_instructions @ [typed_inst])"
proof -
  have "chaff typed_inst = []" by (simp add: typed_inst_def seed_inst_def)
  then show ?thesis by (simp add: sequence_instructions_def modest_def seed_inst_def seed_lengths [unfolded seed_inst_def])
qed

lemma drive_seeds:
  assumes z: "zlib_ok zc zr" and zb: "zlib_bound zc"
  obtains frss where "list_all2 (framed zc) (sequence_instructions @ [typed_inst]) frss"
    and "drive_ssp_receive zr (last (sequence_seeds zc)) = drive_counts (foldl (drive_fragment zr) drive_start (concat frss))"
proof -
  obtain frss1 where 1: "frame_all zc fragmenter_default sequence_instructions = concat frss1"
      "list_all2 (framed zc) sequence_instructions frss1"
    using frame_all_modest [OF zb] sequence_modest by auto
  obtain frss2 where 2: "frame_all zc fragmenter_default [typed_inst] = concat frss2" "list_all2 (framed zc) [typed_inst] frss2"
    using frame_all_modest [OF zb, of "[typed_inst]"] sequence_modest by auto
  have all: "list_all2 (framed zc) (sequence_instructions @ [typed_inst]) (frss1 @ frss2)"
    using 1(2) 2(2) by (rule list_all2_appendI)
  have sizes: "\<forall>f \<in> set (concat (frss1 @ frss2)). fragment_num f \<le> MAX_FRAGMENT_INDEX \<and> length (fragment_tostring f) < 2 ^ 16"
  proof
    fix f assume "f \<in> set (concat (frss1 @ frss2))"
    then obtain frs where "frs \<in> set (frss1 @ frss2)" "f \<in> set frs" by auto
    moreover from this(1) all obtain i where "framed zc i frs" by (metis in_set_conv_nth list_all2_conv_all_nth)
    ultimately show "fragment_num f \<le> MAX_FRAGMENT_INDEX \<and> length (fragment_tostring f) < 2 ^ 16"
      by (simp add: framed_def)
  qed
  have "last (sequence_seeds zc) = concat (map (\<lambda>f. prefix_chunk (fragment_tostring f)) (concat (frss1 @ frss2)))"
    using 1(1) 2(1) by (simp add: sequence_seeds_def seed_sequence_def sender_shaped_fragments_def sender_shaped_one o_def)
  then have "parse_chunks (last (sequence_seeds zc)) 0 = concat (frss1 @ frss2)"
    by (intro parse_chunks_all [of _ _ _ "[]"] sizes) (simp_all add: broken_off_def)
  then show thesis by (intro that [OF all]) (simp add: drive_ssp_receive_def)
qed

text \<open>The instructions of the exchange, each with whether a later fragment completed it.\<close>

definition exchange :: "fragment list list \<Rightarrow> (transport_instruction \<times> bool) list" where
  "exchange frss = zip (sequence_instructions @ [typed_inst]) (map (\<lambda>frs. 1 < length frs) frss)"

lemma exchange_reaches:
  assumes frss: "list_all2 (framed zc) (sequence_instructions @ [typed_inst]) frss"
    and c: "c = drive_counts (drive_all drive_start (exchange frss))"
  shows "assembled c = 6" and "1 \<le> user_latest c" and "1 \<le> host_latest c"
    and "1190 < length (zc (transport_encode (last sequence_instructions))) \<Longrightarrow> 1 \<le> multi_fragment_completions c"
proof -
  define ps where "ps = exchange frss"
  have six: "length frss = 6" "length ps = 6"
    using list_all2_lengthD [OF frss] by (simp_all add: ps_def exchange_def sequence_instructions_def)
  then obtain f1 f2 f3 f4 f5 f6 where f: "frss = [f1, f2, f3, f4, f5, f6]"
    by (auto simp: numeral_eq_Suc length_Suc_conv)
  then obtain b1 b2 ps' where ps: "ps = [(seed_inst [] 0 0 0 0, b1), (seed_inst (user_diff echo_golden) 0 1 1 0, b2)] @ ps'"
    by (simp add: ps_def exchange_def sequence_instructions_def)
  let ?s2 = "drive_all drive_start [(seed_inst [] 0 0 0 0, b1), (seed_inst (user_diff echo_golden) 0 1 1 0, b2)]"
  have "c = drive_counts (drive_all ?s2 ps')" by (simp add: c ps drive_all_def flip: ps_def)
  with drive_all_latest [of 1 ps' ?s2] golden_latest [of b1 b2] ps six(2)
  show "1 \<le> user_latest c" "1 \<le> host_latest c" by auto
  show "assembled c = 6"
    by (simp add: c drive_all_counts six flip: ps_def) (simp add: drive_start_def counts_default_def)
  assume "1190 < length (zc (transport_encode (last sequence_instructions)))"
  then have "1 < length f5" using frss by (simp add: f framed_def sequence_instructions_def)
  then have "filter snd ps \<noteq> []" by (simp add: ps_def exchange_def f sequence_instructions_def)
  then have "1 \<le> length (filter snd ps)" by (cases "filter snd ps") auto
  moreover have "length (filter snd ps) \<le> 6" using six(2) by (metis length_filter_le)
  ultimately show "1 \<le> multi_fragment_completions c"
    by (simp add: c drive_all_counts drive_start_def counts_default_def word_le_nat_alt unsigned_of_nat
        take_bit_nat_eq_self flip: ps_def)
qed

text \<open>Every wire seed decodes under its own decoder.\<close>

lemma wire_seeds_decode:
  "list_all (\<lambda>s. count_user (drive_wire_decode s) = 1) (take 2 wire_seeds)"
  "list_all (\<lambda>s. count_host (drive_wire_decode s) = 1) (take 2 (drop 2 wire_seeds))"
  "list_all (\<lambda>s. count_transport (drive_wire_decode s) = 1) (drop 4 wire_seeds)"
proof -
  have ok: "is_ok (transport_decode (transport_encode i))" if "length (diff i) + length (chaff i) \<le> 100" for i
    using length_transport_encode [of i] that by (simp add: transport_codec.decode_encode)
  have "length (user_encode \<lparr>user_instructions = []\<rparr>) < 2 ^ 64" "length (host_encode \<lparr>host_instructions = []\<rparr>) < 2 ^ 64"
    by (simp_all add: host_encode_def user_encode_def)
  then have "user_decode (user_encode \<lparr>user_instructions = []\<rparr>) = Inr \<lparr>user_instructions = []\<rparr>"
    "host_decode (host_encode \<lparr>host_instructions = []\<rparr>) = Inr \<lparr>host_instructions = []\<rparr>"
    by - (rule user_codec.decode_encode host_codec.decode_encode, assumption)+
  then show "list_all (\<lambda>s. count_user (drive_wire_decode s) = 1) (take 2 wire_seeds)"
    "list_all (\<lambda>s. count_host (drive_wire_decode s) = 1) (take 2 (drop 2 wire_seeds))"
    using seed_lengths user_codec.decode_encode host_codec.decode_encode
    by (simp_all add: wire_seeds_def drive_wire_decode_def user_diff_def host_diff_def)
  show "list_all (\<lambda>s. count_transport (drive_wire_decode s) = 1) (drop 4 wire_seeds)"
    using seed_lengths
    by (simp add: wire_seeds_def drive_wire_decode_def ok seed_inst_def)
qed

section \<open>Properties\<close>

text \<open>The two drivers agree: on every input, with every decompressor, \<open>drive_fragment_assembly\<close> returns
  the first three counts of \<open>drive_ssp_receive\<close>; and on inputs below 4 GiB the counts are ordered: no
  more instructions than fragments, no more multi-fragment completions and no more new states at either
  receiver than instructions, and twelve input bytes for each fragment.\<close>

theorem drivers_agree:
  assumes "length data < 2 ^ 32"
  shows "drive_fragment_assembly zr data =
      (parsed_fragments (drive_ssp_receive zr data), assembled (drive_ssp_receive zr data),
       multi_fragment_completions (drive_ssp_receive zr data)) \<and>
    12 * unat (parsed_fragments (drive_ssp_receive zr data)) \<le> length data \<and>
    assembled (drive_ssp_receive zr data) \<le> parsed_fragments (drive_ssp_receive zr data) \<and>
    multi_fragment_completions (drive_ssp_receive zr data) \<le> assembled (drive_ssp_receive zr data) \<and>
    user_latest (drive_ssp_receive zr data) \<le> assembled (drive_ssp_receive zr data) \<and>
    host_latest (drive_ssp_receive zr data) \<le> assembled (drive_ssp_receive zr data)"
proof -
  let ?fs = "parse_chunks data 0"
  have start: "assembly_view drive_start = ((0, 0, 0), assembly_new)"
    by (simp add: assembly_view_def drive_start_def counts_default_def)
  have agree: "drive_fragment_assembly zr data = fst (assembly_view (foldl (drive_fragment zr) drive_start ?fs))"
    by (simp add: drive_fragment_assembly_def flip: drive_view start)
  have len: "12 * length ?fs \<le> length data" using parse_chunks_length [of data 0] by simp
  have "counts_ok 0 (drive_counts drive_start)" by (simp add: counts_ok_def drive_start_def counts_default_def)
  from drive_counts_ok [OF this, of ?fs zr] len assms have "counts_ok (length ?fs) (drive_ssp_receive zr data)"
    by (simp add: drive_ssp_receive_def)
  with agree len show ?thesis
    by (auto simp: counts_ok_def assembly_view_def drive_ssp_receive_def word_le_nat_alt)
qed

text \<open>The input format round-trips: an input built from chunks of whole fragments, each shorter than
  64 KiB, is read back as exactly those fragments in order, and a last chunk that the input breaks off
  yields nothing.\<close>

theorem chunks_round_trip:
  assumes "\<forall>f \<in> set fs. fragment_num f \<le> MAX_FRAGMENT_INDEX \<and> length (fragment_tostring f) < 2 ^ 16"
    and "broken_off rest"
  shows "parse_chunks (concat (map (\<lambda>f. prefix_chunk (fragment_tostring f)) fs) @ rest) 0 = fs"
  using assms by (intro parse_chunks_all [of _ _ _ rest]) simp_all

text \<open>C40: The seeds reach what the fuzz targets are for: on the last seed, one whole exchange, all six
  instructions are reassembled, each receiver accepts at least one new state, and a reassembly from
  several fragments completes whenever the compressor leaves the pseudo-random instruction above one
  fragment's 1190 bytes.\<close>

theorem seeds_reach_receivers:
  assumes "zlib_ok zc zr" and "zlib_bound zc"
  shows "assembled (drive_ssp_receive zr (last (sequence_seeds zc))) = 6 \<and>
    1 \<le> user_latest (drive_ssp_receive zr (last (sequence_seeds zc))) \<and>
    1 \<le> host_latest (drive_ssp_receive zr (last (sequence_seeds zc))) \<and>
    (1190 < length (zc (transport_encode (last sequence_instructions))) \<longrightarrow>
     1 \<le> multi_fragment_completions (drive_ssp_receive zr (last (sequence_seeds zc))))"
proof -
  obtain frss where frss: "list_all2 (framed zc) (sequence_instructions @ [typed_inst]) frss"
    and run: "drive_ssp_receive zr (last (sequence_seeds zc)) = drive_counts (foldl (drive_fragment zr) drive_start (concat frss))"
    using drive_seeds [OF assms] .
  have "clean (drive_assembly drive_start)" "forget drive_start = drive_start"
    by (simp_all add: drive_start_def forget_def counts_default_def)
  with drive_framed [OF assms(1) frss, of drive_start]
  have all: "forget (foldl (drive_fragment zr) drive_start (concat frss))
      = drive_all drive_start (exchange frss)"
    by (simp add: drive_all_def exchange_def)
  from exchange_reaches [OF frss refl] show ?thesis by (simp add: run forget_def flip: all)
qed

section \<open>Witnesses\<close>

theorem drivers_agree_witness:
  "drive_fragment_assembly toy_zr [1, 0, 7] = (0, 0, 0) \<and> unat (parsed_fragments (drive_ssp_receive toy_zr [1, 0, 7])) = 0"
proof -
  have p: "unat (parsed_fragments (drive_ssp_receive toy_zr [1, 0, 7])) = 0"
    using drivers_agree [of "[1, 0, 7]" toy_zr] by simp
  then have "parsed_fragments (drive_ssp_receive toy_zr [1, 0, 7]) = 0" by (simp only: unat_eq_0)
  with p show ?thesis using drivers_agree [of "[1, 0, 7]" toy_zr] by auto
qed

theorem chunks_round_trip_witness:
  "parse_chunks (concat (map (\<lambda>f. prefix_chunk (fragment_tostring f)) [toy_frag 0 False [1, 2], toy_frag 1 True [3]]) @ [9, 0, 7]) 0
   = [toy_frag 0 False [1, 2], toy_frag 1 True [3]]"
proof (rule chunks_round_trip)
  show "broken_off [9, 0, 7]" by code_simp
qed (simp add: toy_frag_def length_fragment_tostring FRAG_HEADER_LEN_def MAX_FRAGMENT_INDEX_def)

theorem seeds_reach_receivers_witness:
  "assembled (drive_ssp_receive toy_zr (last (sequence_seeds (\<lambda>x. x)))) = 6 \<and>
   1 \<le> multi_fragment_completions (drive_ssp_receive toy_zr (last (sequence_seeds (\<lambda>x. x))))"
proof -
  have "1190 < length (transport_encode (last sequence_instructions))"
    by (simp add: sequence_instructions_def seed_inst_def transport_encode_def write_bytes_field_def)
  with seeds_reach_receivers [OF toy_zlib_ok] show ?thesis by (simp add: zlib_bound_def)
qed

end
