(* ===== verification/Spec2Isabelle.thy ===== *)
theory Spec2Isabelle
  imports Bootstrap Ssp_System Mosh_Session Interleaving End_To_End Log_Memory Fuzz_Harness
begin

text \<open>
  A verification development of a Rust client library for the mosh remote shell
  (\<^verbatim>\<open>src/src/*.rs\<close>). The client starts a server over SSH, then keeps two states synchronized with it
  over UDP: the log of what the user typed, sent to the server, and the log of what the terminal
  shows, received from it. Datagrams may be lost, duplicated, delayed, reordered, replayed and forged.

  \<^bold>\<open>The parts and their theories\<close>, bottom up:

  \<^item> \<open>Prelude\<close>: machine integers as words of their width, big-endian codecs with the locale \<open>fixed_codec\<close>
    (interpreted for \<open>u64\<close> and \<open>u16\<close>), list lemmas, decimal rendering.
  \<^item> \<open>Wire\<close> (\<^verbatim>\<open>wire.rs\<close>): the protobuf subset. Writers are functions to byte lists; readers take the buffer
    and a position and return an error or a value and the new position, as the source moves its
    cursor. Round trips, unknown fields and the stack they need, bounds, exact errors.
  \<^item> \<open>Crypto\<close> (\<^verbatim>\<open>crypto.rs\<close>): nonces, the key codec, headers, the sealer with its sequence and block budgets,
    the opener with its direction gate.
  \<^item> \<open>Fragments\<close> (\<^verbatim>\<open>fragment.rs\<close>): framing, the fragmenter and its id rule, reassembly in any order.
  \<^item> \<open>Sync_State\<close>, \<open>User_Stream\<close> (\<^verbatim>\<open>ssp.rs\<close>): the contract of a sent state and of a synchronized state as
    the locales \<open>sent_state\<close> and \<open>sync_state\<close>, and the user stream that satisfies it.
  \<^item> \<open>Host_Log\<close> (\<^verbatim>\<open>ssp.rs\<close>): the persistent event log. Nodes carry addresses, so that the pointer comparison
    of \<open>suffix_over\<close> is modelled as such. \<open>Log_Memory\<close> is the memory under it, with reference counts and
    the hand-written \<open>drop\<close>, and refines it.
  \<^item> \<open>Ssp_Receiver\<close>, \<open>Ssp_Sender\<close> (\<^verbatim>\<open>ssp.rs\<close>): the two halves of the engine, generic over the state. The sender's
    lemmas are proved in \<open>sent_state\<close> and reach the program through its interpretation on the user stream.
  \<^item> \<open>Ssp_System\<close>: a sender and a receiver composed over a network that may do anything to fragments but
    forge them, as a step relation with reachable states and one invariant.
  \<^item> \<open>Bootstrap\<close> (\<^verbatim>\<open>bootstrap.rs\<close>): the server command with its quoting, and the parser of the channel output.
  \<^item> \<open>Prediction\<close> (\<^verbatim>\<open>session.rs\<close>): the local-echo overlay.
  \<^item> \<open>Timing\<close> (\<^verbatim>\<open>session.rs\<close>): the 16-bit clock, the round-trip estimator and the timers it drives, with
    every floating-point operation rounded to the nearest double.
  \<^item> \<open>Session_Loop\<close> (\<^verbatim>\<open>session.rs\<close>): the loop's state, an extension of the state it shares with the handle,
    and one function per step: commands, tick, sealing and sending, port hopping, receiving,
    displaying. \<open>run_round\<close> is one turn of the source's loop and \<open>run\<close> a sequence of them.
  \<^item> \<open>Session\<close>: invariants of the loop. The locales \<open>datagram_invariant\<close> and \<open>loop_invariant\<close> state what each
    handler owes and give whole runs; they are interpreted for the link, the display, the user's
    side, the queue, and the events that end a session.
  \<^item> \<open>Mosh_Session\<close> (\<^verbatim>\<open>session.rs\<close>): the handle, and the properties of the sessions it launches.
  \<^item> \<open>Interleaving\<close> (\<^verbatim>\<open>session.rs\<close>): the loop's thread and the embedder's threads at the granularity of their
    accesses to the display, the host bytes, the overlay and the frame version. \<open>loop_next\<close> is the loop's
    next access, \<open>thread_step\<close> interleaves it with the calls of the handle, and the loop of whole rounds is
    one of the interleavings.
  \<^item> \<open>Deployment\<close>: a launched session joined to a server and a network that loses, delays, repeats, reorders
    and alters datagrams, and a simulation of it by \<open>Ssp_System\<close>. \<open>Sample_Session\<close> evaluates one such
    session and \<open>End_To_End\<close> states what the simulation gives.
  \<^item> \<open>Fuzz_Harness\<close> (\<^verbatim>\<open>src/fuzz/src/lib.rs\<close>): the drivers of the fuzz targets and the seeds of their corpora.

  \<^bold>\<open>What the theorems show.\<close> End to end, from the commands of the embedder over sealed datagrams to the
  server's receiver: everything the server ever holds is a prefix of what was entered, and what the
  client takes for acknowledged has arrived. In the other direction the display is what the server's
  terminal printed, and with an honest server only the exhausted key budget ends a session. These rest
  on one simulation, whose abstract side is \<open>Ssp_System\<close>: the acknowledged state is always usable as a
  base there, and every tick is silent or sends exactly the difference between the two states it names,
  in time. Reassembly delivers only what was sent. Sealed datagrams open to what was sealed, no nonce
  is used twice, reflections are refused. In every session, with any server and whatever the
  embedder does in between, the display shows the newest received state but for local resizes, no repaint
  is missed, and the host bytes are complete, each when the loop rests; datagrams fit the path, timers and
  sockets stay in bounds, a replayed datagram has no effect but its fragment's, a shutdown ends within its
  deadline, and the end is reported exactly once. The memory of
  the event logs neither leaks nor dangles. The remote
  shell sees the intended arguments, and the parser finds what the server printed. The fuzz drivers agree
  and their seeds reach what they are meant to reach. The remaining theorems say what each operation
  does on every branch.

  \<^bold>\<open>The server and the network\<close> of \<open>Deployment\<close>. The server is not in the repository. Its receiving half is
  the crate's own opener, reassembly and receiver on the user stream; its sending half is constrained,
  not defined: each of its instructions speaks the client's version, carries a diff that parses
  (\<open>well_formed\<close>) and acknowledges only what the server received. It may frame one state number several
  times, from different bases and with different diffs; what it printed on the way to a number is
  then any chain of diffs that it sent (\<open>printed\<close>). The network may hand either side any
  bytes it likes except forgeries: bytes that open at the client carry a fragment the server sent
  (\<open>genuine_wake\<close>), and bytes that open at the server were sealed by the client. That is what the
  cipher's integrity promises; nothing else of it is used. The size limits of reassembly are the
  hypothesis \<open>fits\<close> on what a round of the client sends.

  \<^bold>\<open>Conventions.\<close> Arithmetic on clocks and numbers wraps, as in a release build; where the debug build
  would panic, the invariants show that it does not happen or the theorem bounds the run (state
  numbers are finite, so the sender is sound for \<open>NUMBER_LIMIT = 2 ^ 64 - 2\<close> rounds). Fallible code
  returns a sum with the error on the left. Byte counts that only measure memory are natural numbers.
  No function runs on fuel: loops are total functions, and the recursion of the wire readers terminates
  because every reader moves forward inside its buffer. Functions have no stack either; the one
  recursion of the source that hostile input controls, \<open>skip_field\<close>, has its frames counted
  (\<open>skip_frames\<close>): the decoders' theorems hold on a stack with room for that many, and nothing in the
  source limits them.

  \<^bold>\<open>The embedder.\<close> The calls of the handle between two rounds come with the wake of the next one
  (\<open>wake_commands\<close>): \<open>woken\<close> runs each, so that a resize changes the display and the frame version at
  once, as \<open>MoshSession::resize\<close> does, and then queues its command. \<open>Interleaving\<close> lets them run between
  any two accesses of the loop. The platform decides which error code of a send means that the
  datagram was too long (\<open>platform\<close>, \<open>is_emsgsize\<close>).

  \<^bold>\<open>Parameters.\<close> Code outside the repository is an argument: the AES-OCB cipher (\<open>aead_ok\<close>: what was
  encrypted decrypts, with a tag of 16 bytes), base64 (\<open>base64_ok\<close>), zlib (\<open>zlib_ok\<close>: reading a
  compressed stream yields a prefix of the original; \<open>zlib_bound\<close>: compression does not expand its input
  by more than a factor of two), name resolution, sockets, and the embedder's
  display, of which nothing is assumed. Each hypothesis has an instance in the witnesses.

  \<^bold>\<open>Not modelled\<close>: the operating system's sockets, threads and clock, which are inputs of each round; the
  weak memory order of the relaxed atomics (\<open>Interleaving\<close> is sequentially consistent); trace output;
  \<^verbatim>\<open>src/src/lib.rs\<close>, which only re-exports; accessors that return a field (a field selector here); the tests.
\<close>

end
